(* ===== verification/Prelude.thy ===== *)
theory Prelude
  imports Main "HOL-Library.Word" "HOL-Library.Monad_Syntax"
begin

text \<open>
  Shared vocabulary of the development: the Rust integer types, panics and checked
  arithmetic, the bit-level helpers of the Rust standard library that the modelled crates
  call, little-endian byte strings, in-place slice updates, and two generic interfaces
  (a state machine with an invariant, and a save/restore pair).

  Conventions. A function that can panic returns \<open>'a option\<close> with \<open>None\<close> for the panic.
  A Rust \<open>Result<T, E>\<close> is the sum \<open>'e + 't\<close> with \<open>Inl\<close> for \<open>Err\<close>. Plain Rust \<open>+\<close>, \<open>-\<close> and
  \<open>*\<close> panic on overflow in the profiles with overflow checks, and the operators \<open>add_ck\<close>,
  \<open>sub_ck\<close> and \<open>mul_ck\<close> model that; where they return \<open>Some\<close> the wrapping profiles compute
  the same value.
\<close>

unbundle bit_operations_syntax

subsection \<open>Integer types\<close>

type_synonym u8 = "8 word"
type_synonym u16 = "16 word"
type_synonym u32 = "32 word"
type_synonym u64 = "64 word"

subsection \<open>Panics and checked arithmetic\<close>

definition assert_that :: "bool \<Rightarrow> unit option" where
  "assert_that b = (if b then Some () else None)"

definition add_ck :: "'a::len word \<Rightarrow> 'a word \<Rightarrow> 'a word option" where
  "add_ck a b = (if unat a + unat b < 2 ^ LENGTH('a) then Some (a + b) else None)"

definition sub_ck :: "'a::len word \<Rightarrow> 'a word \<Rightarrow> 'a word option" where
  "sub_ck a b = (if b \<le> a then Some (a - b) else None)"

definition mul_ck :: "'a::len word \<Rightarrow> 'a word \<Rightarrow> 'a word option" where
  "mul_ck a b = (if unat a * unat b < 2 ^ LENGTH('a) then Some (a * b) else None)"

text \<open>The same on \<open>usize\<close> and \<open>u64\<close> quantities that the model keeps as natural numbers, and the
  checked indexing and slicing of Rust slices.\<close>

definition nat_add_ck :: "nat \<Rightarrow> nat \<Rightarrow> nat option" where
  "nat_add_ck a b = (if a + b < 2 ^ 64 then Some (a + b) else None)"

definition nat_sub_ck :: "nat \<Rightarrow> nat \<Rightarrow> nat option" where
  "nat_sub_ck a b = (if b \<le> a then Some (a - b) else None)"

definition index_ck :: "'a list \<Rightarrow> nat \<Rightarrow> 'a option" where
  "index_ck xs i = (if i < length xs then Some (xs ! i) else None)"

definition split_at_ck :: "nat \<Rightarrow> 'a list \<Rightarrow> ('a list \<times> 'a list) option" where
  "split_at_ck n xs = (if n \<le> length xs then Some (take n xs, drop n xs) else None)"

subsection \<open>Integer methods of the Rust standard library\<close>

definition is_power_of_two :: "'a::len word \<Rightarrow> bool" where
  "is_power_of_two w = list_ex (\<lambda>k. w = 2 ^ k) [0..<LENGTH('a)]"

definition trailing_zeros :: "'a::len word \<Rightarrow> nat" where
  "trailing_zeros w = length (takeWhile (\<lambda>n. \<not> bit w n) [0..<LENGTH('a)])"

definition leading_zeros :: "'a::len word \<Rightarrow> nat" where
  "leading_zeros w = length (takeWhile (\<lambda>n. \<not> bit w (LENGTH('a) - 1 - n)) [0..<LENGTH('a)])"

definition div_ceil :: "nat \<Rightarrow> nat \<Rightarrow> nat" where
  "div_ceil a b = a div b + (if a mod b = 0 then 0 else 1)"

subsection \<open>Byte strings\<close>

text \<open>\<open>to_le_bytes\<close> and \<open>from_le_bytes\<close>, for a width of \<open>n\<close> bytes.\<close>

fun le_bytes :: "nat \<Rightarrow> 'a::len word \<Rightarrow> u8 list" where
  "le_bytes 0 w = []"
| "le_bytes (Suc n) w = ucast w # le_bytes n (drop_bit 8 w)"

fun of_le_bytes :: "u8 list \<Rightarrow> 'a::len word" where
  "of_le_bytes [] = 0"
| "of_le_bytes (b # bs) = ucast b OR push_bit 8 (of_le_bytes bs)"

text \<open>\<open>xs[off..off + bs.len()].copy_from_slice(bs)\<close>, and the slice \<open>xs[off..off + n]\<close>.\<close>

definition splice :: "nat \<Rightarrow> 'a list \<Rightarrow> 'a list \<Rightarrow> 'a list" where
  "splice off bs xs = take off xs @ bs @ drop (off + length bs) xs"

definition slice :: "nat \<Rightarrow> nat \<Rightarrow> 'a list \<Rightarrow> 'a list" where
  "slice off n xs = take n (drop off xs)"

subsection \<open>Bit fields and loops\<close>

text \<open>Reading and writing the field of \<open>n\<close> bits at bit \<open>lo\<close>, as the accessors that the
  \<open>bitfield_struct\<close> attribute generates do; a value that is too wide is truncated.\<close>

definition get_field :: "nat \<Rightarrow> nat \<Rightarrow> 'a::len word \<Rightarrow> 'a word" where
  "get_field lo n w = take_bit n (drop_bit lo w)"

definition set_field :: "nat \<Rightarrow> nat \<Rightarrow> 'a word \<Rightarrow> 'a::len word \<Rightarrow> 'a word" where
  "set_field lo n v w = (w AND NOT (push_bit lo (mask n))) OR push_bit lo (take_bit n v)"

definition put_bit :: "nat \<Rightarrow> bool \<Rightarrow> 'a::len word \<Rightarrow> 'a word" where
  "put_bit i b w = (if b then w OR push_bit i 1 else w AND NOT (push_bit i 1))"

text \<open>A \<open>for\<close> loop over a list whose body can panic.\<close>

fun for_each :: "('i \<Rightarrow> 's \<Rightarrow> 's option) \<Rightarrow> 'i list \<Rightarrow> 's \<Rightarrow> 's option" where
  "for_each f [] s = Some s"
| "for_each f (i # is) s = f i s \<bind> for_each f is"

text \<open>The value of an \<open>Ok\<close>.\<close>

fun ok_value :: "'e + 'a \<Rightarrow> 'a option" where
  "ok_value (Inl e) = None"
| "ok_value (Inr a) = Some a"

subsection \<open>Facts collections\<close>

named_theorems model_defs \<open>definitions of the model that case analysis unfolds\<close>
named_theorems unat_simps \<open>reading word expressions as natural numbers\<close>

subsection \<open>Panics and arithmetic\<close>

lemma assert_that_iff [simp]:
  "assert_that b = Some u \<longleftrightarrow> b" "assert_that b = None \<longleftrightarrow> \<not> b"
  by (auto simp: assert_that_def)

lemma assert_that_simps [simp]: "assert_that True = Some ()" "assert_that False = None"
  by (simp_all add: assert_that_def)

lemma bind_assert [simp]: "assert_that b \<bind> (\<lambda>_. f) = (if b then f else None)"
  by (simp add: assert_that_def)

lemma nat_sub_ck_simps [simp]: "b \<le> a \<Longrightarrow> nat_sub_ck a b = Some (a - b)"
  by (simp add: nat_sub_ck_def)

lemma nat_add_ck_simps [simp]: "a + b < 2 ^ 64 \<Longrightarrow> nat_add_ck a b = Some (a + b)"
  by (simp add: nat_add_ck_def)

lemma index_ck_simps [simp]: "i < length xs \<Longrightarrow> index_ck xs i = Some (xs ! i)"
  by (simp add: index_ck_def)

lemma split_at_ck_simps [simp]: "n \<le> length xs \<Longrightarrow> split_at_ck n xs = Some (take n xs, drop n xs)"
  by (simp add: split_at_ck_def)

lemma add_ck_eq_Some_iff: "add_ck a b = Some c \<longleftrightarrow> c = a + b \<and> unat a + unat b < 2 ^ LENGTH('a)"
  for a :: "'a::len word"
  by (auto simp: add_ck_def)

lemma add_ck_unat: "add_ck a b = Some c \<Longrightarrow> unat c = unat a + unat b"
  by (simp add: add_ck_eq_Some_iff unat_word_ariths)

lemma sub_ck_eq_Some_iff: "sub_ck a b = Some c \<longleftrightarrow> c = a - b \<and> b \<le> a"
  by (auto simp: sub_ck_def)

lemma sub_ck_unat: "sub_ck a b = Some c \<Longrightarrow> unat c = unat a - unat b"
  by (simp add: sub_ck_eq_Some_iff unat_sub)

lemma mul_ck_unat: "mul_ck a b = Some c \<Longrightarrow> unat c = unat a * unat b"
  by (auto simp: mul_ck_def unat_word_ariths split: if_splits)

subsection \<open>Masks and bits\<close>

lemma is_power_of_two_iff: "is_power_of_two w \<longleftrightarrow> (\<exists>k<LENGTH('a). w = 2 ^ k)"
  for w :: "'a::len word"
  by (auto simp: is_power_of_two_def list_ex_iff)

lemma unat_2p: "k < LENGTH('a) \<Longrightarrow> unat (2 ^ k :: 'a::len word) = 2 ^ k"
proof -
  assume k: "k < LENGTH('a)"
  then have "(2::nat) ^ k < 2 ^ LENGTH('a)" by simp
  then have "unat (of_nat (2 ^ k) :: 'a word) = 2 ^ k" by (simp add: unat_of_nat del: of_nat_power)
  then show ?thesis by simp
qed

lemma unat_and_mask: "unat (w AND (2 ^ k - 1)) = unat w mod 2 ^ k"
  for w :: "'a::len word"
proof -
  have "w AND (2 ^ k - 1) = take_bit k w"
    by (simp only: take_bit_eq_mask mask_eq_exp_minus_1)
  then have "unat (w AND (2 ^ k - 1)) = take_bit k (unat w)"
    by (simp only: unsigned_take_bit_eq)
  then show ?thesis by (simp only: take_bit_eq_mod)
qed

lemma unat_and_not_mask: "unat (w AND NOT (2 ^ k - 1)) = unat w - unat w mod 2 ^ k"
  for w :: "'a::len word"
proof -
  have eq: "w AND NOT (2 ^ k - 1) = w - (w AND (2 ^ k - 1))"
  proof -
    have "w - (w AND (2 ^ k - 1)) = w AND NOT (w AND (2 ^ k - 1))"
      by (rule disjunctive_diff_eq_and_not) (simp add: bit_eq_iff bit_simps)
    also have "\<dots> = w AND NOT (2 ^ k - 1)"
      by (auto simp: bit_eq_iff bit_simps)
    finally show ?thesis by simp
  qed
  have "w AND (2 ^ k - 1) \<le> w" by (rule word_and_le2)
  then have "unat (w - (w AND (2 ^ k - 1))) = unat w - unat (w AND (2 ^ k - 1))" by (rule unat_sub)
  then show ?thesis by (simp only: eq unat_and_mask)
qed

lemma trailing_zeros_le: "trailing_zeros w \<le> LENGTH('a)" for w :: "'a::len word"
  unfolding trailing_zeros_def by (rule order_trans[OF length_takeWhile_le]) simp

lemma trailing_zeros_bits: "n < trailing_zeros w \<Longrightarrow> \<not> bit w n"
  for w :: "'a::len word"
proof -
  assume "n < trailing_zeros w"
  then have n: "n < length (takeWhile (\<lambda>n. \<not> bit w n) [0..<LENGTH('a)])"
    by (simp add: trailing_zeros_def)
  then have "takeWhile (\<lambda>n. \<not> bit w n) [0..<LENGTH('a)] ! n = n"
    by (metis add_0 length_takeWhile_le less_le_trans nth_upt takeWhile_nth length_upt minus_nat.diff_0)
  with n show ?thesis using nth_mem set_takeWhileD by metis
qed

lemma trailing_zeros_bit: "w \<noteq> 0 \<Longrightarrow> bit w (trailing_zeros w) \<and> trailing_zeros w < LENGTH('a)"
  for w :: "'a::len word"
proof -
  assume "w \<noteq> 0"
  then obtain n where n: "bit w n" by (auto simp: bit_eq_iff)
  then have "n < LENGTH('a)" by (rule bit_imp_le_length)
  have "\<not> n < trailing_zeros w" using n trailing_zeros_bits by blast
  with \<open>n < LENGTH('a)\<close> have lt: "trailing_zeros w < LENGTH('a)" by simp
  then have "length (takeWhile (\<lambda>n. \<not> bit w n) [0..<LENGTH('a)]) < length [0..<LENGTH('a)]"
    by (simp add: trailing_zeros_def)
  from nth_length_takeWhile[OF this] lt show ?thesis
    by (simp add: trailing_zeros_def)
qed

text \<open>The lowest set bit of \<open>x\<close> is \<open>x AND - x\<close>, and \<open>(x AND - x) - 1\<close> masks the bits below it.\<close>

lemma int_lowest_bit:
  "bit x k \<Longrightarrow> (\<forall>j<k. \<not> bit x j) \<Longrightarrow> x AND - x = 2 ^ k" for x :: int
proof (induction k arbitrary: x)
  case 0
  then obtain y where y: "x = 2 * y + 1" by (auto simp: bit_0 elim: oddE)
  have "- x = 2 * (NOT y) + 1" by (simp add: y not_int_def)
  moreover have "(bit x n \<and> bit (2 * (NOT y) + 1) n) = bit (1 :: int) n" for n
    by (cases n) (auto simp: y bit_0 bit_Suc bit_not_iff)
  ultimately show ?case by (simp add: bit_eq_iff bit_and_iff)
next
  case (Suc k)
  then have "even x" by (auto simp: bit_0)
  then obtain y where y: "x = 2 * y" by (auto elim: evenE)
  then have "bit y k" "\<forall>j<k. \<not> bit y j"
    using Suc.prems by (auto simp: bit_double_iff bit_Suc)
  then have "y AND - y = 2 ^ k" by (rule Suc.IH)
  moreover have "x AND - x = 2 * (y AND - y)"
  proof -
    have "2 * y AND 2 * z = 2 * (y AND z)" for z :: int
      by (auto simp: bit_eq_iff bit_and_iff bit_double_iff)
    from this[of "- y"] show ?thesis by (simp add: y)
  qed
  ultimately show ?case by simp
qed

lemma word_lowest_bit:
  fixes w :: "'a::len word"
  assumes "w \<noteq> 0"
  shows "w AND - w = 2 ^ trailing_zeros w"
proof -
  let ?k = "trailing_zeros w"
  have k: "bit w ?k" "?k < LENGTH('a)" using trailing_zeros_bit[OF assms] by auto
  then have "bit (uint w) ?k" "\<forall>j<?k. \<not> bit (uint w) j"
    using trailing_zeros_bits[of _ w] by (auto simp: bit_uint_iff)
  then have "uint w AND - uint w = 2 ^ ?k" by (rule int_lowest_bit)
  then have "word_of_int (uint w AND - uint w) = (2 ^ ?k :: 'a word)" by simp
  moreover have "word_of_int (uint w AND - uint w) = w AND - w"
    by (simp add: of_int_and_eq)
  ultimately show ?thesis by simp
qed

lemma bit_lowest_mask:
  "bit ((w AND - w) - 1) i \<longleftrightarrow> i < LENGTH('a) \<and> (\<forall>j\<le>i. \<not> bit w j)" for w :: "'a::len word"
proof (cases "w = 0")
  case True
  then show ?thesis by simp
next
  case False
  let ?k = "trailing_zeros w"
  have "(w AND - w) - 1 = mask ?k"
    by (simp add: word_lowest_bit[OF False] mask_eq_exp_minus_1)
  moreover have "bit w ?k" "?k < LENGTH('a)" using trailing_zeros_bit[OF False] by auto
  moreover have "i < ?k \<longleftrightarrow> (\<forall>j\<le>i. \<not> bit w j)"
  proof
    show "i < ?k \<Longrightarrow> \<forall>j\<le>i. \<not> bit w j" by (simp add: trailing_zeros_bits)
    show "\<forall>j\<le>i. \<not> bit w j \<Longrightarrow> i < ?k" using \<open>bit w ?k\<close> by (rule_tac ccontr) simp
  qed
  ultimately show ?thesis by (simp add: bit_mask_iff)
qed

lemma unat_ucast_up:
  "LENGTH('a) \<le> LENGTH('b) \<Longrightarrow> unat (ucast w :: 'b::len word) = unat w" for w :: "'a::len word"
proof -
  assume le: "LENGTH('a) \<le> LENGTH('b)"
  have "unat w < 2 ^ LENGTH('a)" by (rule unsigned_less)
  also have "\<dots> \<le> 2 ^ LENGTH('b)" using le by simp
  finally show ?thesis by (simp add: unsigned_ucast_eq take_bit_nat_eq_self)
qed

subsection \<open>Bit fields and loops: facts\<close>

lemma bit_get_field: "bit (get_field lo n w) i \<longleftrightarrow> i < n \<and> bit w (lo + i)"
  by (simp add: get_field_def bit_take_bit_iff bit_drop_bit_eq)

lemma bit_set_field:
  "bit (set_field lo n v w) i \<longleftrightarrow>
     (if lo \<le> i \<and> i < lo + n then i < LENGTH('a) \<and> bit v (i - lo) else bit w i)"
  for w :: "'a::len word"
  by (auto simp: set_field_def bit_simps dest: bit_imp_le_length)

lemma bit_put_bit: "bit (put_bit k b w) i \<longleftrightarrow> (if i = k then b \<and> k < LENGTH('a) else bit w i)"
  for w :: "'a::len word"
  by (auto simp: put_bit_def bit_or_iff bit_and_iff bit_not_iff bit_exp_iff dest: bit_imp_le_length)

lemma for_each_append: "for_each f (is @ js) s = for_each f is s \<bind> for_each f js"
proof (induction "is" arbitrary: s)
  case (Cons i "is")
  then show ?case by (cases "f i s") auto
qed simp

lemma for_each_inv:
  assumes "P s" and "\<And>i s. i \<in> set is \<Longrightarrow> P s \<Longrightarrow> \<exists>t. f i s = Some t \<and> P t"
  shows "\<exists>t. for_each f is s = Some t \<and> P t"
  using assms
proof (induction "is" arbitrary: s)
  case Nil
  then show ?case by simp
next
  case (Cons i "is")
  then obtain t where "f i s = Some t" "P t" by fastforce
  with Cons show ?case by simp
qed

subsection \<open>Byte strings and slices\<close>

lemma length_le_bytes [simp]: "length (le_bytes n w) = n"
  by (induction n arbitrary: w) auto

lemma of_le_bytes_le_bytes: "of_le_bytes (le_bytes n w) = take_bit (8 * n) w"
  for w :: "'a::len word"
proof (induction n arbitrary: w)
  case 0 show ?case by simp
next
  case (Suc n)
  show ?case
    by (rule bit_word_eqI) (auto simp: Suc bit_simps not_le less_diff_conv2)
qed

lemma length_splice [simp]: "off + length bs \<le> length xs \<Longrightarrow> length (splice off bs xs) = length xs"
  by (simp add: splice_def)

lemma length_slice [simp]: "off + n \<le> length xs \<Longrightarrow> length (slice off n xs) = n"
  by (simp add: slice_def)

lemma nth_slice: "i < n \<Longrightarrow> off + n \<le> length xs \<Longrightarrow> slice off n xs ! i = xs ! (off + i)"
  by (simp add: slice_def)

lemma nth_splice:
  "off + length bs \<le> length xs \<Longrightarrow> i < length xs \<Longrightarrow>
   splice off bs xs ! i = (if off \<le> i \<and> i < off + length bs then bs ! (i - off) else xs ! i)"
  by (auto simp: splice_def nth_append min_def not_less)

lemma slice_splice_same: "off + length bs \<le> length xs \<Longrightarrow> slice off (length bs) (splice off bs xs) = bs"
  by (simp add: slice_def splice_def)

lemma take_splice:
  "off + length bs \<le> length xs \<Longrightarrow> k \<le> length bs \<Longrightarrow>
   take (off + k) (splice off bs xs) = take off xs @ take k bs"
  by (simp add: splice_def)

lemma div_ceil_le_iff: "0 < b \<Longrightarrow> div_ceil a b \<le> n \<longleftrightarrow> a \<le> n * b"
proof -
  assume b: "0 < b"
  show ?thesis
  proof (cases "a mod b = 0")
    case True
    then obtain k where "a = b * k" by blast
    with b show ?thesis by (simp add: div_ceil_def)
  next
    case False
    then have "a \<noteq> n * b" by auto
    moreover have "a div b < n \<longleftrightarrow> a < n * b" using b by (rule div_less_iff_less_mult)
    ultimately show ?thesis using False by (auto simp: div_ceil_def)
  qed
qed

lemma div_ceil_add_mult: "0 < b \<Longrightarrow> div_ceil (k * b + x) b = k + div_ceil x b"
  by (simp add: div_ceil_def)

lemma div_ceil_alt: "0 < b \<Longrightarrow> div_ceil a b = (a + (b - 1)) div b"
proof (rule antisym)
  assume b: "0 < b"
  have "a \<le> (a + (b - 1)) div b * b"
    using b div_mult_mod_eq[of "a + (b - 1)" b] mod_less_divisor[OF b, of "a + (b - 1)"] by linarith
  with b show "div_ceil a b \<le> (a + (b - 1)) div b" by (simp add: div_ceil_le_iff)
  have "a \<le> div_ceil a b * b" using b by (simp flip: div_ceil_le_iff)
  then have "a + (b - 1) < (div_ceil a b + 1) * b" using b by simp
  then show "(a + (b - 1)) div b \<le> div_ceil a b"
    using b by (simp add: div_less_iff_less_mult flip: less_Suc_eq_le)
qed

lemma upt_eq_map: "(\<And>i. i < n \<Longrightarrow> f (s + i) = a + i) \<Longrightarrow> [a..<a + n] = map f [s..<s + n]"
  by (simp add: list_eq_iff_nth_eq)

lemma upt_split: "a \<le> b \<Longrightarrow> b \<le> c \<Longrightarrow> [a..<c] = [a..<b] @ [b..<c]"
  using upt_add_eq_append[of a b "c - b"] by simp

lemma len64: "2 ^ LENGTH(64) = (18446744073709551616 :: nat)"
  by simp

lemma add_of_nat:
  fixes a :: "'a::len word"
  assumes "unat a + k < 2 ^ LENGTH('a)"
  shows "add_ck a (of_nat k) = Some (a + of_nat k)" "unat (a + of_nat k) = unat a + k"
proof -
  have "unat (of_nat k :: 'a word) = k" using assms by (simp add: unat_of_nat)
  then show "add_ck a (of_nat k) = Some (a + of_nat k)" "unat (a + of_nat k) = unat a + k"
    using assms by (simp_all add: add_ck_def unat_word_ariths)
qed

lemma leading_zeros_le: "leading_zeros w \<le> LENGTH('a)" for w :: "'a::len word"
  unfolding leading_zeros_def by (rule order_trans[OF length_takeWhile_le]) simp

lemma leading_zeros_bits:
  fixes w :: "'a::len word"
  assumes "LENGTH('a) - leading_zeros w \<le> n"
  shows "\<not> bit w n"
proof (cases "n < LENGTH('a)")
  case True
  let ?P = "\<lambda>n. \<not> bit w (LENGTH('a) - 1 - n)"
  let ?k = "LENGTH('a) - 1 - n"
  have k: "?k < leading_zeros w" using assms True by simp
  then have "?k < length (takeWhile ?P [0..<LENGTH('a)])" by (simp add: leading_zeros_def)
  then have "?P ([0..<LENGTH('a)] ! ?k)" by (metis nth_mem set_takeWhileD takeWhile_nth)
  then show ?thesis using True by simp
qed (metis bit_imp_le_length)

lemma leading_zeros_bit:
  fixes w :: "'a::len word"
  assumes "w \<noteq> 0"
  shows "leading_zeros w < LENGTH('a)" "bit w (LENGTH('a) - 1 - leading_zeros w)"
proof -
  let ?P = "\<lambda>n. \<not> bit w (LENGTH('a) - 1 - n)"
  from assms obtain n where n: "bit w n" by (auto simp: bit_eq_iff)
  then have lt: "n < LENGTH('a)" by (rule bit_imp_le_length)
  have "\<not> LENGTH('a) - leading_zeros w \<le> n" using leading_zeros_bits n by blast
  then show l: "leading_zeros w < LENGTH('a)" using leading_zeros_le[of w] lt by simp
  have "\<not> ?P ([0..<LENGTH('a)] ! length (takeWhile ?P [0..<LENGTH('a)]))"
    by (rule nth_length_takeWhile) (use l in \<open>simp add: leading_zeros_def\<close>)
  then show "bit w (LENGTH('a) - 1 - leading_zeros w)" using l by (simp add: leading_zeros_def)
qed

lemma nth_list_update': "xs[i := x] ! j = (if i = j \<and> j < length xs then x else xs ! j)"
  by (cases "i < length xs") (auto simp: nth_list_update list_update_beyond)

subsection \<open>Results that are not a panic\<close>

text \<open>\<open>returns r P\<close>: the computation does not panic, and its result satisfies \<open>P\<close>.\<close>

definition returns :: "'a option \<Rightarrow> ('a \<Rightarrow> bool) \<Rightarrow> bool" where
  "returns r P = (case r of None \<Rightarrow> False | Some x \<Rightarrow> P x)"

lemma returns_Some [simp]: "returns (Some x) P = P x"
  by (simp add: returns_def)

lemma returns_None [simp]: "returns None P = False"
  by (simp add: returns_def)

lemma returns_bind [simp]: "returns (r \<bind> f) P = returns r (\<lambda>x. returns (f x) P)"
  by (simp add: returns_def split: option.split)

lemma returns_assert [simp]: "returns (assert_that b) P = (b \<and> P ())"
  by (simp add: assert_that_def)

lemma returns_mono: "returns r P \<Longrightarrow> (\<And>x. P x \<Longrightarrow> Q x) \<Longrightarrow> returns r Q"
  by (auto simp: returns_def split: option.splits)

lemma returns_bindI: "returns r P \<Longrightarrow> (\<And>x. P x \<Longrightarrow> returns (f x) Q) \<Longrightarrow> returns (r \<bind> f) Q"
  by (simp add: returns_mono)

lemma returns_ifI: "(b \<Longrightarrow> returns x P) \<Longrightarrow> (\<not> b \<Longrightarrow> returns y P) \<Longrightarrow> returns (if b then x else y) P"
  by simp

lemma returns_iff: "returns r P \<longleftrightarrow> (\<exists>x. r = Some x \<and> P x)"
  by (auto simp: returns_def split: option.splits)

subsection \<open>Runs of a state machine\<close>

text \<open>
  \<open>run_steps\<close> applies a sequence of operations and stops at the first panic. The interface
  \<open>invariant_machine\<close> is the contract of a component whose operations keep an invariant and
  do not panic on the operations its environment is allowed to issue.
\<close>

fun run_steps :: "('s \<Rightarrow> 'e \<Rightarrow> 's option) \<Rightarrow> 's \<Rightarrow> 'e list \<Rightarrow> 's option" where
  "run_steps step s [] = Some s"
| "run_steps step s (e # es) = step s e \<bind> (\<lambda>t. run_steps step t es)"

locale invariant_machine =
  fixes step :: "'s \<Rightarrow> 'e \<Rightarrow> 's option"
    and allowed :: "'e \<Rightarrow> bool"
    and inv :: "'s \<Rightarrow> bool"
  assumes step_inv: "inv s \<Longrightarrow> allowed e \<Longrightarrow> \<exists>t. step s e = Some t \<and> inv t"
begin

lemma run_inv: "inv s \<Longrightarrow> list_all allowed es \<Longrightarrow> \<exists>t. run_steps step s es = Some t \<and> inv t"
proof (induction es arbitrary: s)
  case Nil
  then show ?case by simp
next
  case (Cons e es)
  then obtain t where "step s e = Some t" "inv t"
    using step_inv by fastforce
  with Cons show ?case by simp
qed

end

subsection \<open>Saving and restoring a device\<close>

text \<open>
  The contract of the \<open>SaveRestore\<close> trait: on every device state that satisfies the
  invariant, restoring what \<open>save\<close> returned succeeds on every compatible device, the restored
  device satisfies the invariant and saves to the same state, and it can be migrated further to
  every device the original could be migrated to. \<open>migrate\<close> is a chain of migrations.
\<close>

fun migrate ::
  "('s \<Rightarrow> 'saved) \<Rightarrow> ('s \<Rightarrow> 'saved \<Rightarrow> ('s \<times> ('err + unit)) option) \<Rightarrow> 's \<Rightarrow> 's list \<Rightarrow> 's option" where
  "migrate save restore s [] = Some s"
| "migrate save restore s (t # ts) =
     (case restore t (save s) of
        Some (t', Inr _) \<Rightarrow> migrate save restore t' ts
      | _ \<Rightarrow> None)"

locale save_restore =
  fixes save :: "'s \<Rightarrow> 'saved"
    and restore :: "'s \<Rightarrow> 'saved \<Rightarrow> ('s \<times> ('err + unit)) option"
    and inv :: "'s \<Rightarrow> bool"
    and compatible :: "'s \<Rightarrow> 's \<Rightarrow> bool"
  assumes restore_save: "inv s \<Longrightarrow> compatible s t \<Longrightarrow>
      \<exists>t'. restore t (save s) = Some (t', Inr ()) \<and> save t' = save s \<and> inv t' \<and>
        (\<forall>u. compatible s u \<longrightarrow> compatible t' u)"
begin

text \<open>Any chain of migrations through compatible devices succeeds and keeps the saved state.\<close>

lemma migrate_chain:
  assumes "inv s" and "\<And>t. t \<in> set ts \<Longrightarrow> compatible s t"
  shows "\<exists>u. migrate save restore s ts = Some u \<and> save u = save s \<and> inv u"
  using assms
proof (induction ts arbitrary: s)
  case Nil
  then show ?case by simp
next
  case (Cons t ts)
  obtain t' where t': "restore t (save s) = Some (t', Inr ())" "save t' = save s" "inv t'"
      "\<forall>u. compatible s u \<longrightarrow> compatible t' u"
    using restore_save[OF Cons.prems(1), of t] Cons.prems(2)[of t] by auto
  obtain u where "migrate save restore t' ts = Some u \<and> save u = save t' \<and> inv u"
    using Cons.IH[OF t'(3)] t'(4) Cons.prems(2) by auto
  with t' show ?case by simp
qed

end

subsection \<open>Refinement\<close>

text \<open>
  The contract between a component and its specification: from related states, every operation of
  the component succeeds, produces an output that matches the output of the specification, and
  leads to related states again. \<open>run_outputs\<close> and \<open>run_spec\<close> run a sequence of operations.
\<close>

fun run_outputs :: "('c \<Rightarrow> 'e \<Rightarrow> ('c \<times> 'o) option) \<Rightarrow> 'c \<Rightarrow> 'e list \<Rightarrow> ('c \<times> 'o list) option" where
  "run_outputs cstep c [] = Some (c, [])"
| "run_outputs cstep c (e # es) = do {
     (c, out) \<leftarrow> cstep c e;
     (c, outs) \<leftarrow> run_outputs cstep c es;
     Some (c, out # outs)
   }"

fun run_spec :: "('a \<Rightarrow> 'e \<Rightarrow> 'a \<times> 'p) \<Rightarrow> 'a \<Rightarrow> 'e list \<Rightarrow> 'a \<times> 'p list" where
  "run_spec astep a [] = (a, [])"
| "run_spec astep a (e # es) =
     (let (a, out) = astep a e; (a, outs) = run_spec astep a es in (a, out # outs))"

locale forward_simulation =
  fixes cstep :: "'c \<Rightarrow> 'e \<Rightarrow> ('c \<times> 'o) option"
    and astep :: "'a \<Rightarrow> 'e \<Rightarrow> 'a \<times> 'p"
    and allowed :: "'e \<Rightarrow> bool"
    and rel :: "'c \<Rightarrow> 'a \<Rightarrow> bool"
    and matches :: "'p \<Rightarrow> 'o \<Rightarrow> bool"
  assumes sim: "rel c a \<Longrightarrow> allowed e \<Longrightarrow>
      \<exists>c' out. cstep c e = Some (c', out) \<and> rel c' (fst (astep a e)) \<and> matches (snd (astep a e)) out"
begin

lemma run_sim:
  "rel c a \<Longrightarrow> list_all allowed es \<Longrightarrow>
   \<exists>c' outs. run_outputs cstep c es = Some (c', outs) \<and> rel c' (fst (run_spec astep a es)) \<and>
     list_all2 matches (snd (run_spec astep a es)) outs"
proof (induction es arbitrary: c a)
  case Nil
  then show ?case by simp
next
  case (Cons e es)
  then obtain c' out where s: "cstep c e = Some (c', out)" "rel c' (fst (astep a e))" "matches (snd (astep a e)) out"
    using sim by fastforce
  with Cons obtain c'' outs where "run_outputs cstep c' es = Some (c'', outs)"
      "rel c'' (fst (run_spec astep (fst (astep a e)) es))"
      "list_all2 matches (snd (run_spec astep (fst (astep a e)) es)) outs"
    by fastforce
  with s show ?case by (simp add: case_prod_beta)
qed

end

end
