(* ===== verification/MemoryRange.thy ===== *)
theory MemoryRange
  imports Prelude
begin

text \<open>
  The crate \<open>vm/vmcore/memory_range\<close>: page-aligned guest address ranges and the algorithms
  over sorted sequences of them. An iterator is its state record, a \<open>next\<close> function and the
  function that runs it to exhaustion; a panic (\<open>None\<close>) of \<open>next\<close> is a panic of the whole run.
  The lemmas give each algorithm a set semantics: the addresses its output covers and the
  order of its output.
\<close>

subsection \<open>Ranges\<close>

definition PAGE_SIZE :: u64 where "PAGE_SIZE = 4096"
definition TWO_MB :: u64 where "TWO_MB = 0x200000"
definition ONE_GB :: u64 where "ONE_GB = 0x40000000"

record memory_range =
  mr_start :: u64
  mr_end :: u64

definition MAX_ADDRESS :: u64 where
  "MAX_ADDRESS = NOT (PAGE_SIZE - 1)"

definition mr_new :: "u64 \<Rightarrow> u64 \<Rightarrow> memory_range option" where
  "mr_new s e = do {
     assert_that (s AND (PAGE_SIZE - 1) = 0);
     assert_that (e AND (PAGE_SIZE - 1) = 0);
     assert_that (s \<le> e);
     Some \<lparr>mr_start = s, mr_end = e\<rparr>
   }"

record invalid_memory_range =
  inv_start :: u64
  inv_end :: u64

definition mr_try_new :: "u64 \<Rightarrow> u64 \<Rightarrow> invalid_memory_range + memory_range" where
  "mr_try_new s e =
     (if s AND (PAGE_SIZE - 1) \<noteq> 0 \<or> e AND (PAGE_SIZE - 1) \<noteq> 0 \<or> s > e
      then Inl \<lparr>inv_start = s, inv_end = e\<rparr>
      else Inr \<lparr>mr_start = s, mr_end = e\<rparr>)"

definition mr_bounding_aligned :: "u64 \<Rightarrow> u64 \<Rightarrow> u64 \<Rightarrow> memory_range option" where
  "mr_bounding_aligned s e alignment = do {
     assert_that (s \<le> e);
     assert_that (is_power_of_two alignment);
     assert_that (e \<le> - 1 - (alignment - 1));
     let start = s AND NOT (alignment - 1);
     sum \<leftarrow> add_ck e (alignment - 1);
     mr_new start (sum AND NOT (alignment - 1))
   }"

definition mr_bounding :: "u64 \<Rightarrow> u64 \<Rightarrow> memory_range option" where
  "mr_bounding s e = mr_bounding_aligned s e PAGE_SIZE"

definition mr_from_4k_gpn_range :: "u64 \<Rightarrow> u64 \<Rightarrow> memory_range option" where
  "mr_from_4k_gpn_range s e = do {
     assert_that (s \<le> - 1 div PAGE_SIZE);
     assert_that (e \<le> - 1 div PAGE_SIZE);
     s' \<leftarrow> mul_ck s PAGE_SIZE;
     e' \<leftarrow> mul_ck e PAGE_SIZE;
     mr_new s' e'
   }"

definition mr_EMPTY :: memory_range where
  "mr_EMPTY = \<lparr>mr_start = 0, mr_end = 0\<rparr>"

definition mr_start_4k_gpn :: "memory_range \<Rightarrow> u64" where
  "mr_start_4k_gpn r = mr_start r div PAGE_SIZE"

definition mr_end_4k_gpn :: "memory_range \<Rightarrow> u64" where
  "mr_end_4k_gpn r = mr_end r div PAGE_SIZE"

definition mr_page_count_4k :: "memory_range \<Rightarrow> u64 option" where
  "mr_page_count_4k r = do { n \<leftarrow> sub_ck (mr_end r) (mr_start r); Some (n div PAGE_SIZE) }"

definition mr_page_count_2m :: "memory_range \<Rightarrow> u64 option" where
  "mr_page_count_2m r = do {
     n \<leftarrow> sub_ck (mr_end r) (mr_start r);
     Some (n div TWO_MB + (if n mod TWO_MB = 0 then 0 else 1))
   }"

definition mr_len :: "memory_range \<Rightarrow> u64 option" where
  "mr_len r = sub_ck (mr_end r) (mr_start r)"

definition mr_is_empty :: "memory_range \<Rightarrow> bool" where
  "mr_is_empty r = (mr_start r = mr_end r)"

definition mr_alignment :: "memory_range \<Rightarrow> u64 \<Rightarrow> u64 option" where
  "mr_alignment r base = do {
     s \<leftarrow> add_ck base (mr_start r);
     e \<leftarrow> add_ck base (mr_end r);
     let order = trailing_zeros (s OR e);
     assert_that (order < 64);
     Some (push_bit order 1)
   }"

definition mr_aligned_subrange :: "memory_range \<Rightarrow> u64 \<Rightarrow> memory_range option" where
  "mr_aligned_subrange r alignment = do {
     assert_that (is_power_of_two alignment);
     sum \<leftarrow> add_ck (mr_start r) alignment;
     sum' \<leftarrow> sub_ck sum 1;
     let start = sum' AND NOT (alignment - 1);
     let end' = mr_end r AND NOT (alignment - 1);
     (if start \<le> end' then mr_new start end' else Some mr_EMPTY)
   }"

definition mr_overlaps :: "memory_range \<Rightarrow> memory_range \<Rightarrow> bool" where
  "mr_overlaps r q = (mr_end r > mr_start q \<and> mr_start r < mr_end q)"

definition mr_contains :: "memory_range \<Rightarrow> memory_range \<Rightarrow> bool" where
  "mr_contains r q = (mr_start r \<le> mr_start q \<and> mr_end r \<ge> mr_end q)"

definition mr_contains_addr :: "memory_range \<Rightarrow> u64 \<Rightarrow> bool" where
  "mr_contains_addr r a = (mr_start r \<le> a \<and> a < mr_end r)"

definition mr_offset_of :: "memory_range \<Rightarrow> u64 \<Rightarrow> u64 option" where
  "mr_offset_of r a = (if mr_contains_addr r a then Some (a - mr_start r) else None)"

definition mr_intersection :: "memory_range \<Rightarrow> memory_range \<Rightarrow> memory_range option" where
  "mr_intersection r q =
     (let s = max (mr_start r) (mr_start q); e = min (mr_end r) (mr_end q)
      in if s \<le> e then mr_new s e else Some mr_EMPTY)"

definition mr_split_at_offset :: "memory_range \<Rightarrow> u64 \<Rightarrow> (memory_range \<times> memory_range) option" where
  "mr_split_at_offset r off = do {
     l \<leftarrow> mr_len r;
     assert_that (off \<le> l);
     assert_that (off mod PAGE_SIZE = 0);
     m \<leftarrow> add_ck (mr_start r) off;
     Some (\<lparr>mr_start = mr_start r, mr_end = m\<rparr>, \<lparr>mr_start = m, mr_end = mr_end r\<rparr>)
   }"

subsection \<open>Aligned subranges\<close>

record aligned_subranges =
  as_range :: memory_range
  as_offset :: u64
  as_max_len :: u64

definition aligned_subranges_new :: "memory_range \<Rightarrow> aligned_subranges" where
  "aligned_subranges_new r = \<lparr>as_range = r, as_offset = 0, as_max_len = - 1\<rparr>"

definition with_offset :: "aligned_subranges \<Rightarrow> u64 \<Rightarrow> aligned_subranges" where
  "with_offset it off = it\<lparr>as_offset := off\<rparr>"

definition with_max_range_len :: "aligned_subranges \<Rightarrow> u64 \<Rightarrow> aligned_subranges" where
  "with_max_range_len it m = it\<lparr>as_max_len := m\<rparr>"

text \<open>The closure \<open>align\<close> of \<open>next\<close>: the new value of the captured \<open>end\<close>.\<close>

definition as_align :: "u64 \<Rightarrow> u64 \<Rightarrow> u64 \<Rightarrow> u64 option" where
  "as_align start page_size end' = do {
     let page_mask = page_size - 1;
     up \<leftarrow> add_ck start page_mask;
     (if up AND NOT page_mask \<ge> end' AND NOT page_mask then Some end'
      else if start AND page_mask \<noteq> 0 then Some (min end' (up AND NOT page_mask))
      else Some (end' AND NOT page_mask))
   }"

definition aligned_subranges_next ::
  "aligned_subranges \<Rightarrow> (aligned_subranges \<times> memory_range option) option" where
  "aligned_subranges_next it =
     (if mr_is_empty (as_range it) then Some (it, None)
      else do {
        start \<leftarrow> add_ck (mr_start (as_range it)) (as_offset it);
        end0 \<leftarrow> add_ck (mr_end (as_range it)) (as_offset it);
        len \<leftarrow> sub_ck end0 start;
        end1 \<leftarrow> (if len > as_max_len it then add_ck start (as_max_len it) else Some end0);
        end2 \<leftarrow> as_align start TWO_MB end1;
        end3 \<leftarrow> as_align start ONE_GB end2;
        start' \<leftarrow> sub_ck start (as_offset it);
        end' \<leftarrow> sub_ck end3 (as_offset it);
        rest \<leftarrow> mr_new end' (mr_end (as_range it));
        r \<leftarrow> mr_new start' end';
        Some (it\<lparr>as_range := rest\<rparr>, Some r)
      })"

text \<open>
  With \<open>max_len = 0\<close> the iterator yields empty ranges for ever, so its run is a partial
  function; \<open>aligned_subranges_run\<close> returns \<open>None\<close> when the run panics or does not end.
\<close>

partial_function (option) aligned_subranges_run ::
  "aligned_subranges \<Rightarrow> memory_range list option" where
  "aligned_subranges_run it =
     Option.bind (aligned_subranges_next it) (\<lambda>(it', item).
       case item of None \<Rightarrow> Some []
       | Some r \<Rightarrow> Option.bind (aligned_subranges_run it') (\<lambda>rs. Some (r # rs)))"

subsection \<open>Walking two sequences\<close>

datatype ('t, 'u) range_walk_result = Neither | Left 't | Right 'u | Both 't 'u

record 't peekable_sorted =
  ps_iter :: "(memory_range \<times> 't) list"
  ps_item :: "(memory_range \<times> 't) option option"

definition peekable_sorted_new :: "(memory_range \<times> 't) list \<Rightarrow> 't peekable_sorted" where
  "peekable_sorted_new rs = \<lparr>ps_iter = rs, ps_item = None\<rparr>"

function peek_in_range_ensure_sorted ::
  "u64 \<Rightarrow> 't peekable_sorted \<Rightarrow> ('t peekable_sorted \<times> (memory_range \<times> 't) option) option" where
  "peek_in_range_ensure_sorted pos p =
     (case ps_item p of
        None \<Rightarrow>
          (case ps_iter p of
             [] \<Rightarrow> Some (p\<lparr>ps_item := Some None\<rparr>, None)
           | r # rest \<Rightarrow>
               (if mr_start (fst r) \<ge> pos
                then peek_in_range_ensure_sorted pos (p\<lparr>ps_iter := rest, ps_item := Some (Some r)\<rparr>)
                else None))
      | Some None \<Rightarrow> Some (p, None)
      | Some (Some r) \<Rightarrow>
          (if \<not> mr_is_empty (fst r) \<and> mr_end (fst r) > pos then Some (p, Some r)
           else peek_in_range_ensure_sorted pos (p\<lparr>ps_item := None\<rparr>)))"
  by pat_completeness auto
termination
  by (relation "measure (\<lambda>(pos, p). 2 * length (ps_iter p) +
        (case ps_item p of Some (Some _) \<Rightarrow> 1 | _ \<Rightarrow> 0))") auto

record ('t, 'u) range_walk_iter =
  rw_pos :: u64
  rw_left :: "'t peekable_sorted"
  rw_right :: "'u peekable_sorted"

definition walk_step ::
  "u64 \<Rightarrow> (memory_range \<times> 't) option \<Rightarrow> (memory_range \<times> 'u) option \<Rightarrow> u64 \<times> ('t, 'u) range_walk_result" where
  "walk_step pos left right =
     (case (left, right) of
        (Some (l, t), Some (r, u)) \<Rightarrow>
          (if pos < mr_start l then
             (if pos < mr_start r then (min (mr_start l) (mr_start r), Neither)
              else (min (mr_start l) (mr_end r), Right u))
           else if pos < mr_start r then (min (mr_start r) (mr_end l), Left t)
           else (min (mr_end l) (mr_end r), Both t u))
      | (Some (l, t), None) \<Rightarrow>
          (if pos < mr_start l then (mr_start l, Neither) else (mr_end l, Left t))
      | (None, Some (r, u)) \<Rightarrow>
          (if pos < mr_start r then (mr_start r, Neither) else (mr_end r, Right u))
      | (None, None) \<Rightarrow> (MAX_ADDRESS, Neither))"

definition range_walk_next ::
  "('t, 'u) range_walk_iter \<Rightarrow>
     (('t, 'u) range_walk_iter \<times> (memory_range \<times> ('t, 'u) range_walk_result) option) option" where
  "range_walk_next w =
     (if rw_pos w = MAX_ADDRESS then Some (w, None)
      else do {
        (l', left) \<leftarrow> peek_in_range_ensure_sorted (rw_pos w) (rw_left w);
        (r', right) \<leftarrow> peek_in_range_ensure_sorted (rw_pos w) (rw_right w);
        let (end', c) = walk_step (rw_pos w) left right;
        r \<leftarrow> mr_new (rw_pos w) end';
        Some (\<lparr>rw_pos = end', rw_left = l', rw_right = r'\<rparr>, Some (r, c))
      })"

declare peek_in_range_ensure_sorted.simps [simp del]

lemma peek_in_range_end:
  "peek_in_range_ensure_sorted pos p = Some (p', Some r) \<Longrightarrow> pos < mr_end (fst r)"
proof (induction pos p rule: peek_in_range_ensure_sorted.induct)
  case (1 pos p)
  from "1.prems" show ?case
    by (subst (asm) peek_in_range_ensure_sorted.simps)
      (auto split: option.splits list.splits if_splits dest: "1.IH")
qed

lemma mr_new_eq_Some_iff:
  "mr_new s e = Some r \<longleftrightarrow>
     r = \<lparr>mr_start = s, mr_end = e\<rparr> \<and> s AND (PAGE_SIZE - 1) = 0 \<and> e AND (PAGE_SIZE - 1) = 0 \<and> s \<le> e"
  by (auto simp: mr_new_def)

lemma walk_step_progress:
  assumes "walk_step pos left right = (e, c)"
    and "\<And>r. left = Some r \<Longrightarrow> pos < mr_end (fst r)"
    and "\<And>r. right = Some r \<Longrightarrow> pos < mr_end (fst r)"
    and "left = None \<Longrightarrow> right = None \<Longrightarrow> pos < MAX_ADDRESS"
  shows "pos < e"
  using assms by (fastforce simp: walk_step_def split: option.splits prod.splits if_splits)

lemma range_walk_next_progress:
  assumes "range_walk_next w = Some (w', Some x)"
  shows "rw_pos w < rw_pos w'"
proof -
  from assms obtain l' left r' right e c where
    ne: "rw_pos w \<noteq> MAX_ADDRESS" and
    l: "peek_in_range_ensure_sorted (rw_pos w) (rw_left w) = Some (l', left)" and
    r: "peek_in_range_ensure_sorted (rw_pos w) (rw_right w) = Some (r', right)" and
    st: "walk_step (rw_pos w) left right = (e, c)" and
    new: "mr_new (rw_pos w) e \<noteq> None" and w': "rw_pos w' = e"
    by (auto simp: range_walk_next_def bind_eq_Some_conv Let_def case_prod_beta split: if_splits)
      (metis prod.collapse)
  from new have "rw_pos w \<le> e" by (auto simp: mr_new_def split: if_splits)
  moreover have "left = None \<Longrightarrow> right = None \<Longrightarrow> e = MAX_ADDRESS"
    using st by (simp add: walk_step_def)
  ultimately have "left = None \<Longrightarrow> right = None \<Longrightarrow> rw_pos w < MAX_ADDRESS"
    using ne by (simp add: order_less_le)
  with l r have "rw_pos w < e"
    by (intro walk_step_progress[OF st]) (auto dest: peek_in_range_end)
  then show ?thesis by (simp add: w')
qed

function range_walk_collect ::
  "('t, 'u) range_walk_iter \<Rightarrow> (memory_range \<times> ('t, 'u) range_walk_result) list option" where
  "range_walk_collect w =
     (case range_walk_next w of
        None \<Rightarrow> None
      | Some (w', None) \<Rightarrow> Some []
      | Some (w', Some x) \<Rightarrow> map_option (\<lambda>xs. x # xs) (range_walk_collect w'))"
  by pat_completeness auto
termination
proof (relation "measure (\<lambda>w. 2 ^ 64 - unat (rw_pos w))", goal_cases)
  case 1
  show ?case by simp
next
  case (2 w y w' item x)
  then have "rw_pos w < rw_pos w'" using range_walk_next_progress[of w w' x] by simp
  then have "unat (rw_pos w) < unat (rw_pos w')" by (simp add: word_less_nat_alt)
  moreover have "unat (rw_pos w') < 2 ^ 64" using unsigned_less[of "rw_pos w'"] by simp
  ultimately show ?case by simp
qed

declare range_walk_collect.simps [simp del]

definition walk_ranges ::
  "(memory_range \<times> 't) list \<Rightarrow> (memory_range \<times> 'u) list \<Rightarrow>
     (memory_range \<times> ('t, 'u) range_walk_result) list option" where
  "walk_ranges left right =
     range_walk_collect \<lparr>rw_pos = 0, rw_left = peekable_sorted_new left,
                         rw_right = peekable_sorted_new right\<rparr>"

definition overlapping_ranges ::
  "memory_range list \<Rightarrow> memory_range list \<Rightarrow> memory_range list option" where
  "overlapping_ranges left right = do {
     out \<leftarrow> walk_ranges (map (\<lambda>r. (r, ())) left) (map (\<lambda>r. (r, ())) right);
     Some (List.map_filter (\<lambda>(r, c). case c of Both _ _ \<Rightarrow> Some r | _ \<Rightarrow> None) out)
   }"

definition subtract_ranges ::
  "memory_range list \<Rightarrow> memory_range list \<Rightarrow> memory_range list option" where
  "subtract_ranges left right = do {
     out \<leftarrow> walk_ranges (map (\<lambda>r. (r, ())) left) (map (\<lambda>r. (r, ())) right);
     Some (List.map_filter (\<lambda>(r, c). case c of Left _ \<Rightarrow> Some r
                              | Neither \<Rightarrow> None | Right _ \<Rightarrow> None | Both _ _ \<Rightarrow> None) out)
   }"

subsection \<open>Flattening and merging\<close>

text \<open>The loop \<open>while let Some(r) = self.iter.next_if(..)\<close> of \<open>FlattenIter::next\<close>.\<close>

fun flatten_loop :: "u64 \<Rightarrow> u64 \<Rightarrow> memory_range list \<Rightarrow> (u64 \<times> memory_range list) option" where
  "flatten_loop start end' [] = Some (end', [])"
| "flatten_loop start end' (r # rs) =
     (if mr_start r \<ge> start then
        (if mr_start r \<le> end' then flatten_loop (mr_start r) (max end' (mr_end r)) rs
         else Some (end', r # rs))
      else None)"

definition flatten_next ::
  "memory_range list \<Rightarrow> (memory_range list \<times> memory_range option) option" where
  "flatten_next rs =
     (case rs of
        [] \<Rightarrow> Some ([], None)
      | first # rest \<Rightarrow> do {
          (end', rest') \<leftarrow> flatten_loop (mr_start first) (mr_end first) rest;
          r \<leftarrow> mr_new (mr_start first) end';
          Some (rest', Some r)
        })"

lemma flatten_loop_length:
  "flatten_loop s e rs = Some (e', rs') \<Longrightarrow> length rs' \<le> length rs"
  by (induction s e rs rule: flatten_loop.induct) (auto split: if_splits)

lemma flatten_next_length:
  "flatten_next rs = Some (rs', Some r) \<Longrightarrow> length rs' < length rs"
  by (auto simp: flatten_next_def bind_eq_Some_conv split: list.splits dest!: flatten_loop_length)

function flatten_ranges :: "memory_range list \<Rightarrow> memory_range list option" where
  "flatten_ranges rs =
     (case flatten_next rs of
        None \<Rightarrow> None
      | Some (rs', None) \<Rightarrow> Some []
      | Some (rs', Some r) \<Rightarrow> map_option (\<lambda>out. r # out) (flatten_ranges rs'))"
  by pat_completeness auto
termination
  by (relation "measure length") (auto dest: flatten_next_length)

declare flatten_ranges.simps [simp del]

fun merge_adjacent_loop ::
  "'t \<Rightarrow> u64 \<Rightarrow> u64 \<Rightarrow> (memory_range \<times> 't) list \<Rightarrow> (u64 \<times> (memory_range \<times> 't) list) option" where
  "merge_adjacent_loop ty start end' [] = Some (end', [])"
| "merge_adjacent_loop ty start end' ((r, t) # rs) =
     (if mr_start r \<ge> start \<and> mr_start r \<ge> end' then
        (if mr_start r = end' \<and> ty = t
         then merge_adjacent_loop ty (mr_start r) (max end' (mr_end r)) rs
         else Some (end', (r, t) # rs))
      else None)"

definition merge_adjacent_next ::
  "(memory_range \<times> 't) list \<Rightarrow> ((memory_range \<times> 't) list \<times> (memory_range \<times> 't) option) option" where
  "merge_adjacent_next rs =
     (case rs of
        [] \<Rightarrow> Some ([], None)
      | (first, ty) # rest \<Rightarrow> do {
          (end', rest') \<leftarrow> merge_adjacent_loop ty (mr_start first) (mr_end first) rest;
          r \<leftarrow> mr_new (mr_start first) end';
          Some (rest', Some (r, ty))
        })"

lemma merge_adjacent_loop_length:
  "merge_adjacent_loop ty s e rs = Some (e', rs') \<Longrightarrow> length rs' \<le> length rs"
  by (induction ty s e rs rule: merge_adjacent_loop.induct) (auto split: if_splits)

lemma merge_adjacent_next_length:
  "merge_adjacent_next rs = Some (rs', Some r) \<Longrightarrow> length rs' < length rs"
  by (auto simp: merge_adjacent_next_def bind_eq_Some_conv split: list.splits
      dest!: merge_adjacent_loop_length)

function merge_adjacent_ranges :: "(memory_range \<times> 't) list \<Rightarrow> (memory_range \<times> 't) list option" where
  "merge_adjacent_ranges rs =
     (case merge_adjacent_next rs of
        None \<Rightarrow> None
      | Some (rs', None) \<Rightarrow> Some []
      | Some (rs', Some r) \<Rightarrow> map_option (\<lambda>out. r # out) (merge_adjacent_ranges rs'))"
  by pat_completeness auto
termination
  by (relation "measure length") (auto dest: merge_adjacent_next_length)

declare merge_adjacent_ranges.simps [simp del]

subsection \<open>Semantics: well-formed ranges and what a sequence covers\<close>

definition mr_wf :: "memory_range \<Rightarrow> bool" where
  "mr_wf r \<longleftrightarrow> mr_start r AND (PAGE_SIZE - 1) = 0 \<and> mr_end r AND (PAGE_SIZE - 1) = 0 \<and> mr_start r \<le> mr_end r"

text \<open>Sequences sorted by address, without overlap, from \<open>pos\<close> on.\<close>

fun sorted_from :: "u64 \<Rightarrow> (memory_range \<times> 't) list \<Rightarrow> bool" where
  "sorted_from pos [] = True"
| "sorted_from pos ((r, t) # rs) = (mr_wf r \<and> pos \<le> mr_start r \<and> sorted_from (mr_end r) rs)"

text \<open>The element of a sequence that holds an address.\<close>

fun range_at :: "(memory_range \<times> 't) list \<Rightarrow> u64 \<Rightarrow> 't option" where
  "range_at [] a = None"
| "range_at ((r, t) # rs) a = (if mr_contains_addr r a then Some t else range_at rs a)"

fun walk_class :: "'t option \<Rightarrow> 'u option \<Rightarrow> ('t, 'u) range_walk_result" where
  "walk_class None None = Neither"
| "walk_class (Some t) None = Left t"
| "walk_class None (Some u) = Right u"
| "walk_class (Some t) (Some u) = Both t u"

text \<open>Consecutive non-empty ranges that fill the addresses from \<open>pos\<close> up to \<open>e\<close>.\<close>

fun tiles :: "u64 \<Rightarrow> (memory_range \<times> 'c) list \<Rightarrow> u64 \<Rightarrow> bool" where
  "tiles pos [] e = (pos = e)"
| "tiles pos ((r, c) # rs) e = (mr_wf r \<and> mr_start r = pos \<and> pos < mr_end r \<and> tiles (mr_end r) rs e)"

lemma mr_wf_new: "mr_wf \<lparr>mr_start = s, mr_end = e\<rparr> \<longleftrightarrow> mr_new s e = Some \<lparr>mr_start = s, mr_end = e\<rparr>"
  by (simp add: mr_wf_def mr_new_eq_Some_iff)

lemma sorted_from_mono: "sorted_from p rs \<Longrightarrow> q \<le> p \<Longrightarrow> sorted_from q rs"
  by (cases rs) auto

lemma range_at_before: "sorted_from p rs \<Longrightarrow> a < p \<Longrightarrow> range_at rs a = None"
proof (induction p rs rule: sorted_from.induct)
  case (2 p r t rs)
  have "\<not> mr_contains_addr r a" using 2 by (auto simp: mr_contains_addr_def)
  moreover have "a < mr_end r" using 2 by (auto simp: mr_wf_def)
  ultimately show ?case using 2 by simp
qed simp

definition ps_inv :: "u64 \<Rightarrow> 't peekable_sorted \<Rightarrow> bool" where
  "ps_inv pos p = (case ps_item p of
      None \<Rightarrow> sorted_from pos (ps_iter p)
    | Some None \<Rightarrow> ps_iter p = []
    | Some (Some r) \<Rightarrow> mr_wf (fst r) \<and> pos \<le> mr_end (fst r) \<and> sorted_from (mr_end (fst r)) (ps_iter p))"

definition ps_list :: "'t peekable_sorted \<Rightarrow> (memory_range \<times> 't) list" where
  "ps_list p = (case ps_item p of Some (Some r) \<Rightarrow> r # ps_iter p | _ \<Rightarrow> ps_iter p)"

text \<open>Peeking finds the first range that ends after \<open>pos\<close>, without a panic, and drops only
  ranges that hold no address from \<open>pos\<close> on.\<close>

lemma peek_correct:
  assumes "ps_inv pos p"
  obtains p' item where "peek_in_range_ensure_sorted pos p = Some (p', item)" "ps_inv pos p'"
    "\<forall>a\<ge>pos. range_at (ps_list p') a = range_at (ps_list p) a"
    "ps_item p' = Some item" "\<forall>r. item = Some r \<longrightarrow> pos < mr_end (fst r)"
  using assms
proof (induction pos p arbitrary: thesis rule: peek_in_range_ensure_sorted.induct)
  case (1 pos p)
  consider (stop) "ps_item p = Some None" | (empty) "ps_item p = None" "ps_iter p = []"
    | (fetch) r rest where "ps_item p = None" "ps_iter p = r # rest"
    | (hit) r where "ps_item p = Some (Some r)" "\<not> mr_is_empty (fst r) \<and> mr_end (fst r) > pos"
    | (skip) r where "ps_item p = Some (Some r)" "\<not> (\<not> mr_is_empty (fst r) \<and> mr_end (fst r) > pos)"
    by (metis list.exhaust not_None_eq)
  then show ?case
  proof cases
    case stop
    then show ?thesis using 1(3,4)
      by (intro 1(3)[of p None]) (simp_all add: peek_in_range_ensure_sorted.simps)
  next
    case empty
    then show ?thesis
      by (intro 1(3)[of "p\<lparr>ps_item := Some None\<rparr>" None])
        (simp_all add: peek_in_range_ensure_sorted.simps ps_inv_def ps_list_def)
  next
    case fetch
    let ?q = "p\<lparr>ps_iter := rest, ps_item := Some (Some r)\<rparr>"
    have ge: "mr_start (fst r) \<ge> pos" using 1(4) fetch by (cases r) (simp add: ps_inv_def)
    have inv: "ps_inv pos ?q" using 1(4) fetch
      by (cases r) (auto simp: ps_inv_def mr_wf_def)
    have list: "ps_list ?q = ps_list p" using fetch by (simp add: ps_list_def)
    have eq: "peek_in_range_ensure_sorted pos p = peek_in_range_ensure_sorted pos ?q"
      using fetch ge by (subst peek_in_range_ensure_sorted.simps) simp
    show ?thesis
      by (rule 1(1)[OF fetch ge _ inv]) (rule 1(3), simp_all add: eq list)
  next
    case hit
    then show ?thesis using 1(4)
      by (intro 1(3)[of p "Some r"]) (simp_all add: peek_in_range_ensure_sorted.simps)
  next
    case skip
    let ?q = "p\<lparr>ps_item := None\<rparr>"
    have inv: "ps_inv pos ?q" using 1(4) skip
      by (auto simp: ps_inv_def mr_is_empty_def mr_wf_def intro: sorted_from_mono)
    have list: "\<forall>a\<ge>pos. range_at (ps_list ?q) a = range_at (ps_list p) a"
      using skip by (cases r) (auto simp: ps_list_def mr_contains_addr_def mr_is_empty_def)
    have eq: "peek_in_range_ensure_sorted pos p = peek_in_range_ensure_sorted pos ?q"
      using skip by (subst peek_in_range_ensure_sorted.simps) auto
    show ?thesis
      by (rule 1(2)[OF skip(1) refl skip(2) _ inv]) (rule 1(3), simp_all add: eq list)
  qed
qed

lemma mr_wf_le_MAX: "mr_wf r \<Longrightarrow> mr_end r \<le> MAX_ADDRESS"
proof -
  assume "mr_wf r"
  then have "mr_end r AND (2 ^ 12 - 1) = 0" by (simp add: mr_wf_def PAGE_SIZE_def)
  then have "unat (mr_end r) mod 2 ^ 12 = 0" by (metis unat_and_mask unsigned_0)
  moreover have "unat (mr_end r) < 2 ^ 64" using unsigned_less[of "mr_end r"] by simp
  ultimately obtain k where "unat (mr_end r) = 2 ^ 12 * k" "2 ^ 12 * k < (2::nat) ^ 64"
    by (metis dvd_eq_mod_eq_0 dvdE)
  then have "unat (mr_end r) \<le> 2 ^ 64 - 2 ^ 12" by simp
  then show ?thesis by (simp add: MAX_ADDRESS_def PAGE_SIZE_def word_le_nat_alt)
qed

text \<open>One step from \<open>pos\<close> to \<open>e\<close>: the peeked elements classify every address in between.\<close>

lemma ps_inv_advance:
  assumes "ps_inv pos p" "ps_item p = Some item" "pos \<le> e"
    "\<And>r. item = Some r \<Longrightarrow> e \<le> mr_end (fst r)"
  shows "ps_inv e p"
  using assms by (cases item) (auto simp: ps_inv_def)

lemma range_at_item:
  assumes "ps_inv pos p" "ps_item p = Some item" "pos \<le> a" "a < e"
    "\<And>r. item = Some r \<Longrightarrow> e \<le> mr_end (fst r)"
    "\<And>r. item = Some r \<Longrightarrow> pos < mr_start (fst r) \<Longrightarrow> e \<le> mr_start (fst r)"
  shows "range_at (ps_list p) a =
    (case item of None \<Rightarrow> None | Some (r, t) \<Rightarrow> if pos < mr_start r then None else Some t)"
proof (cases item)
  case None
  then show ?thesis using assms(1,2) by (simp add: ps_inv_def ps_list_def)
next
  case (Some rt)
  obtain r t where rt: "rt = (r, t)" by (cases rt)
  have "range_at (ps_iter p) a = None"
    using assms Some rt by (intro range_at_before[of "mr_end r"]) (auto simp: ps_inv_def)
  then show ?thesis
    using assms(2-) Some rt by (force simp: ps_list_def mr_contains_addr_def)
qed

lemma walk_step_bounds:
  assumes "walk_step pos left right = (e, c)"
  shows "left = Some l \<Longrightarrow> mr_wf (fst l) \<Longrightarrow> e \<le> mr_end (fst l) \<and> (pos < mr_start (fst l) \<longrightarrow> e \<le> mr_start (fst l))"
    and "right = Some r \<Longrightarrow> mr_wf (fst r) \<Longrightarrow> e \<le> mr_end (fst r) \<and> (pos < mr_start (fst r) \<longrightarrow> e \<le> mr_start (fst r))"
    and "c = walk_class
       (case left of None \<Rightarrow> None | Some (r, t) \<Rightarrow> if pos < mr_start r then None else Some t)
       (case right of None \<Rightarrow> None | Some (r, t) \<Rightarrow> if pos < mr_start r then None else Some t)"
  using assms by (auto simp: walk_step_def mr_wf_def min_le_iff_disj split: option.splits prod.splits if_splits)

lemma MAX_ADDRESS_aligned: "MAX_ADDRESS AND (PAGE_SIZE - 1) = 0"
  by (simp add: MAX_ADDRESS_def)

lemma walk_step_aligned:
  assumes "walk_step pos left right = (e, c)"
    "\<And>r. left = Some r \<Longrightarrow> mr_wf (fst r)" "\<And>r. right = Some r \<Longrightarrow> mr_wf (fst r)"
  shows "e AND (PAGE_SIZE - 1) = 0"
  using assms
  by (auto simp: walk_step_def mr_wf_def min_def MAX_ADDRESS_aligned
      split: option.splits prod.splits if_splits)

lemma ps_inv_item_wf: "ps_inv pos p \<Longrightarrow> ps_item p = Some (Some r) \<Longrightarrow> mr_wf (fst r)"
  by (simp add: ps_inv_def)

lemma range_walk_next_correct:
  assumes inv: "ps_inv (rw_pos w) (rw_left w)" "ps_inv (rw_pos w) (rw_right w)"
    and pos: "rw_pos w < MAX_ADDRESS" "rw_pos w AND (PAGE_SIZE - 1) = 0"
  obtains w' r c where "range_walk_next w = Some (w', Some (r, c))"
    "mr_wf r" "mr_start r = rw_pos w" "mr_end r = rw_pos w'" "rw_pos w < rw_pos w'" "rw_pos w' \<le> MAX_ADDRESS"
    "ps_inv (rw_pos w') (rw_left w')" "ps_inv (rw_pos w') (rw_right w')"
    "\<forall>a\<ge>rw_pos w'. range_at (ps_list (rw_left w')) a = range_at (ps_list (rw_left w)) a"
    "\<forall>a\<ge>rw_pos w'. range_at (ps_list (rw_right w')) a = range_at (ps_list (rw_right w)) a"
    "\<forall>a. mr_contains_addr r a \<longrightarrow>
       c = walk_class (range_at (ps_list (rw_left w)) a) (range_at (ps_list (rw_right w)) a)"
proof -
  let ?pos = "rw_pos w"
  from peek_correct[OF inv(1)] obtain l' left where l: "peek_in_range_ensure_sorted ?pos (rw_left w) = Some (l', left)"
    "ps_inv ?pos l'" "\<forall>a\<ge>?pos. range_at (ps_list l') a = range_at (ps_list (rw_left w)) a"
    "ps_item l' = Some left" "\<forall>r. left = Some r \<longrightarrow> ?pos < mr_end (fst r)" .
  from peek_correct[OF inv(2)] obtain r' right where r: "peek_in_range_ensure_sorted ?pos (rw_right w) = Some (r', right)"
    "ps_inv ?pos r'" "\<forall>a\<ge>?pos. range_at (ps_list r') a = range_at (ps_list (rw_right w)) a"
    "ps_item r' = Some right" "\<forall>r. right = Some r \<longrightarrow> ?pos < mr_end (fst r)" .
  obtain e c where st: "walk_step ?pos left right = (e, c)" by fastforce
  have wf: "\<And>x. left = Some x \<Longrightarrow> mr_wf (fst x)" "\<And>x. right = Some x \<Longrightarrow> mr_wf (fst x)"
    using l(2,4) r(2,4) by (auto dest: ps_inv_item_wf)
  have lt: "?pos < e" using l(5) r(5) pos(1) by (intro walk_step_progress[OF st]) auto
  note wl = walk_step_bounds(1)[OF st _ wf(1)] and wr = walk_step_bounds(2)[OF st _ wf(2)]
  have ele: "\<And>x. left = Some x \<Longrightarrow> e \<le> mr_end (fst x)" "\<And>x. right = Some x \<Longrightarrow> e \<le> mr_end (fst x)"
    using wl wr by simp_all
  have est: "\<And>x. left = Some x \<Longrightarrow> ?pos < mr_start (fst x) \<Longrightarrow> e \<le> mr_start (fst x)"
    "\<And>x. right = Some x \<Longrightarrow> ?pos < mr_start (fst x) \<Longrightarrow> e \<le> mr_start (fst x)"
    using wl wr by simp_all
  have al: "e AND (PAGE_SIZE - 1) = 0" by (rule walk_step_aligned[OF st wf])
  let ?r = "\<lparr>mr_start = ?pos, mr_end = e\<rparr>" and ?w' = "\<lparr>rw_pos = e, rw_left = l', rw_right = r'\<rparr>"
  have new: "mr_new ?pos e = Some ?r" using al pos(2) lt by (simp add: mr_new_eq_Some_iff)
  have nx: "range_walk_next w = Some (?w', Some (?r, c))"
    using l(1) r(1) st new pos(1) by (simp add: range_walk_next_def)
  have wfr: "mr_wf ?r" using new by (simp add: mr_wf_new)
  have cls: "c = walk_class (range_at (ps_list (rw_left w)) a) (range_at (ps_list (rw_right w)) a)"
    if "mr_contains_addr ?r a" for a
  proof -
    from that have a: "?pos \<le> a" "a < e" by (simp_all add: mr_contains_addr_def)
    show ?thesis
      using range_at_item[OF l(2,4) a ele(1) est(1)] range_at_item[OF r(2,4) a ele(2) est(2)]
        l(3) r(3) a walk_step_bounds(3)[OF st] by simp
  qed
  show thesis
  proof (rule that[OF nx])
    show "ps_inv (rw_pos ?w') (rw_left ?w')" "ps_inv (rw_pos ?w') (rw_right ?w')"
      using ps_inv_advance[OF l(2,4) _ ele(1)] ps_inv_advance[OF r(2,4) _ ele(2)] lt by simp_all
    show "rw_pos ?w' \<le> MAX_ADDRESS" using mr_wf_le_MAX[OF wfr] by simp
    show "\<forall>a\<ge>rw_pos ?w'. range_at (ps_list (rw_left ?w')) a = range_at (ps_list (rw_left w)) a"
      "\<forall>a\<ge>rw_pos ?w'. range_at (ps_list (rw_right ?w')) a = range_at (ps_list (rw_right w)) a"
      using l(3) r(3) lt by simp_all
  qed (use wfr lt cls in simp_all)
qed

lemma range_walk_collect_correct:
  assumes "ps_inv (rw_pos w) (rw_left w)" "ps_inv (rw_pos w) (rw_right w)"
    and "rw_pos w \<le> MAX_ADDRESS" "rw_pos w AND (PAGE_SIZE - 1) = 0"
  shows "\<exists>out. range_walk_collect w = Some out \<and> tiles (rw_pos w) out MAX_ADDRESS \<and>
    (\<forall>r c a. (r, c) \<in> set out \<longrightarrow> mr_contains_addr r a \<longrightarrow> rw_pos w \<le> a \<and>
       c = walk_class (range_at (ps_list (rw_left w)) a) (range_at (ps_list (rw_right w)) a))"
  using assms
proof (induction w rule: range_walk_collect.induct)
  case (1 w)
  show ?case
  proof (cases "rw_pos w = MAX_ADDRESS")
    case True
    then have "range_walk_next w = Some (w, None)" by (simp add: range_walk_next_def)
    then have "range_walk_collect w = Some []" by (subst range_walk_collect.simps) simp
    then show ?thesis using True by simp
  next
    case False
    with "1.prems"(3) have "rw_pos w < MAX_ADDRESS" by simp
    from range_walk_next_correct[OF "1.prems"(1,2) this "1.prems"(4)]
    obtain w' r c where n: "range_walk_next w = Some (w', Some (r, c))"
      "mr_wf r" "mr_start r = rw_pos w" "mr_end r = rw_pos w'" "rw_pos w < rw_pos w'" "rw_pos w' \<le> MAX_ADDRESS"
      "ps_inv (rw_pos w') (rw_left w')" "ps_inv (rw_pos w') (rw_right w')"
      "\<forall>a\<ge>rw_pos w'. range_at (ps_list (rw_left w')) a = range_at (ps_list (rw_left w)) a"
      "\<forall>a\<ge>rw_pos w'. range_at (ps_list (rw_right w')) a = range_at (ps_list (rw_right w)) a"
      "\<forall>a. mr_contains_addr r a \<longrightarrow>
         c = walk_class (range_at (ps_list (rw_left w)) a) (range_at (ps_list (rw_right w)) a)" .
    have "rw_pos w' AND (PAGE_SIZE - 1) = 0" using n(2,4) by (simp add: mr_wf_def)
    note IH = "1.IH"[OF n(1) refl refl n(7,8,6) this]
    then obtain out where out: "range_walk_collect w' = Some out" "tiles (rw_pos w') out MAX_ADDRESS"
      "\<forall>r c a. (r, c) \<in> set out \<longrightarrow> mr_contains_addr r a \<longrightarrow> rw_pos w' \<le> a \<and>
       c = walk_class (range_at (ps_list (rw_left w')) a) (range_at (ps_list (rw_right w')) a)"
      by (elim exE conjE)
    have "range_walk_collect w = Some ((r, c) # out)"
      using n(1) out(1) by (subst range_walk_collect.simps) simp
    moreover have "tiles (rw_pos w) ((r, c) # out) MAX_ADDRESS" using n(2-5) out(2) by simp
    moreover have "rw_pos w \<le> a \<and>
       d = walk_class (range_at (ps_list (rw_left w)) a) (range_at (ps_list (rw_right w)) a)"
      if "(q, d) \<in> set ((r, c) # out)" "mr_contains_addr q a" for q d a
    proof (cases "(q, d) = (r, c)")
      case True
      then have "mr_contains_addr r a" "d = c" using that by simp_all
      moreover have "rw_pos w \<le> a" using \<open>mr_contains_addr r a\<close> n(3) by (simp add: mr_contains_addr_def)
      ultimately show ?thesis using n(11) by blast
    next
      case False
      with that have "(q, d) \<in> set out" by auto
      with that out(3) have le: "rw_pos w' \<le> a" and
        "d = walk_class (range_at (ps_list (rw_left w')) a) (range_at (ps_list (rw_right w')) a)"
        by blast+
      then show ?thesis using n(5) n(9)[rule_format, OF le] n(10)[rule_format, OF le] by simp
    qed
    ultimately show ?thesis by (intro exI[of _ "(r, c) # out"] conjI allI impI) simp_all
  qed
qed


definition covered :: "memory_range list \<Rightarrow> u64 set" where
  "covered rs = {a. \<exists>r \<in> set rs. mr_contains_addr r a}"

abbreviation untagged :: "memory_range list \<Rightarrow> (memory_range \<times> unit) list" where
  "untagged rs \<equiv> map (\<lambda>r. (r, ())) rs"

definition sorted_ranges :: "memory_range list \<Rightarrow> bool" where
  "sorted_ranges rs \<longleftrightarrow> sorted_from 0 (untagged rs)"

lemma range_at_untagged: "range_at (untagged rs) a = (if a \<in> covered rs then Some () else None)"
  by (induction rs) (auto simp: covered_def)

lemma tiles_cover: "tiles p out e \<Longrightarrow> p \<le> a \<Longrightarrow> a < e \<Longrightarrow> \<exists>r c. (r, c) \<in> set out \<and> mr_contains_addr r a"
proof (induction p out e rule: tiles.induct)
  case (2 p r c rs e)
  then show ?case by (cases "a < mr_end r") (auto simp: mr_contains_addr_def not_less)
qed simp

lemma tiles_sorted:
  assumes "tiles p out e" and "\<And>r c q. f (r, c) = Some q \<Longrightarrow> q = r"
  shows "sorted_from p (untagged (List.map_filter f out))"
  using assms(1)
proof (induction p out e rule: tiles.induct)
  case (2 p r c rs e)
  then have IH: "sorted_from (mr_end r) (untagged (List.map_filter f rs))" "p \<le> mr_end r" by auto
  then have "sorted_from p (untagged (List.map_filter f rs))" by (rule sorted_from_mono)
  then show ?case using 2 IH assms(2) by (auto simp: List.map_filter_simps split: option.splits)
qed (simp add: List.map_filter_simps)

lemma sorted_from_below_MAX: "sorted_from p (untagged rs) \<Longrightarrow> a \<in> covered rs \<Longrightarrow> a < MAX_ADDRESS"
proof (induction rs arbitrary: p)
  case (Cons r rs)
  then show ?case using mr_wf_le_MAX[of r] by (auto simp: covered_def mr_contains_addr_def)
qed (simp add: covered_def)

lemma walk_ranges_spec:
  assumes "sorted_from 0 left" and "sorted_from 0 right"
  shows "\<exists>out. walk_ranges left right = Some out \<and> tiles 0 out MAX_ADDRESS \<and>
    (\<forall>r c a. (r, c) \<in> set out \<longrightarrow> mr_contains_addr r a \<longrightarrow>
       c = walk_class (range_at left a) (range_at right a))"
  using range_walk_collect_correct[of "\<lparr>rw_pos = 0, rw_left = peekable_sorted_new left,
      rw_right = peekable_sorted_new right\<rparr>"] assms
  by (simp add: walk_ranges_def peekable_sorted_new_def ps_inv_def ps_list_def)

lemma walk_filter_correct:
  assumes sorted: "sorted_ranges left" "sorted_ranges right"
    and f: "\<And>r c. f (r, c) = (if P c then Some r else None)" and P: "\<not> P Neither"
  obtains out where "walk_ranges (untagged left) (untagged right) = Some out"
    "sorted_ranges (List.map_filter f out)"
    "covered (List.map_filter f out) =
       {a. P (walk_class (range_at (untagged left) a) (range_at (untagged right) a))}"
proof -
  obtain out where out: "walk_ranges (untagged left) (untagged right) = Some out" and
    tiles: "tiles 0 out MAX_ADDRESS" and
    cls: "\<forall>r c a. (r, c) \<in> set out \<longrightarrow> mr_contains_addr r a \<longrightarrow>
       c = walk_class (range_at (untagged left) a) (range_at (untagged right) a)"
    using walk_ranges_spec sorted unfolding sorted_ranges_def by blast
  have mem: "r \<in> set (List.map_filter f out) \<longleftrightarrow> (\<exists>c. (r, c) \<in> set out \<and> P c)" for r
    by (force simp: List.map_filter_def f split: if_splits)
  have "a \<in> covered (List.map_filter f out) \<longleftrightarrow>
      P (walk_class (range_at (untagged left) a) (range_at (untagged right) a))" for a
  proof
    assume "a \<in> covered (List.map_filter f out)"
    then show "P (walk_class (range_at (untagged left) a) (range_at (untagged right) a))"
      using mem cls unfolding covered_def by blast
  next
    assume P': "P (walk_class (range_at (untagged left) a) (range_at (untagged right) a))"
    then have "a \<in> covered left \<or> a \<in> covered right"
      using P by (auto simp: range_at_untagged split: if_splits)
    then have "a < MAX_ADDRESS" using sorted sorted_from_below_MAX unfolding sorted_ranges_def by blast
    then obtain r c where rc: "(r, c) \<in> set out" "mr_contains_addr r a"
      using tiles_cover[OF tiles, of a] by auto
    then have "c = walk_class (range_at (untagged left) a) (range_at (untagged right) a)"
      using cls by blast
    then have "P c" using P' by (rule ssubst)
    then show "a \<in> covered (List.map_filter f out)"
      using rc mem unfolding covered_def by blast
  qed
  moreover have "sorted_ranges (List.map_filter f out)"
    unfolding sorted_ranges_def by (rule tiles_sorted[OF tiles]) (simp add: f split: if_splits)
  ultimately show thesis using out by (intro that) auto
qed

lemma subtract_ranges_spec:
  assumes "sorted_ranges left" and "sorted_ranges right"
  shows "\<exists>out. subtract_ranges left right = Some out \<and> sorted_ranges out \<and>
    covered out = covered left - covered right"
proof -
  let ?f = "\<lambda>(r, c). case c of Left _ \<Rightarrow> Some r | Neither \<Rightarrow> None | Right _ \<Rightarrow> None | Both _ _ \<Rightarrow> None"
  have "\<And>r c. ?f (r, c) = (if \<exists>t. c = Left t then Some r else None)"
    by (auto split: range_walk_result.splits)
  from walk_filter_correct[OF assms this] obtain out where
    "walk_ranges (untagged left) (untagged right) = Some out" "sorted_ranges (List.map_filter ?f out)"
    "covered (List.map_filter ?f out) =
       {a. \<exists>t. walk_class (range_at (untagged left) a) (range_at (untagged right) a) = Left t}"
    by blast
  then show ?thesis
    by (auto simp: subtract_ranges_def range_at_untagged split: if_splits)
qed

lemma overlapping_ranges_spec:
  assumes "sorted_ranges left" and "sorted_ranges right"
  shows "\<exists>out. overlapping_ranges left right = Some out \<and> sorted_ranges out \<and>
    covered out = covered left \<inter> covered right"
proof -
  let ?f = "\<lambda>(r, c). case c of Both _ _ \<Rightarrow> Some r | _ \<Rightarrow> None"
  have "\<And>r c. ?f (r, c) = (if \<exists>t u. c = Both t u then Some r else None)"
    by (auto split: range_walk_result.splits)
  from walk_filter_correct[OF assms this] obtain out where
    "walk_ranges (untagged left) (untagged right) = Some out" "sorted_ranges (List.map_filter ?f out)"
    "covered (List.map_filter ?f out) =
       {a. \<exists>t u. walk_class (range_at (untagged left) a) (range_at (untagged right) a) = Both t u}"
    by blast
  then show ?thesis
    by (auto simp: overlapping_ranges_def range_at_untagged split: if_splits)
qed


subsection \<open>Flattening and merging keep the addresses\<close>

definition separated :: "memory_range list \<Rightarrow> bool" where
  "separated rs \<longleftrightarrow> sorted_wrt (\<lambda>r q. mr_end r < mr_start q) rs"

lemma covered_Cons: "covered (r # rs) = {mr_start r..<mr_end r} \<union> covered rs"
  by (auto simp: covered_def mr_contains_addr_def)

lemma flatten_loop_correct:
  assumes "sorted (map mr_start rs)" "\<forall>r \<in> set rs. mr_wf r \<and> s \<le> mr_start r"
    "lo \<le> s" "s \<le> e" "e AND (PAGE_SIZE - 1) = 0"
  shows "\<exists>e' rs'. flatten_loop s e rs = Some (e', rs') \<and> e \<le> e' \<and> e' AND (PAGE_SIZE - 1) = 0 \<and>
    sorted (map mr_start rs') \<and> (\<forall>r \<in> set rs'. mr_wf r \<and> e' < mr_start r) \<and>
    {lo..<e} \<union> covered rs = {lo..<e'} \<union> covered rs'"
  using assms
proof (induction s e rs arbitrary: lo rule: flatten_loop.induct)
  case (1 s e)
  then show ?case by simp
next
  case (2 s e r rs)
  have r: "mr_wf r" "s \<le> mr_start r" using 2 by auto
  show ?case
  proof (cases "mr_start r \<le> e")
    case True
    have "\<exists>e' rs'. flatten_loop (mr_start r) (max e (mr_end r)) rs = Some (e', rs') \<and>
      max e (mr_end r) \<le> e' \<and> e' AND (PAGE_SIZE - 1) = 0 \<and>
      sorted (map mr_start rs') \<and> (\<forall>r \<in> set rs'. mr_wf r \<and> e' < mr_start r) \<and>
      {lo..<max e (mr_end r)} \<union> covered rs = {lo..<e'} \<union> covered rs'"
    proof (rule "2.IH")
      show "max e (mr_end r) AND (PAGE_SIZE - 1) = 0" using "2.prems"(5) r by (simp add: max_def mr_wf_def)
      show "mr_start r \<le> max e (mr_end r)" using True by (simp add: le_max_iff_disj)
      show "lo \<le> mr_start r" using "2.prems"(3) r(2) by (rule order_trans)
    qed (use "2.prems"(1,2) True r in auto)
    moreover have "{lo..<e} \<union> covered (r # rs) = {lo..<max e (mr_end r)} \<union> covered rs"
      using True r "2.prems" by (auto simp: covered_def mr_contains_addr_def less_max_iff_disj)
    ultimately show ?thesis using True r by auto
  next
    case False
    then show ?thesis using "2.prems" r by auto
  qed
qed

lemma flatten_ranges_spec:
  assumes "sorted (map mr_start rs)" and "list_all mr_wf rs"
  shows "\<exists>out. flatten_ranges rs = Some out \<and> list_all mr_wf out \<and> separated out \<and>
    covered out = covered rs \<and> (\<forall>q \<in> set out. rs \<noteq> [] \<and> mr_start (hd rs) \<le> mr_start q)"
  using assms
proof (induction rs rule: flatten_ranges.induct)
  case (1 rs)
  show ?case
  proof (cases rs)
    case Nil
    then have "flatten_ranges rs = Some []" by (subst flatten_ranges.simps) (simp add: flatten_next_def)
    with Nil show ?thesis by (simp add: separated_def covered_def)
  next
    case (Cons f rest)
    with "1.prems" have f: "mr_wf f" and rest: "sorted (map mr_start rest)"
      "\<forall>r \<in> set rest. mr_wf r \<and> mr_start f \<le> mr_start r"
      by (auto simp: list_all_iff)
    obtain e' rs' where l: "flatten_loop (mr_start f) (mr_end f) rest = Some (e', rs')" "mr_end f \<le> e'"
      "e' AND (PAGE_SIZE - 1) = 0" "sorted (map mr_start rs')" "\<forall>r \<in> set rs'. mr_wf r \<and> e' < mr_start r"
      "{mr_start f..<mr_end f} \<union> covered rest = {mr_start f..<e'} \<union> covered rs'"
      using flatten_loop_correct[OF rest order_refl, of "mr_end f"] f unfolding mr_wf_def by blast
    let ?r = "\<lparr>mr_start = mr_start f, mr_end = e'\<rparr>"
    have new: "mr_new (mr_start f) e' = Some ?r" using f l(2,3) by (auto simp: mr_new_eq_Some_iff mr_wf_def)
    then have nx: "flatten_next rs = Some (rs', Some ?r)" using l(1) Cons by (simp add: flatten_next_def)
    have "list_all mr_wf rs'" using l(5) by (simp add: list_all_iff)
    from "1.IH"[OF nx refl refl l(4) this] obtain out where out: "flatten_ranges rs' = Some out"
      "list_all mr_wf out" "separated out" "covered out = covered rs'"
      "\<forall>q \<in> set out. rs' \<noteq> [] \<and> mr_start (hd rs') \<le> mr_start q" by (elim exE conjE)
    have "flatten_ranges rs = Some (?r # out)" using nx out(1) by (subst flatten_ranges.simps) simp
    moreover have "mr_wf ?r" using new by (simp add: mr_wf_new)
    moreover have gap: "\<forall>q \<in> set out. e' < mr_start q" 
    proof
      fix q assume "q \<in> set out"
      with out(5) have "rs' \<noteq> []" "mr_start (hd rs') \<le> mr_start q" by auto
      moreover from this have "e' < mr_start (hd rs')" using l(5) hd_in_set by blast
      ultimately show "e' < mr_start q" by simp
    qed
    moreover have "covered (?r # out) = covered rs"
      using l(6) out(4) Cons by (simp add: covered_Cons)
    moreover have "mr_start f \<le> e'" using f l(2) by (auto simp: mr_wf_def)
    moreover have "\<forall>q \<in> set out. mr_start f \<le> mr_start q"
      using gap \<open>mr_start f \<le> e'\<close> by (meson order_less_imp_le order_trans)
    ultimately show ?thesis using out(2,3) Cons
      by (intro exI[of _ "?r # out"]) (simp add: separated_def)
  qed
qed


fun unmergeable :: "(memory_range \<times> 't) list \<Rightarrow> bool" where
  "unmergeable ((r, t) # (q, u) # rs) = (\<not> (mr_end r = mr_start q \<and> t = u) \<and> unmergeable ((q, u) # rs))"
| "unmergeable _ = True"

lemma merge_adjacent_loop_correct:
  assumes "sorted_from e rs" "s \<le> e" "lo \<le> e" "e AND (PAGE_SIZE - 1) = 0"
  shows "\<exists>e' rs'. merge_adjacent_loop ty s e rs = Some (e', rs') \<and> e \<le> e' \<and> e' AND (PAGE_SIZE - 1) = 0 \<and>
    sorted_from e' rs' \<and> (rs' = [] \<or> (\<exists>r t q. rs' = (r, t) # q \<and> \<not> (mr_start r = e' \<and> ty = t))) \<and>
    (\<forall>a. (if lo \<le> a \<and> a < e then Some ty else range_at rs a) =
         (if lo \<le> a \<and> a < e' then Some ty else range_at rs' a))"
  using assms
proof (induction ty s e rs rule: merge_adjacent_loop.induct)
  case (1 ty s e)
  then show ?case by simp
next
  case (2 ty s e r t rs)
  have r: "mr_wf r" "e \<le> mr_start r" "sorted_from (mr_end r) rs" using "2.prems" by auto
  then have ok: "s \<le> mr_start r" "mr_start r \<le> mr_end r" using "2.prems" by (auto simp: mr_wf_def)
  show ?case
  proof (cases "mr_start r = e \<and> ty = t")
    case True
    with ok r have m: "max e (mr_end r) = mr_end r" by (simp add: max_def)
    obtain e' rs' where IH: "merge_adjacent_loop ty (mr_start r) (mr_end r) rs = Some (e', rs')"
      "mr_end r \<le> e'" "e' AND (PAGE_SIZE - 1) = 0" "sorted_from e' rs'"
      "rs' = [] \<or> (\<exists>r t q. rs' = (r, t) # q \<and> \<not> (mr_start r = e' \<and> ty = t))"
      "\<forall>a. (if lo \<le> a \<and> a < mr_end r then Some ty else range_at rs a) =
         (if lo \<le> a \<and> a < e' then Some ty else range_at rs' a)"
    proof -
      have "\<exists>e' rs'. merge_adjacent_loop ty (mr_start r) (mr_end r) rs = Some (e', rs') \<and> mr_end r \<le> e' \<and>
        e' AND (PAGE_SIZE - 1) = 0 \<and> sorted_from e' rs' \<and>
        (rs' = [] \<or> (\<exists>r t q. rs' = (r, t) # q \<and> \<not> (mr_start r = e' \<and> ty = t))) \<and>
        (\<forall>a. (if lo \<le> a \<and> a < mr_end r then Some ty else range_at rs a) =
         (if lo \<le> a \<and> a < e' then Some ty else range_at rs' a))"
        using True r ok "2.prems"(3) by (intro "2.IH"[unfolded m]) (auto simp: mr_wf_def)
      then show thesis using that by blast
    qed
    have "(if lo \<le> a \<and> a < e then Some ty else range_at ((r, t) # rs) a) =
        (if lo \<le> a \<and> a < e' then Some ty else range_at rs' a)" for a
    proof -
      have "(if lo \<le> a \<and> a < e then Some ty else range_at ((r, t) # rs) a) =
        (if lo \<le> a \<and> a < mr_end r then Some ty else range_at rs a)"
        using True ok "2.prems"(3) range_at_before[OF r(3), of a]
        by (auto simp: mr_contains_addr_def)
      also have "\<dots> = (if lo \<le> a \<and> a < e' then Some ty else range_at rs' a)" using IH(6) by (rule spec)
      finally show ?thesis .
    qed
    moreover have "e \<le> e'" using True ok IH(2) by simp
    ultimately show ?thesis using IH(1,3-5) True ok m r(2) by simp
  next
    case False
    then show ?thesis using "2.prems" ok r by auto
  qed
qed

lemma merge_adjacent_ranges_spec:
  assumes "sorted_from p rs"
  shows "\<exists>out. merge_adjacent_ranges rs = Some out \<and> sorted_from p out \<and> unmergeable out \<and>
    (\<forall>a. range_at out a = range_at rs a) \<and>
    (\<forall>q t qs. out = (q, t) # qs \<longrightarrow> (\<exists>r rest. rs = (r, t) # rest \<and> mr_start r = mr_start q))"
  using assms
proof (induction rs arbitrary: p rule: merge_adjacent_ranges.induct)
  case (1 rs)
  show ?case
  proof (cases rs)
    case Nil
    then have "merge_adjacent_ranges rs = Some []"
      by (subst merge_adjacent_ranges.simps) (simp add: merge_adjacent_next_def)
    with Nil show ?thesis by simp
  next
    case (Cons x rest)
    obtain f ty where x: "x = (f, ty)" by (cases x)
    with Cons "1.prems" have f: "mr_wf f" "p \<le> mr_start f" and rest: "sorted_from (mr_end f) rest" by auto
    have fe: "mr_start f \<le> mr_end f" "mr_end f AND (PAGE_SIZE - 1) = 0" using f by (auto simp: mr_wf_def)
    obtain e' rs' where l: "merge_adjacent_loop ty (mr_start f) (mr_end f) rest = Some (e', rs')"
      "mr_end f \<le> e'" "e' AND (PAGE_SIZE - 1) = 0" "sorted_from e' rs'"
      "rs' = [] \<or> (\<exists>r t q. rs' = (r, t) # q \<and> \<not> (mr_start r = e' \<and> ty = t))"
      "\<forall>a. (if mr_start f \<le> a \<and> a < mr_end f then Some ty else range_at rest a) =
         (if mr_start f \<le> a \<and> a < e' then Some ty else range_at rs' a)"
      using merge_adjacent_loop_correct[OF rest fe(1) fe(1) fe(2), of ty] by (elim exE conjE)
    let ?r = "\<lparr>mr_start = mr_start f, mr_end = e'\<rparr>"
    have new: "mr_new (mr_start f) e' = Some ?r" using f l(2,3) fe by (auto simp: mr_new_eq_Some_iff mr_wf_def)
    then have nx: "merge_adjacent_next rs = Some (rs', Some (?r, ty))"
      using l(1) Cons x by (simp add: merge_adjacent_next_def)
    from "1.IH"[OF nx refl refl l(4)] obtain out where out: "merge_adjacent_ranges rs' = Some out"
      "sorted_from e' out" "unmergeable out" "\<forall>a. range_at out a = range_at rs' a"
      "\<forall>q t qs. out = (q, t) # qs \<longrightarrow> (\<exists>r rest. rs' = (r, t) # rest \<and> mr_start r = mr_start q)"
      by (elim exE conjE)
    have res: "merge_adjacent_ranges rs = Some ((?r, ty) # out)"
      using nx out(1) by (subst merge_adjacent_ranges.simps) simp
    have srt: "sorted_from p ((?r, ty) # out)" using new out(2) f(2) by (simp add: mr_wf_new)
    have unm: "unmergeable ((?r, ty) # out)"
    proof (cases out)
      case (Cons y ys)
      obtain q t where y: "y = (q, t)" by (cases y)
      from out(5) Cons y obtain r rst where "rs' = (r, t) # rst" "mr_start r = mr_start q" by blast
      with l(5) show ?thesis using out(3) Cons y by auto
    qed simp
    have "range_at ((?r, ty) # out) a = range_at rs a" for a
      using l(6)[rule_format, of a] out(4)[rule_format, of a] Cons x by (simp add: mr_contains_addr_def)
    with res srt unm Cons x show ?thesis by simp
  qed
qed


subsection \<open>Aligned subranges tile the range\<close>

text \<open>The arithmetic of one \<open>align\<close> on natural numbers.\<close>

definition align_nat :: "nat \<Rightarrow> nat \<Rightarrow> nat \<Rightarrow> nat" where
  "align_nat m s e =
     (let up = (s + (m - 1)) - (s + (m - 1)) mod m; dn = e - e mod m
      in if up \<ge> dn then e else if s mod m \<noteq> 0 then min e up else dn)"

text \<open>A piece \<open>[s, e)\<close> is made of whole pages of size \<open>m\<close>, or holds none.\<close>

definition whole_pages_or_none :: "nat \<Rightarrow> nat \<Rightarrow> nat \<Rightarrow> bool" where
  "whole_pages_or_none m s e \<longleftrightarrow> (m dvd s \<and> m dvd e) \<or> (\<forall>n. s \<le> n * m \<longrightarrow> e < (n + 1) * m)"

lemma round_up_facts:
  fixes s m :: nat
  assumes "0 < m"
  defines "up \<equiv> (s + (m - 1)) - (s + (m - 1)) mod m"
  shows "m dvd up" "s \<le> up" "up < s + m" "m dvd s \<Longrightarrow> up = s"
proof -
  show "m dvd up" unfolding up_def by (simp add: dvd_minus_mod)
  have lt: "(s + (m - 1)) mod m < m" using assms(1) by simp
  then show "s \<le> up" unfolding up_def by linarith
  show "up < s + m" unfolding up_def using assms(1) by linarith
  assume "m dvd s"
  moreover have "m dvd up" unfolding up_def by (simp add: dvd_minus_mod)
  ultimately have "m dvd up - s" by simp
  moreover have "up - s < m" using \<open>up < s + m\<close> assms(1) by linarith
  ultimately show "up = s" using \<open>s \<le> up\<close> by (metis diff_is_0_eq' dvd_imp_le gr0I le_antisym not_less diff_diff_cancel diff_zero le_refl)
qed

lemma round_down_facts:
  fixes e m :: nat
  assumes "0 < m"
  shows "m dvd e - e mod m" "e < e - e mod m + m"
  using mod_less_divisor[OF assms, of e] by (simp_all add: dvd_minus_mod)

lemma multiple_between:
  fixes a b m :: nat
  assumes "m dvd a" "m dvd b" "a < b + m" shows "a \<le> b"
proof -
  obtain i j where ij: "a = m * i" "b = m * j" using assms by blast
  then have "m * i < m * (j + 1)" using assms(3) by simp
  then have "i < j + 1" using mult_less_cancel1 by blast
  then show ?thesis using ij by simp
qed

lemma align_nat_facts:
  fixes s e m p :: nat
  assumes "0 < m" "s < e"
  shows "s < align_nat m s e" "align_nat m s e \<le> e"
    "p dvd m \<Longrightarrow> p dvd e \<Longrightarrow> p dvd align_nat m s e"
    "whole_pages_or_none m s (align_nat m s e)"
proof -
  define up where "up = (s + (m - 1)) - (s + (m - 1)) mod m"
  define dn where "dn = e - e mod m"
  note u = round_up_facts[OF assms(1), of s, folded up_def]
  note d = round_down_facts[OF assms(1), of e, folded dn_def]
  have dn: "dn \<le> e" by (simp add: dn_def)
  have eq: "align_nat m s e = (if up \<ge> dn then e else if s mod m \<noteq> 0 then min e up else dn)"
    by (simp add: align_nat_def up_def dn_def Let_def)
  have up: "s mod m \<noteq> 0 \<Longrightarrow> s < up" using u(1,2) by (metis dvd_imp_mod_0 le_neq_implies_less)
  show "s < align_nat m s e" using assms(2) u(2) up by (auto simp: eq min_def not_le)
  show "align_nat m s e \<le> e" using dn by (auto simp: eq)
  show "p dvd m \<Longrightarrow> p dvd e \<Longrightarrow> p dvd align_nat m s e"
    using u(1) d(1) by (auto simp: eq min_def intro: dvd_trans)
  have none: "\<forall>n. s \<le> n * m \<longrightarrow> t < (n + 1) * m" if "t < up + m" for t
  proof (intro allI impI)
    fix n assume "s \<le> n * m"
    then have "up \<le> n * m" using u(1,3) multiple_between[of m up "n * m"] by simp
    then show "t < (n + 1) * m" using that by simp
  qed
  show "whole_pages_or_none m s (align_nat m s e)"
  proof (cases "up \<ge> dn")
    case True
    then have "e < up + m" using d(2) by simp
    then show ?thesis using True none by (simp add: eq whole_pages_or_none_def)
  next
    case False
    show ?thesis
    proof (cases "s mod m = 0")
      case True
      then show ?thesis using False d(1) by (simp add: eq whole_pages_or_none_def mod_eq_0_iff_dvd)
    next
      case F2: False
      have "min e up < up + m" using assms(1) by simp
      from none[OF this] F2 False show ?thesis by (simp add: eq whole_pages_or_none_def)
    qed
  qed
qed

lemma whole_pages_or_none_align:
  assumes "whole_pages_or_none m s e" "s < e" "m dvd q" "0 < q"
  shows "whole_pages_or_none m s (align_nat q s e)"
proof -
  note a = align_nat_facts[OF assms(4,2)]
  from assms(1) consider "m dvd s" "m dvd e" | "\<forall>n. s \<le> n * m \<longrightarrow> e < (n + 1) * m"
    by (auto simp: whole_pages_or_none_def)
  then show ?thesis
  proof cases
    case 1
    then show ?thesis using a(3)[OF assms(3)] by (simp add: whole_pages_or_none_def)
  next
    case 2
    then show ?thesis using a(2) unfolding whole_pages_or_none_def by (meson order_le_less_trans)
  qed
qed

lemma as_align_unat:
  assumes "k < 64" "unat s + 2 ^ k \<le> 2 ^ 64"
  shows "\<exists>e'. as_align s (2 ^ k) e = Some e' \<and> unat e' = align_nat (2 ^ k) (unat s) (unat e)"
proof -
  have one: "unat (2 ^ k - 1 :: u64) = 2 ^ k - 1"
  proof -
    have "(1::u64) \<le> 2 ^ k" using assms(1) by (simp add: word_le_nat_alt unat_2p)
    then show ?thesis using assms(1) by (simp add: unat_sub unat_2p)
  qed
  have "0 < (2::nat) ^ k" by simp
  then have "unat s + (2 ^ k - 1) < 2 ^ 64" using assms(2) by linarith
  then have ck: "add_ck s (2 ^ k - 1) = Some (s + (2 ^ k - 1))"
    and sum: "unat (s + (2 ^ k - 1)) = unat s + (2 ^ k - 1)"
    by (simp_all add: add_ck_def one unat_word_ariths del: power_Suc)
  have m0: "(s AND (2 ^ k - 1) \<noteq> 0) = (unat s mod 2 ^ k \<noteq> 0)"
    by (metis unat_and_mask unat_eq_zero)
  define U where "U = (s + (2 ^ k - 1)) AND NOT (2 ^ k - 1)"
  define D where "D = e AND NOT (2 ^ k - 1)"
  have U: "unat U = (unat s + (2 ^ k - 1)) - (unat s + (2 ^ k - 1)) mod 2 ^ k"
    unfolding U_def unat_and_not_mask sum ..
  have D: "unat D = unat e - unat e mod 2 ^ k" unfolding D_def by (rule unat_and_not_mask)
  have "as_align s (2 ^ k) e =
      Some (if U \<ge> D then e else if s AND (2 ^ k - 1) \<noteq> 0 then min e U else D)"
    by (simp add: as_align_def Let_def ck flip: U_def D_def)
  moreover have "unat (if U \<ge> D then e else if s AND (2 ^ k - 1) \<noteq> 0 then min e U else D) =
      align_nat (2 ^ k) (unat s) (unat e)"
    unfolding align_nat_def Let_def m0 word_le_nat_alt U[symmetric] D[symmetric]
    by (simp add: min_def word_le_nat_alt)
  ultimately show ?thesis by blast
qed

definition subranges_ok :: "aligned_subranges \<Rightarrow> bool" where
  "subranges_ok it \<longleftrightarrow> mr_wf (as_range it) \<and> as_offset it AND (PAGE_SIZE - 1) = 0 \<and>
     (as_max_len it = - 1 \<or> PAGE_SIZE \<le> as_max_len it \<and> as_max_len it AND (PAGE_SIZE - 1) = 0) \<and>
     unat (mr_end (as_range it)) + unat (as_offset it) + unat ONE_GB \<le> 2 ^ 64"

text \<open>What one piece of the iteration satisfies.\<close>

definition subrange_piece_ok :: "aligned_subranges \<Rightarrow> memory_range \<Rightarrow> bool" where
  "subrange_piece_ok it r \<longleftrightarrow>
     mr_end r - mr_start r \<le> as_max_len it \<and>
     (\<forall>m \<in> {unat TWO_MB, unat ONE_GB}. whole_pages_or_none m
        (unat (mr_start r) + unat (as_offset it)) (unat (mr_end r) + unat (as_offset it)))"

lemma page_aligned_iff: "w AND (PAGE_SIZE - 1) = 0 \<longleftrightarrow> 4096 dvd unat w" for w :: u64
proof -
  have "w AND (PAGE_SIZE - 1) = w AND (2 ^ 12 - 1)" by (simp add: PAGE_SIZE_def)
  then have "unat (w AND (PAGE_SIZE - 1)) = unat w mod 2 ^ 12" by (simp only: unat_and_mask)
  then have "unat (w AND (PAGE_SIZE - 1)) = unat w mod 4096" by simp
  then show ?thesis by (simp only: dvd_eq_mod_eq_0 flip: unat_eq_zero)
qed

lemma subranges_clamp:
  assumes ok: "subranges_ok it" and lt: "s < e0" and dvds: "4096 dvd unat s" "4096 dvd unat e0"
  shows "\<exists>e1. (if e0 - s > as_max_len it then add_ck s (as_max_len it) else Some e0) = Some e1 \<and>
    unat s < unat e1 \<and> unat e1 \<le> unat e0 \<and> 4096 dvd unat e1 \<and> unat e1 - unat s \<le> unat (as_max_len it)"
proof -
  let ?m = "as_max_len it"
  have ul: "unat (e0 - s) = unat e0 - unat s" using lt by (simp add: unat_sub)
  show ?thesis
  proof (cases "e0 - s > ?m")
    case True
    then have lm: "unat ?m < unat e0 - unat s" using ul by (simp add: word_less_nat_alt)
    have "?m \<noteq> - 1" using True by auto
    then have "PAGE_SIZE \<le> ?m" and dm: "4096 dvd unat ?m"
      using ok by (auto simp: subranges_ok_def page_aligned_iff)
    then have "4096 \<le> unat ?m" by (simp add: PAGE_SIZE_def word_le_nat_alt)
    note m = this dm
    have "unat e0 < 2 ^ 64" using unsigned_less[of e0] by simp
    with lm have "unat s + unat ?m < 2 ^ 64" by linarith
    then have "add_ck s ?m = Some (s + ?m)" "unat (s + ?m) = unat s + unat ?m"
      by (simp_all add: add_ck_def unat_word_ariths)
    then show ?thesis using True lm m dvds by simp
  next
    case False
    then show ?thesis using ul dvds lt by (simp add: word_less_nat_alt not_less word_le_nat_alt)
  qed
qed

lemma as_align_twice:
  assumes "unat s + 2 ^ 30 \<le> 2 ^ 64" and lt: "unat s < unat e1" and "4096 dvd unat e1"
  shows "\<exists>e2 e3. as_align s TWO_MB e1 = Some e2 \<and> as_align s ONE_GB e2 = Some e3 \<and>
    unat s < unat e3 \<and> unat e3 \<le> unat e1 \<and> 4096 dvd unat e3 \<and>
    whole_pages_or_none (unat TWO_MB) (unat s) (unat e3) \<and>
    whole_pages_or_none (unat ONE_GB) (unat s) (unat e3)"
proof -
  obtain e2 where e2: "as_align s TWO_MB e1 = Some e2" "unat e2 = align_nat (2 ^ 21) (unat s) (unat e1)"
    using as_align_unat[of 21 s e1] assms(1) by (auto simp: TWO_MB_def)
  have two: "0 < (2::nat) ^ 21" "0 < (2::nat) ^ 30" "(4096::nat) dvd 2 ^ 21" "(4096::nat) dvd 2 ^ 30"
    "(2::nat) ^ 21 dvd 2 ^ 30" by (simp_all add: le_imp_power_dvd dvd_def)
  note a2 = align_nat_facts[OF two(1) lt, folded e2(2)]
  obtain e3 where e3: "as_align s ONE_GB e2 = Some e3" "unat e3 = align_nat (2 ^ 30) (unat s) (unat e2)"
    using as_align_unat[of 30 s e2] assms(1) by (auto simp: ONE_GB_def)
  note a3 = align_nat_facts[OF two(2) a2(1), folded e3(2)]
  have "4096 dvd unat e3" using a3(3)[OF two(4)] a2(3)[OF two(3)] assms(3) by blast
  moreover have "whole_pages_or_none (2 ^ 21) (unat s) (unat e3)"
    using whole_pages_or_none_align[OF a2(4) a2(1) two(5) two(2)] by (simp add: e3(2))
  ultimately show ?thesis using e2(1) e3(1) a2(2) a3(1,2,4) by (simp add: TWO_MB_def ONE_GB_def)
qed

lemma aligned_subranges_next_correct:
  assumes ok: "subranges_ok it" and ne: "\<not> mr_is_empty (as_range it)"
  shows "\<exists>it' r. aligned_subranges_next it = Some (it', Some r) \<and> subranges_ok it' \<and> mr_wf r \<and>
    mr_start r = mr_start (as_range it) \<and> mr_start r < mr_end r \<and>
    it' = it\<lparr>as_range := \<lparr>mr_start = mr_end r, mr_end = mr_end (as_range it)\<rparr>\<rparr> \<and> subrange_piece_ok it r"
proof -
  let ?r = "as_range it" and ?o = "as_offset it"
  define s where "s = mr_start ?r + ?o"
  define e0 where "e0 = mr_end ?r + ?o"
  have wf: "4096 dvd unat (mr_start ?r)" "4096 dvd unat (mr_end ?r)" "4096 dvd unat ?o"
    using ok by (simp_all add: subranges_ok_def mr_wf_def page_aligned_iff)
  have lt: "unat (mr_start ?r) < unat (mr_end ?r)"
    using ok ne by (auto simp: subranges_ok_def mr_wf_def mr_is_empty_def word_less_nat_alt[symmetric])
  have top: "unat (mr_end ?r) + unat ?o + 2 ^ 30 \<le> 2 ^ 64"
    using ok by (simp add: subranges_ok_def ONE_GB_def)
  have us: "unat s = unat (mr_start ?r) + unat ?o" and cs: "add_ck (mr_start ?r) ?o = Some s"
    using lt top by (simp_all add: s_def unat_word_ariths add_ck_def)
  have ue: "unat e0 = unat (mr_end ?r) + unat ?o" and ce: "add_ck (mr_end ?r) ?o = Some e0"
    using top by (simp_all add: e0_def unat_word_ariths add_ck_def)
  have se0: "s < e0" using us ue lt by (simp add: word_less_nat_alt)
  from subranges_clamp[OF ok se0] wf us ue obtain e1 where
    e1: "(if e0 - s > as_max_len it then add_ck s (as_max_len it) else Some e0) = Some e1"
    "unat s < unat e1" "unat e1 \<le> unat e0" "4096 dvd unat e1" "unat e1 - unat s \<le> unat (as_max_len it)" by auto
  have "unat s + 2 ^ 30 \<le> 2 ^ 64" using us lt top by linarith
  from as_align_twice[OF this e1(2,4)] obtain e2 e3 where e3: "as_align s TWO_MB e1 = Some e2"
    "as_align s ONE_GB e2 = Some e3" "unat s < unat e3" "unat e3 \<le> unat e1" "4096 dvd unat e3"
    "whole_pages_or_none (unat TWO_MB) (unat s) (unat e3)"
    "whole_pages_or_none (unat ONE_GB) (unat s) (unat e3)" by (elim exE conjE)
  define q where "q = e3 - ?o"
  have os: "?o \<le> s" "?o \<le> e3" using us e3(3) by (simp_all add: word_le_nat_alt)
  have cq: "sub_ck e3 ?o = Some q" "sub_ck s ?o = Some (mr_start ?r)" and cl: "sub_ck e0 s = Some (e0 - s)"
    using os se0 by (simp_all add: sub_ck_def q_def s_def)
  have uq: "unat q + unat ?o = unat e3" using os by (simp add: q_def unat_sub word_le_nat_alt)
  have ord: "unat (mr_start ?r) < unat q" "unat q \<le> unat (mr_end ?r)" "4096 dvd unat q"
    using uq e3 e1(3) us ue wf by (auto, metis dvd_add_left_iff)
  let ?p = "\<lparr>mr_start = mr_start ?r, mr_end = q\<rparr>" and ?rest = "\<lparr>mr_start = q, mr_end = mr_end ?r\<rparr>"
  have new: "mr_new q (mr_end ?r) = Some ?rest" "mr_new (mr_start ?r) q = Some ?p"
    using ord wf by (simp_all add: mr_new_eq_Some_iff page_aligned_iff word_le_nat_alt)
  have nx: "aligned_subranges_next it = Some (it\<lparr>as_range := ?rest\<rparr>, Some ?p)"
    using ne cs ce cl e1(1) e3(1,2) cq new by (simp add: aligned_subranges_next_def)
  have "q - mr_start ?r = e3 - s" by (simp add: q_def s_def)
  then have "q - mr_start ?r \<le> as_max_len it"
    using e3(3,4) e1(5) by (simp add: word_le_nat_alt unat_sub)
  then have "subrange_piece_ok it ?p"
    using e3(6,7) uq us by (simp add: subrange_piece_ok_def)
  moreover have "subranges_ok (it\<lparr>as_range := ?rest\<rparr>)" using ok new by (simp add: subranges_ok_def mr_wf_new)
  moreover have "mr_wf ?p" "mr_start ?r < q" using new ord by (simp_all add: mr_wf_new word_less_nat_alt)
  ultimately show ?thesis using nx by (intro exI[of _ "it\<lparr>as_range := ?rest\<rparr>"] exI[of _ ?p]) simp
qed

lemma aligned_subranges_run_spec:
  assumes "subranges_ok it"
  shows "\<exists>out. aligned_subranges_run it = Some out \<and>
    tiles (mr_start (as_range it)) (untagged out) (mr_end (as_range it)) \<and>
    (\<forall>r \<in> set out. subrange_piece_ok it r)"
  using assms
proof (induction "unat (mr_end (as_range it)) - unat (mr_start (as_range it))" arbitrary: it rule: less_induct)
  case less
  show ?case
  proof (cases "mr_is_empty (as_range it)")
    case True
    then have "aligned_subranges_run it = Some []"
      by (subst aligned_subranges_run.simps) (simp add: aligned_subranges_next_def)
    then show ?thesis using True by (simp add: mr_is_empty_def)
  next
    case False
    from aligned_subranges_next_correct[OF less.prems False] obtain it' r where
      n: "aligned_subranges_next it = Some (it', Some r)" "subranges_ok it'" "mr_wf r"
      "mr_start r = mr_start (as_range it)" "mr_start r < mr_end r"
      "it' = it\<lparr>as_range := \<lparr>mr_start = mr_end r, mr_end = mr_end (as_range it)\<rparr>\<rparr>"
      "subrange_piece_ok it r" by (elim exE conjE)
    have "mr_end r \<le> mr_end (as_range it)" using n(2,6) by (simp add: subranges_ok_def mr_wf_def)
    then have "unat (mr_end (as_range it')) - unat (mr_start (as_range it')) <
        unat (mr_end (as_range it)) - unat (mr_start (as_range it))"
      using n(4-6) by (simp add: word_less_nat_alt word_le_nat_alt)
    from less.hyps[OF this n(2)] obtain out where out: "aligned_subranges_run it' = Some out"
      "tiles (mr_start (as_range it')) (untagged out) (mr_end (as_range it'))"
      "\<forall>r \<in> set out. subrange_piece_ok it' r" by (elim exE conjE)
    have "subrange_piece_ok it' x = subrange_piece_ok it x" for x
      using n(6) by (simp add: subrange_piece_ok_def)
    moreover have "aligned_subranges_run it = Some (r # out)"
      using n(1) out(1) by (subst aligned_subranges_run.simps) simp
    ultimately show ?thesis using n out(2,3) by simp
  qed
qed


subsection \<open>Properties\<close>

text \<open>C7. \<open>walk_ranges\<close> never panics on sorted, non-overlapping inputs, and its output is a
  partition: consecutive non-empty page-aligned ranges from 0 to \<open>MAX_ADDRESS\<close>, each labelled
  with exactly the left and right elements that hold every address in it.\<close>

theorem walk_ranges_partition:
  assumes "sorted_from 0 left" and "sorted_from 0 right"
  shows "\<exists>out. walk_ranges left right = Some out \<and> tiles 0 out MAX_ADDRESS \<and>
    (\<forall>r c a. (r, c) \<in> set out \<longrightarrow> mr_contains_addr r a \<longrightarrow>
       c = walk_class (range_at left a) (range_at right a))"
  using assms by (rule walk_ranges_spec)

abbreviation mr :: "u64 \<Rightarrow> u64 \<Rightarrow> memory_range" where
  "mr s e \<equiv> \<lparr>mr_start = s, mr_end = e\<rparr>"

theorem walk_ranges_partition_witness:
  "\<exists>out. walk_ranges [(mr 0x100000 0x400000, ''first''), (mr 0x800000 0xc00000, ''second'')]
      [(mr 0x200000 0x900000, 1000::nat), (mr 0x900000 0xa00000, 2000)] = Some out \<and>
    tiles 0 out MAX_ADDRESS"
proof -
  have l: "sorted_from 0 [(mr 0x100000 0x400000, ''first''), (mr 0x800000 0xc00000, ''second'')]"
    by (simp add: mr_wf_def PAGE_SIZE_def)
  have r: "sorted_from 0 [(mr 0x200000 0x900000, 1000::nat), (mr 0x900000 0xa00000, 2000)]"
    by (simp add: mr_wf_def PAGE_SIZE_def)
  show ?thesis using walk_ranges_partition [OF l r] by blast
qed

text \<open>C14. \<open>subtract_ranges\<close> covers exactly the addresses of the left sequence that the right
  one does not cover, and \<open>overlapping_ranges\<close> exactly the addresses both cover; neither panics
  on sorted inputs, and both outputs are sorted again.\<close>

theorem range_set_operations:
  assumes "sorted_ranges left" and "sorted_ranges right"
  shows "\<exists>diff both. subtract_ranges left right = Some diff \<and> overlapping_ranges left right = Some both \<and>
    sorted_ranges diff \<and> covered diff = covered left - covered right \<and>
    sorted_ranges both \<and> covered both = covered left \<inter> covered right"
  using subtract_ranges_spec[OF assms] overlapping_ranges_spec[OF assms] by blast

theorem range_set_operations_witness:
  "\<exists>diff both. subtract_ranges [mr 0 0x400000] [mr 0x200000 0x600000] = Some diff \<and>
    overlapping_ranges [mr 0 0x400000] [mr 0x200000 0x600000] = Some both \<and>
    covered diff = covered [mr 0 0x400000] - covered [mr 0x200000 0x600000]"
proof -
  have "sorted_ranges [mr 0 0x400000]" "sorted_ranges [mr 0x200000 0x600000]"
    by (simp_all add: sorted_ranges_def mr_wf_def PAGE_SIZE_def)
  from range_set_operations [OF this] show ?thesis by blast
qed

text \<open>C24. \<open>flatten_ranges\<close> on ranges sorted by start address never panics; its output covers the
  same addresses, and consecutive output ranges are separated by a gap.\<close>

theorem flatten_ranges_union:
  assumes "sorted (map mr_start rs)" and "list_all mr_wf rs"
  shows "\<exists>out. flatten_ranges rs = Some out \<and> list_all mr_wf out \<and> separated out \<and>
    covered out = covered rs"
  using flatten_ranges_spec[OF assms] by blast

theorem flatten_ranges_union_witness:
  "\<exists>out. flatten_ranges [mr 0x1000 0x2000, mr 0x2000 0x5000, mr 0x4000 0x6000, mr 0x8000 0x9000] = Some out \<and>
    separated out \<and> covered out = covered [mr 0x1000 0x2000, mr 0x2000 0x5000, mr 0x4000 0x6000, mr 0x8000 0x9000]"
proof -
  have "sorted (map mr_start [mr 0x1000 0x2000, mr 0x2000 0x5000, mr 0x4000 0x6000, mr 0x8000 0x9000])"
    "list_all mr_wf [mr 0x1000 0x2000, mr 0x2000 0x5000, mr 0x4000 0x6000, mr 0x8000 0x9000]"
    by (simp_all add: mr_wf_def PAGE_SIZE_def)
  from flatten_ranges_union [OF this] show ?thesis by blast
qed

text \<open>C25. \<open>merge_adjacent_ranges\<close> on sorted, non-overlapping tagged ranges never panics, keeps the
  tag of every address, and leaves no two neighbours that could still be merged.\<close>

theorem merge_adjacent_ranges_maximal:
  assumes "sorted_from 0 rs"
  shows "\<exists>out. merge_adjacent_ranges rs = Some out \<and> sorted_from 0 out \<and> unmergeable out \<and>
    (\<forall>a. range_at out a = range_at rs a)"
  using merge_adjacent_ranges_spec[OF assms] by blast

theorem merge_adjacent_ranges_maximal_witness:
  "\<exists>out. merge_adjacent_ranges [(mr 0x1000 0x2000, True), (mr 0x2000 0x5000, True), (mr 0x5000 0x6000, False)]
      = Some out \<and> unmergeable out"
proof -
  have "sorted_from 0 [(mr 0x1000 0x2000, True), (mr 0x2000 0x5000, True), (mr 0x5000 0x6000, False)]"
    by (simp add: mr_wf_def PAGE_SIZE_def)
  from merge_adjacent_ranges_maximal [OF this] show ?thesis by blast
qed

text \<open>C26. Iterating \<open>AlignedSubranges\<close> ends without a panic; the pieces tile the range in order, none
  is longer than the configured maximum, and each piece consists of whole 2MB (and 1GB) pages at
  the configured offset or contains none of them.\<close>

theorem aligned_subranges_tile:
  assumes "subranges_ok it"
  shows "\<exists>out. aligned_subranges_run it = Some out \<and>
    tiles (mr_start (as_range it)) (untagged out) (mr_end (as_range it)) \<and>
    (\<forall>r \<in> set out. subrange_piece_ok it r)"
  using assms by (rule aligned_subranges_run_spec)

theorem aligned_subranges_tile_witness:
  "\<exists>out. aligned_subranges_run (aligned_subranges_new (mr 0x1f4000 0xc01000)) = Some out \<and>
    tiles 0x1f4000 (untagged out) 0xc01000"
proof -
  have "subranges_ok (aligned_subranges_new (mr 0x1f4000 0xc01000))"
    by (simp add: subranges_ok_def aligned_subranges_new_def mr_wf_def PAGE_SIZE_def ONE_GB_def)
  from aligned_subranges_tile [OF this] show ?thesis by (auto simp: aligned_subranges_new_def)
qed

end
