(* ===== verification/ChipsetDevice.thy ===== *)
theory ChipsetDevice
  imports Prelude
begin

text \<open>
  What the emulated devices share: the errors of the device I/O interface
  (\<open>vm/chipset_device/src/io.rs\<close>) and the wrapping statistics counter
  (\<open>support/inspect_counters/src/lib.rs\<close>). The result of an I/O operation is the sum
  \<open>io_error + 'a\<close>; the variant \<open>IoResult::Defer\<close> is not used by the modelled devices.
\<close>

datatype io_error = InvalidRegister | InvalidAccessSize | UnalignedAccess | NoResponse

definition counter_add :: "u64 \<Rightarrow> u64 \<Rightarrow> u64" where
  "counter_add c n = c + n"

definition counter_increment :: "u64 \<Rightarrow> u64" where
  "counter_increment c = counter_add c 1"

end
