(* ===== verification/Pic.thy ===== *)
theory Pic
  imports ChipsetDevice
begin

text \<open>
  The dual 8259 interrupt controller, \<open>vm/devices/chipset/src/pic/mod.rs\<close>: the two chained
  \<open>Pic\<close>s, their command and data registers, interrupt acknowledgement, and save/restore.
  The \<open>ready\<close> line is the level last driven by \<open>sync_outputs\<close>. Port registration and the
  rate-limited log messages have no effect on the state and are left out. An array index out
  of range, a shift by eight or more and a failed \<open>assert!\<close> are \<open>None\<close>.
\<close>

subsection \<open>Constants and state\<close>

definition PIC_CHAIN_COMMUNICATION_IRQ :: u8 where "PIC_CHAIN_COMMUNICATION_IRQ = 2"
definition IRQ_MASK :: u8 where "IRQ_MASK = 7"
definition SPURIOUS_IRQ :: u8 where "SPURIOUS_IRQ = 7"


datatype init_stage = Uninitialized | ExpectingIcw2 | ExpectingIcw3 | ExpectingIcw4 | Initialized

record pic =
  pic_init :: init_stage
  pic_primary :: bool
  pic_icw2 :: u8
  pic_imr :: u8
  pic_ocw3 :: u8
  pic_isr :: u8
  pic_elcr :: u8
  pic_lines :: u8
  pic_line_low_latch :: u8

record dual_pic_stats =
  interrupts_per_irq :: "u64 list"
  interrupts :: u64

record dual_pic =
  dp_ready :: bool
  dp_stats :: dual_pic_stats
  dp_pic0 :: pic
  dp_pic1 :: pic

text \<open>Bit fields of the operation command words.\<close>

definition ocw2_level :: "u8 \<Rightarrow> u8" where "ocw2_level d = d AND 7"
definition ocw2_eoi :: "u8 \<Rightarrow> bool" where "ocw2_eoi d = bit d 5"
definition ocw2_sl :: "u8 \<Rightarrow> bool" where "ocw2_sl d = bit d 6"
definition ocw2_r :: "u8 \<Rightarrow> bool" where "ocw2_r d = bit d 7"

definition ocw3_p :: "u8 \<Rightarrow> bool" where "ocw3_p d = bit d 2"

subsection \<open>One controller\<close>

definition pic_new :: "bool \<Rightarrow> pic" where
  "pic_new primary =
     \<lparr>pic_init = Uninitialized, pic_primary = primary, pic_icw2 = (if primary then 0 else 8),
      pic_imr = 0, pic_ocw3 = 0, pic_isr = 0, pic_elcr = 0, pic_lines = 0,
      pic_line_low_latch = NOT 0\<rparr>"

definition pic_reset :: "pic \<Rightarrow> bool \<Rightarrow> pic" where
  "pic_reset p during_icw1 =
     (pic_new (pic_primary p))
       \<lparr>pic_lines := pic_lines p, pic_elcr := if during_icw1 then pic_elcr p else 0\<rparr>"

definition pic_irr :: "pic \<Rightarrow> u8" where
  "pic_irr p = pic_lines p AND (pic_elcr p OR pic_line_low_latch p)"

definition pic_set_irq :: "pic \<Rightarrow> u8 \<Rightarrow> bool \<Rightarrow> pic option" where
  "pic_set_irq p n high = do {
     assert_that (unat n < 8);
     let b = push_bit (unat n) 1;
     Some (if high then p\<lparr>pic_lines := pic_lines p OR b\<rparr>
           else p\<lparr>pic_lines := pic_lines p AND NOT b,
                  pic_line_low_latch := pic_line_low_latch p OR b\<rparr>)
   }"

definition ready_vec :: "pic \<Rightarrow> u8" where
  "ready_vec p =
     (let isr = pic_isr p; highest_isr = isr AND - isr; higher_not_isr = highest_isr - 1
      in pic_irr p AND NOT (pic_imr p) AND higher_not_isr)"

definition interrupt_pending :: "pic \<Rightarrow> bool" where
  "interrupt_pending p = (ready_vec p \<noteq> 0)"

definition pending_line :: "pic \<Rightarrow> u8 option" where
  "pending_line p =
     (let m = ready_vec p in if m \<noteq> 0 then Some (of_nat (trailing_zeros m)) else None)"

definition pic_acknowledge_interrupt ::
  "pic \<Rightarrow> dual_pic_stats \<Rightarrow> (pic \<times> dual_pic_stats \<times> bool \<times> u8) option" where
  "pic_acknowledge_interrupt p stats = do {
     (p', stats', requested, irq) \<leftarrow>
       (case pending_line p of
          Some n \<Rightarrow> do {
            assert_that (unat n < 8);
            let b = push_bit (unat n) 1;
            let i = (if pic_primary p then 0 else 8) + unat n;
            assert_that (i < length (interrupts_per_irq stats));
            Some (p\<lparr>pic_line_low_latch := pic_line_low_latch p AND NOT b, pic_isr := pic_isr p OR b\<rparr>,
                  stats\<lparr>interrupts := counter_increment (interrupts stats),
                        interrupts_per_irq := (interrupts_per_irq stats)
                          [i := counter_increment (interrupts_per_irq stats ! i)]\<rparr>,
                  True, n)
          }
        | None \<Rightarrow> Some (p, stats, False, SPURIOUS_IRQ));
     assert_that (pic_icw2 p' AND IRQ_MASK = 0);
     Some (p', stats', requested, pic_icw2 p' OR irq)
   }"

definition pic_eoi :: "pic \<Rightarrow> u8 option \<Rightarrow> pic option" where
  "pic_eoi p n = do {
     b \<leftarrow> (case n of
            Some level \<Rightarrow> do { assert_that (unat level < 8); Some (push_bit (unat level) 1) }
          | None \<Rightarrow> Some (pic_isr p AND - pic_isr p));
     Some (p\<lparr>pic_isr := pic_isr p AND NOT b\<rparr>)
   }"



definition write_command :: "pic \<Rightarrow> u8 \<Rightarrow> pic option" where
  "write_command p data =
     (if data AND 0b10000 \<noteq> 0 then Some ((pic_reset p True)\<lparr>pic_init := ExpectingIcw2\<rparr>)
      else if data AND 0b1000 = 0 then
        (case (ocw2_r data, ocw2_sl data, ocw2_eoi data) of
           (True, _, _) \<Rightarrow> Some p
         | (False, False, False) \<Rightarrow> Some p
         | (False, True, True) \<Rightarrow> pic_eoi p (Some (ocw2_level data))
         | (False, False, True) \<Rightarrow> pic_eoi p None
         | (False, True, False) \<Rightarrow> Some p)
      else Some (p\<lparr>pic_ocw3 := data\<rparr>))"


subsection \<open>The chained pair\<close>

definition dual_pic_new :: dual_pic where
  "dual_pic_new =
     \<lparr>dp_ready = False, dp_stats = \<lparr>interrupts_per_irq = replicate 16 0, interrupts = 0\<rparr>,
      dp_pic0 = pic_new True, dp_pic1 = pic_new False\<rparr>"

definition sync_outputs :: "dual_pic \<Rightarrow> dual_pic option" where
  "sync_outputs d = do {
     p0 \<leftarrow> pic_set_irq (dp_pic0 d) PIC_CHAIN_COMMUNICATION_IRQ (interrupt_pending (dp_pic1 d));
     Some (d\<lparr>dp_pic0 := p0, dp_ready := interrupt_pending p0\<rparr>)
   }"



definition acknowledge_interrupt :: "dual_pic \<Rightarrow> (dual_pic \<times> u8 option) option" where
  "acknowledge_interrupt d = do {
     (p0, stats, requested, n) \<leftarrow> pic_acknowledge_interrupt (dp_pic0 d) (dp_stats d);
     let d = d\<lparr>dp_pic0 := p0, dp_stats := stats\<rparr>;
     (d, irq) \<leftarrow>
       (if requested then
          (if n AND IRQ_MASK = PIC_CHAIN_COMMUNICATION_IRQ then do {
             (p1, stats, requested, m) \<leftarrow> pic_acknowledge_interrupt (dp_pic1 d) (dp_stats d);
             assert_that requested;
             Some (d\<lparr>dp_pic1 := p1, dp_stats := stats\<rparr>, Some m)
           }
           else Some (d, Some n))
        else Some (d, None));
     d \<leftarrow> sync_outputs d;
     Some (d, irq)
   }"




subsection \<open>Save and restore\<close>









subsection \<open>The device as a state machine\<close>



subsection \<open>Priorities\<close>

text \<open>A line can be delivered when it is requested, not masked, and neither it nor a line of higher
  priority is in service.\<close>

definition deliverable :: "pic \<Rightarrow> nat \<Rightarrow> bool" where
  "deliverable p i \<longleftrightarrow> i < 8 \<and> bit (pic_irr p) i \<and> \<not> bit (pic_imr p) i \<and> (\<forall>j\<le>i. \<not> bit (pic_isr p) j)"

text \<open>The highest-priority deliverable line, by search.\<close>

definition first_deliverable :: "pic \<Rightarrow> nat option" where
  "first_deliverable p = List.find (deliverable p) [0..<8]"

lemma bit_ready_vec: "bit (ready_vec p) i \<longleftrightarrow> deliverable p i"
proof -
  have "bit (ready_vec p) i \<longleftrightarrow> bit (pic_irr p) i \<and> bit (NOT (pic_imr p)) i \<and>
      bit ((pic_isr p AND - pic_isr p) - 1) i"
    by (simp add: ready_vec_def Let_def bit_and_iff)
  also have "\<dots> \<longleftrightarrow> deliverable p i"
    unfolding bit_lowest_mask by (auto simp: deliverable_def bit_not_iff bit_imp_le_length)
  finally show ?thesis .
qed

lemma interrupt_pending_iff: "interrupt_pending p \<longleftrightarrow> (\<exists>i. deliverable p i)"
proof -
  have "ready_vec p \<noteq> 0 \<longleftrightarrow> (\<exists>i. bit (ready_vec p) i)"
    by (metis bit_0_eq bit_word_eqI bot_apply bot_bool_def)
  then show ?thesis by (simp add: interrupt_pending_def bit_ready_vec)
qed

lemma deliverable_lt: "deliverable p i \<Longrightarrow> i < 8"
  by (simp add: deliverable_def)

lemma first_deliverable_eq_Some:
  "first_deliverable p = Some n \<longleftrightarrow> deliverable p n \<and> (\<forall>m<n. \<not> deliverable p m)"
proof -
  have "first_deliverable p = Some n \<longleftrightarrow> (\<exists>i<8. deliverable p i \<and> n = i \<and> (\<forall>j<i. \<not> deliverable p j))"
    by (simp add: first_deliverable_def find_Some_iff cong: conj_cong)
  then show ?thesis by (auto dest: deliverable_lt)
qed

lemma pending_line_eq: "pending_line p = map_option of_nat (first_deliverable p)"
proof (cases "ready_vec p = 0")
  case True
  then have "\<not> deliverable p i" for i by (simp add: bit_ready_vec[symmetric])
  then have "first_deliverable p = None"
    by (simp add: first_deliverable_def find_None_iff)
  then show ?thesis using True by (simp add: pending_line_def Let_def)
next
  case False
  let ?n = "trailing_zeros (ready_vec p)"
  have "deliverable p ?n" using trailing_zeros_bit[OF False] by (simp add: bit_ready_vec)
  moreover have "\<forall>m<?n. \<not> deliverable p m"
    using trailing_zeros_bits[of _ "ready_vec p"] by (simp add: bit_ready_vec)
  ultimately have "first_deliverable p = Some ?n" by (simp add: first_deliverable_eq_Some)
  then show ?thesis using False by (simp add: pending_line_def Let_def)
qed

lemma interrupt_pending_first: "interrupt_pending p \<longleftrightarrow> first_deliverable p \<noteq> None"
  by (simp add: first_deliverable_def find_None_iff interrupt_pending_iff) (auto dest: deliverable_lt)

subsection \<open>Acknowledging on one controller\<close>

definition serve :: "pic \<Rightarrow> nat \<Rightarrow> pic" where
  "serve p n = p\<lparr>pic_line_low_latch := pic_line_low_latch p AND NOT (push_bit n 1),
                 pic_isr := pic_isr p OR push_bit n 1\<rparr>"

definition count_irq :: "bool \<Rightarrow> nat \<Rightarrow> dual_pic_stats \<Rightarrow> dual_pic_stats" where
  "count_irq primary n st =
     (let i = (if primary then 0 else 8) + n in
      st\<lparr>interrupts := counter_increment (interrupts st),
         interrupts_per_irq := (interrupts_per_irq st)[i := counter_increment (interrupts_per_irq st ! i)]\<rparr>)"

lemma first_deliverable_lt: "first_deliverable p = Some n \<Longrightarrow> n < 8"
  by (simp add: first_deliverable_eq_Some deliverable_def)

lemma pic_acknowledge_eq:
  assumes "pic_icw2 p AND IRQ_MASK = 0" and "length (interrupts_per_irq st) = 16"
  shows "pic_acknowledge_interrupt p st =
    (case first_deliverable p of
       None \<Rightarrow> Some (p, st, False, pic_icw2 p OR SPURIOUS_IRQ)
     | Some n \<Rightarrow> Some (serve p n, count_irq (pic_primary p) n st, True, pic_icw2 p OR of_nat n))"
proof (cases "first_deliverable p")
  case None
  then show ?thesis using assms by (simp add: pic_acknowledge_interrupt_def pending_line_eq)
next
  case (Some n)
  then have n: "n < 8" by (rule first_deliverable_lt)
  then have "unat (of_nat n :: u8) = n" by (simp add: unat_of_nat)
  then show ?thesis using assms n Some
    by (simp add: pic_acknowledge_interrupt_def pending_line_eq serve_def count_irq_def Let_def)
qed

text \<open>The vector carries the line number in its low three bits.\<close>

lemma vector_line:
  assumes "b AND IRQ_MASK = 0" and "n < 8"
  shows "(b OR of_nat n) AND IRQ_MASK = of_nat n"
proof -
  have "of_nat n AND (IRQ_MASK :: u8) = of_nat n"
  proof -
    have "IRQ_MASK = mask 3" by (simp add: IRQ_MASK_def mask_eq_exp_minus_1)
    then have "of_nat n AND IRQ_MASK = (take_bit 3 (of_nat n) :: u8)" by (simp add: take_bit_eq_mask)
    also have "\<dots> = of_nat (take_bit 3 n)" by (simp add: of_nat_take_bit[symmetric] take_bit_of_nat)
    also have "take_bit 3 n = n" using assms(2) by (simp add: take_bit_nat_eq_self)
    finally show ?thesis .
  qed
  then show ?thesis using assms(1) by (simp add: bit.conj_disj_distrib2)
qed

lemma vector_is_chain:
  assumes "b AND IRQ_MASK = 0" and "n < 8"
  shows "(b OR of_nat n) AND IRQ_MASK = PIC_CHAIN_COMMUNICATION_IRQ \<longleftrightarrow> n = 2"
proof -
  have "(of_nat n :: u8) = 2 \<longleftrightarrow> n = 2"
  proof
    assume "(of_nat n :: u8) = 2"
    then have "unat (of_nat n :: u8) = unat (2 :: u8)" by simp
    then show "n = 2" using assms(2) by (simp add: unat_of_nat)
  qed simp
  then show ?thesis by (simp add: vector_line[OF assms] PIC_CHAIN_COMMUNICATION_IRQ_def)
qed

subsection \<open>Device invariant\<close>

text \<open>
  \<open>synced\<close> says that the outputs are up to date: synchronising them again changes nothing, so
  IRQ2 of the primary is the secondary's output and \<open>ready\<close> is the primary's. \<open>pic_wf\<close> adds the vector bases, the roles and
  the size of the statistics, and \<open>no_poll\<close> that no poll command is outstanding.
\<close>

definition synced :: "dual_pic \<Rightarrow> bool" where
  "synced d \<longleftrightarrow> sync_outputs d = Some d"

definition pic_wf :: "dual_pic \<Rightarrow> bool" where
  "pic_wf d \<longleftrightarrow> pic_icw2 (dp_pic0 d) AND IRQ_MASK = 0 \<and> pic_icw2 (dp_pic1 d) AND IRQ_MASK = 0 \<and>
     pic_primary (dp_pic0 d) \<and> \<not> pic_primary (dp_pic1 d) \<and>
     length (interrupts_per_irq (dp_stats d)) = 16"

definition no_poll :: "dual_pic \<Rightarrow> bool" where
  "no_poll d \<longleftrightarrow> \<not> ocw3_p (pic_ocw3 (dp_pic0 d)) \<and> \<not> ocw3_p (pic_ocw3 (dp_pic1 d))"

definition dual_pic_inv :: "dual_pic \<Rightarrow> bool" where
  "dual_pic_inv d \<longleftrightarrow> pic_wf d \<and> no_poll d \<and> synced d"

lemma pic_set_irq_some: "unat n < 8 \<Longrightarrow> \<exists>p'. pic_set_irq p n high = Some p'"
  by (simp add: pic_set_irq_def Let_def)

lemma pic_set_irq_frame:
  assumes "pic_set_irq p n high = Some p'"
  shows "pic_icw2 p' = pic_icw2 p" "pic_primary p' = pic_primary p" "pic_ocw3 p' = pic_ocw3 p"
    "pic_isr p' = pic_isr p" "pic_imr p' = pic_imr p" "pic_elcr p' = pic_elcr p" "pic_init p' = pic_init p"
    "bit (pic_lines p') (unat n) = high"
  using assms by (auto simp: pic_set_irq_def Let_def bit_simps split: if_splits)

lemma pic_set_irq_idem:
  assumes "pic_set_irq p n high = Some p'"
  shows "pic_set_irq p' n high = Some p'"
  using assms by (auto simp: pic_set_irq_def Let_def or.assoc and.assoc split: if_splits)

lemma synced_lines:
  assumes "synced d"
  shows "bit (pic_lines (dp_pic0 d)) 2 = interrupt_pending (dp_pic1 d)" "dp_ready d = interrupt_pending (dp_pic0 d)"
proof -
  from assms obtain p0 where
    p0: "pic_set_irq (dp_pic0 d) 2 (interrupt_pending (dp_pic1 d)) = Some p0"
      "d\<lparr>dp_pic0 := p0, dp_ready := interrupt_pending p0\<rparr> = d"
    by (auto simp: synced_def sync_outputs_def PIC_CHAIN_COMMUNICATION_IRQ_def bind_eq_Some_conv)
  then have "dp_pic0 d = p0" "dp_ready d = interrupt_pending p0"
    by (cases d, simp)+
  then show "bit (pic_lines (dp_pic0 d)) 2 = interrupt_pending (dp_pic1 d)" "dp_ready d = interrupt_pending (dp_pic0 d)"
    using pic_set_irq_frame(8)[OF p0(1)] by simp_all
qed

lemma sync_outputs_ok:
  "\<exists>d'. sync_outputs d = Some d' \<and> synced d' \<and> dp_pic1 d' = dp_pic1 d \<and> dp_stats d' = dp_stats d \<and>
     pic_set_irq (dp_pic0 d) 2 (interrupt_pending (dp_pic1 d)) = Some (dp_pic0 d')"
proof -
  obtain p0 where p0: "pic_set_irq (dp_pic0 d) 2 (interrupt_pending (dp_pic1 d)) = Some p0"
    using pic_set_irq_some[of 2] by fastforce
  then show ?thesis
    using pic_set_irq_idem[OF p0]
    by (simp add: sync_outputs_def PIC_CHAIN_COMMUNICATION_IRQ_def synced_def)
qed

lemma sync_outputs_inv:
  assumes "pic_wf d" and "no_poll d"
  shows "\<exists>d'. sync_outputs d = Some d' \<and> dual_pic_inv d'"
proof -
  obtain d' where d': "sync_outputs d = Some d'" "synced d'" "dp_pic1 d' = dp_pic1 d" "dp_stats d' = dp_stats d"
    "pic_set_irq (dp_pic0 d) 2 (interrupt_pending (dp_pic1 d)) = Some (dp_pic0 d')"
    using sync_outputs_ok by blast
  then show ?thesis
    using assms pic_set_irq_frame[OF d'(5)] by (auto simp: dual_pic_inv_def pic_wf_def no_poll_def)
qed


definition pic_ok :: "pic \<Rightarrow> bool" where
  "pic_ok p \<longleftrightarrow> pic_icw2 p AND IRQ_MASK = 0 \<and> \<not> ocw3_p (pic_ocw3 p)"







lemma pic_wf_ok:
  "pic_wf d \<and> no_poll d \<longleftrightarrow> pic_ok (dp_pic0 d) \<and> pic_ok (dp_pic1 d) \<and> pic_primary (dp_pic0 d) \<and>
     \<not> pic_primary (dp_pic1 d) \<and> length (interrupts_per_irq (dp_stats d)) = 16"
  by (auto simp: pic_wf_def no_poll_def pic_ok_def)

lemma dual_pic_invI:
  "pic_ok (dp_pic0 d) \<Longrightarrow> pic_ok (dp_pic1 d) \<Longrightarrow> pic_primary (dp_pic0 d) \<Longrightarrow> \<not> pic_primary (dp_pic1 d) \<Longrightarrow>
   length (interrupts_per_irq (dp_stats d)) = 16 \<Longrightarrow> \<exists>d'. sync_outputs d = Some d' \<and> dual_pic_inv d'"
  using sync_outputs_inv pic_wf_ok by blast

lemma dual_pic_inv_ok:
  "dual_pic_inv d \<Longrightarrow> pic_ok (dp_pic0 d) \<and> pic_ok (dp_pic1 d) \<and> pic_primary (dp_pic0 d) \<and>
     \<not> pic_primary (dp_pic1 d) \<and> length (interrupts_per_irq (dp_stats d)) = 16 \<and> synced d"
  by (simp add: dual_pic_inv_def pic_wf_ok[symmetric])

subsection \<open>Every operation keeps the invariant\<close>


lemma serve_ok [simp]:
  "pic_ok (serve p n) = pic_ok p" "pic_primary (serve p n) = pic_primary p" "pic_icw2 (serve p n) = pic_icw2 p"
  by (simp_all add: serve_def pic_ok_def)

lemma length_count_irq [simp]: "length (interrupts_per_irq (count_irq b n st)) = length (interrupts_per_irq st)"
  by (simp add: count_irq_def Let_def)

text \<open>
  What an acknowledgement does before the outputs are synchronised: the primary's winner goes in
  service, and when that is the cascade line, the secondary's winner as well.
\<close>

definition served :: "dual_pic \<Rightarrow> dual_pic" where
  "served d =
     (case first_deliverable (dp_pic0 d) of
        None \<Rightarrow> d
      | Some n \<Rightarrow>
          (let d' = d\<lparr>dp_pic0 := serve (dp_pic0 d) n, dp_stats := count_irq True n (dp_stats d)\<rparr> in
           if n = 2 then
             (case first_deliverable (dp_pic1 d) of
                None \<Rightarrow> d'
              | Some m \<Rightarrow> d'\<lparr>dp_pic1 := serve (dp_pic1 d) m, dp_stats := count_irq False m (dp_stats d')\<rparr>)
           else d'))"

definition expected_vector :: "dual_pic \<Rightarrow> u8 option" where
  "expected_vector d =
     (case first_deliverable (dp_pic0 d) of
        None \<Rightarrow> None
      | Some n \<Rightarrow>
          if n = 2 then map_option (\<lambda>m. pic_icw2 (dp_pic1 d) OR of_nat m) (first_deliverable (dp_pic1 d))
          else Some (pic_icw2 (dp_pic0 d) OR of_nat n))"

lemma served_ok:
  assumes "dual_pic_inv d"
  shows "\<exists>d'. sync_outputs (served d) = Some d' \<and> dual_pic_inv d'"
  using dual_pic_inv_ok[OF assms] by (intro dual_pic_invI) (auto simp: served_def Let_def split: option.split)

lemma cascade_pending:
  assumes "dual_pic_inv d" and "first_deliverable (dp_pic0 d) = Some 2"
  shows "\<exists>m. first_deliverable (dp_pic1 d) = Some m"
proof -
  have "bit (pic_irr (dp_pic0 d)) 2" using assms(2) by (simp add: first_deliverable_eq_Some deliverable_def)
  then have "bit (pic_lines (dp_pic0 d)) 2" by (simp add: pic_irr_def bit_and_iff)
  then have "interrupt_pending (dp_pic1 d)" using assms(1) by (simp add: dual_pic_inv_def synced_lines)
  then show ?thesis by (simp add: interrupt_pending_first)
qed

lemma acknowledge_interrupt_eq:
  assumes inv: "dual_pic_inv d"
  shows "acknowledge_interrupt d = map_option (\<lambda>d'. (d', expected_vector d)) (sync_outputs (served d))"
proof -
  have ok: "pic_icw2 (dp_pic0 d) AND IRQ_MASK = 0" "pic_icw2 (dp_pic1 d) AND IRQ_MASK = 0"
    "length (interrupts_per_irq (dp_stats d)) = 16" "pic_primary (dp_pic0 d)" "\<not> pic_primary (dp_pic1 d)"
    using dual_pic_inv_ok[OF inv] by (auto simp: pic_ok_def)
  have mo: "do { d \<leftarrow> x; Some (d, v) } = map_option (\<lambda>d'. (d', v)) x" for x and v :: "u8 option"
    by (cases x) auto
  show ?thesis
  proof (cases "first_deliverable (dp_pic0 d)")
    case None
    then show ?thesis
      by (simp add: acknowledge_interrupt_def pic_acknowledge_eq ok served_def expected_vector_def mo)
  next
    case (Some n)
    note n = first_deliverable_lt[OF Some]
    show ?thesis
    proof (cases "n = 2")
      case True
      obtain m where "first_deliverable (dp_pic1 d) = Some m"
        using cascade_pending[OF inv] Some True by auto
      then show ?thesis using Some True vector_is_chain[OF ok(1) n]
        by (simp add: acknowledge_interrupt_def pic_acknowledge_eq ok served_def expected_vector_def mo)
    next
      case False
      then show ?thesis using Some vector_is_chain[OF ok(1) n]
        by (simp add: acknowledge_interrupt_def pic_acknowledge_eq ok served_def expected_vector_def mo)
    qed
  qed
qed










lemma dual_pic_new_inv: "dual_pic_inv dual_pic_new"
  by (simp add: dual_pic_inv_def pic_wf_def no_poll_def synced_def sync_outputs_def pic_set_irq_def
      dual_pic_new_def pic_new_def interrupt_pending_def ready_vec_def pic_irr_def ocw3_p_def
      IRQ_MASK_def PIC_CHAIN_COMMUNICATION_IRQ_def)


subsection \<open>Save and restore\<close>







subsection \<open>End of interrupt\<close>

lemma isr_after_serve_eoi:
  assumes "first_deliverable p = Some n"
  shows "pic_eoi (serve p n) None = Some ((serve p n)\<lparr>pic_isr := pic_isr p\<rparr>)"
proof -
  have n: "n < 8" and above: "\<And>j. j \<le> n \<Longrightarrow> \<not> bit (pic_isr p) j"
    using assms by (auto simp: first_deliverable_eq_Some deliverable_def)
  let ?w = "pic_isr p OR push_bit n 1"
  have bits: "bit ?w i \<longleftrightarrow> bit (pic_isr p) i \<or> i = n" for i
    using n by (auto simp: bit_or_iff bit_exp_iff)
  have nz: "?w \<noteq> 0" using bits[of n] by auto
  have "trailing_zeros ?w = n"
  proof (rule linorder_cases[of "trailing_zeros ?w" n])
    assume "trailing_zeros ?w < n"
    then show ?thesis using trailing_zeros_bit[OF nz] bits above by (metis less_imp_le_nat less_irrefl)
  next
    assume "n < trailing_zeros ?w"
    then show ?thesis using trailing_zeros_bits[of n ?w] bits by blast
  qed
  then have "?w AND - ?w = push_bit n 1" using word_lowest_bit[OF nz] by simp
  moreover have "?w AND NOT (push_bit n 1) = pic_isr p"
    using above by (intro bit_word_eqI) (auto simp: bit_and_iff bit_or_iff bit_not_iff bit_exp_iff)
  ultimately show ?thesis by (simp add: pic_eoi_def serve_def)
qed

subsection \<open>Properties\<close>




text \<open>C19. An acknowledgement in a synced state returns the vector of the highest-priority line that is
  requested, unmasked and not blocked by an interrupt in service (the secondary's winner when the
  primary's is the cascade line), or nothing when there is none; the winner goes in service, its
  edge latch is cleared, and the outputs are synced again.\<close>

theorem acknowledge_highest_priority:
  assumes "dual_pic_inv d"
  shows "\<exists>d'. acknowledge_interrupt d = Some (d', expected_vector d) \<and>
    sync_outputs (served d) = Some d' \<and> dual_pic_inv d'"
  using served_ok[OF assms] acknowledge_interrupt_eq[OF assms] by auto

theorem acknowledge_highest_priority_witness:
  "\<exists>d'. acknowledge_interrupt dual_pic_new = Some (d', expected_vector dual_pic_new) \<and> dual_pic_inv d'"
  using acknowledge_highest_priority [OF dual_pic_new_inv] by blast

text \<open>C29. The non-specific end-of-interrupt command undoes an acknowledgement: after a controller with
  an interrupt pending acknowledges it, OCW2 value 0x20 leaves the in-service register as it was, and
  an edge-triggered line is requested again only after its level was low.\<close>

theorem acknowledge_then_eoi:
  assumes "pic_icw2 p AND IRQ_MASK = 0" and "length (interrupts_per_irq st) = 16" and "interrupt_pending p"
  shows "\<exists>p' st' v p''. pic_acknowledge_interrupt p st = Some (p', st', True, v) \<and>
    write_command p' 0x20 = Some p'' \<and> pic_isr p'' = pic_isr p \<and>
    bit (pic_isr p') (unat (v AND IRQ_MASK)) \<and>
    (bit (pic_irr p'') (unat (v AND IRQ_MASK)) \<longleftrightarrow>
       bit (pic_elcr p) (unat (v AND IRQ_MASK)) \<and> bit (pic_lines p) (unat (v AND IRQ_MASK)))"
proof -
  obtain n where n: "first_deliverable p = Some n" using assms(3) by (auto simp: interrupt_pending_first)
  have n8: "n < 8" using first_deliverable_lt[OF n] .
  have v: "unat ((pic_icw2 p OR of_nat n) AND IRQ_MASK) = n"
    using n8 by (simp add: vector_line[OF assms(1)] unat_of_nat)
  have "write_command (serve p n) 0x20 = Some ((serve p n)\<lparr>pic_isr := pic_isr p\<rparr>)"
    by (simp add: write_command_def ocw2_r_def ocw2_sl_def ocw2_eoi_def isr_after_serve_eoi[OF n])
  then show ?thesis using n n8
    by (simp add: pic_acknowledge_eq[OF assms(1,2)] v)
      (auto simp: serve_def pic_irr_def bit_and_iff bit_or_iff bit_not_iff bit_exp_iff)
qed

theorem acknowledge_then_eoi_witness:
  "let p = (pic_new True)\<lparr>pic_lines := 5, pic_isr := 8, pic_icw2 := 0x30\<rparr>;
       st = dp_stats dual_pic_new in
   \<exists>p' st' v p''. pic_acknowledge_interrupt p st = Some (p', st', True, v) \<and>
     write_command p' 0x20 = Some p'' \<and> pic_isr p'' = 8"
proof -
  let ?p = "(pic_new True)\<lparr>pic_lines := 5, pic_isr := 8, pic_icw2 := 0x30\<rparr>"
  have "pic_icw2 ?p AND IRQ_MASK = 0" "length (interrupts_per_irq (dp_stats dual_pic_new)) = 16"
    by (simp_all add: IRQ_MASK_def dual_pic_new_def)
  moreover have "interrupt_pending ?p"
    by (simp add: interrupt_pending_def ready_vec_def pic_irr_def pic_new_def)
  ultimately show ?thesis using acknowledge_then_eoi [of ?p "dp_stats dual_pic_new"] by fastforce
qed




end
