(* ===== verification/IoApic.thy ===== *)
theory IoApic
  imports ChipsetDevice
begin

text \<open>
  The IO-APIC, \<open>vm/devices/chipset/src/ioapic/mod.rs\<close>: redirection table, index and data
  registers, line assertion, end of interrupt, MMIO, reset, save and restore, with the MSI
  layouts it uses from \<open>vm/x86/x86defs/src/msi.rs\<close>. The routing object is outside the device
  (\<open>chipset_resources::ioapic::IoApicRouting\<close>); the model keeps the calls made on it, newest
  first. Log messages and the inspect tree are left out.
\<close>

subsection \<open>Registers\<close>

definition IO_APIC_VERSION :: u8 where "IO_APIC_VERSION = 0x11"
definition IOAPIC_DEVICE_MMIO_REGION_BASE_ADDRESS :: u64 where
  "IOAPIC_DEVICE_MMIO_REGION_BASE_ADDRESS = 0xfec00000"
definition IOAPIC_DEVICE_MMIO_REGION_SIZE :: u64 where "IOAPIC_DEVICE_MMIO_REGION_SIZE = 0x20"
definition IOAPIC_DEVICE_MMIO_REGION_MASK :: u64 where
  "IOAPIC_DEVICE_MMIO_REGION_MASK = IOAPIC_DEVICE_MMIO_REGION_SIZE - 1"

definition REG_INDEX :: u64 where "REG_INDEX = 0"
definition REG_DATA :: u64 where "REG_DATA = 0x10"

definition INDEX_ID :: u8 where "INDEX_ID = 0"
definition INDEX_VERSION :: u8 where "INDEX_VERSION = 1"
definition INDEX_ARBITRATION_ID :: u8 where "INDEX_ARBITRATION_ID = 2"
definition INDEX_REDIRECTION_TABLE_START :: u8 where "INDEX_REDIRECTION_TABLE_START = 0x10"

lemmas ioapic_consts =
  IOAPIC_DEVICE_MMIO_REGION_BASE_ADDRESS_def IOAPIC_DEVICE_MMIO_REGION_SIZE_def
  IOAPIC_DEVICE_MMIO_REGION_MASK_def REG_INDEX_def REG_DATA_def INDEX_ID_def INDEX_VERSION_def
  INDEX_ARBITRATION_ID_def INDEX_REDIRECTION_TABLE_START_def

text \<open>\<open>RedirectionEntry\<close>: a 64-bit word with bit fields.\<close>

definition re_vector :: "u64 \<Rightarrow> u8" where "re_vector r = ucast (get_field 0 8 r)"
definition re_delivery_mode :: "u64 \<Rightarrow> u8" where "re_delivery_mode r = ucast (get_field 8 3 r)"
definition re_destination_mode_logical :: "u64 \<Rightarrow> bool" where "re_destination_mode_logical r = bit r 11"
definition re_remote_irr :: "u64 \<Rightarrow> bool" where "re_remote_irr r = bit r 14"
definition re_trigger_mode_level :: "u64 \<Rightarrow> bool" where "re_trigger_mode_level r = bit r 15"
definition re_masked :: "u64 \<Rightarrow> bool" where "re_masked r = bit r 16"
definition re_extended_destination :: "u64 \<Rightarrow> u8" where "re_extended_destination r = ucast (get_field 48 8 r)"
definition re_destination :: "u64 \<Rightarrow> u8" where "re_destination r = ucast (get_field 56 8 r)"
definition re_set_remote_irr :: "bool \<Rightarrow> u64 \<Rightarrow> u64" where "re_set_remote_irr b r = put_bit 14 b r"

definition REDIRECTION_WRITE_MASK :: u64 where
  "REDIRECTION_WRITE_MASK =
     set_field 48 8 0xff (set_field 56 8 0xff (put_bit 16 True (put_bit 15 True
       (put_bit 13 True (put_bit 11 True (set_field 8 3 7 (set_field 0 8 0xff 0)))))))"

definition redirection_entry_init :: u64 where
  "redirection_entry_init = put_bit 16 True (put_bit 11 True 0)"

definition LOWEST_PRIORITY :: u8 where "LOWEST_PRIORITY = 1"
definition FIXED :: u8 where "FIXED = 0"

definition MSI_ADDRESS :: u32 where "MSI_ADDRESS = drop_bit 20 0xfee00000"

definition msi_address :: "u8 \<Rightarrow> u8 \<Rightarrow> bool \<Rightarrow> bool \<Rightarrow> u32" where
  "msi_address destination extended_destination logical hint =
     put_bit 3 hint (put_bit 2 logical (set_field 4 8 (ucast extended_destination)
       (set_field 12 8 (ucast destination) (set_field 20 12 MSI_ADDRESS 0))))"

definition msi_data :: "bool \<Rightarrow> u8 \<Rightarrow> bool \<Rightarrow> u8 \<Rightarrow> u32" where
  "msi_data logical delivery_mode level vector =
     set_field 0 8 (ucast vector) (put_bit 15 level (set_field 8 3 (ucast delivery_mode)
       (put_bit 11 logical (put_bit 14 True 0))))"

definition as_msi :: "u64 \<Rightarrow> (u64 \<times> u32) option" where
  "as_msi r =
     (if re_masked r then None
      else Some
        (ucast (msi_address (re_destination r) (re_extended_destination r) (re_destination_mode_logical r)
                  (re_delivery_mode r = LOWEST_PRIORITY)),
         msi_data (re_destination_mode_logical r) (re_delivery_mode r) (re_trigger_mode_level r) (re_vector r)))"

definition ioapic_id_reg :: "u8 \<Rightarrow> u32" where "ioapic_id_reg i = set_field 24 4 (ucast i) 0"
definition ioapic_id_of_reg :: "u32 \<Rightarrow> u8" where "ioapic_id_of_reg v = ucast (get_field 24 4 v)"
definition ioapic_version_reg :: "u8 \<Rightarrow> u8 \<Rightarrow> u32" where
  "ioapic_version_reg version max_entry = set_field 16 8 (ucast max_entry) (set_field 0 8 (ucast version) 0)"

subsection \<open>State\<close>

datatype routing_call = RouteAssert u8 | SetRoute u8 "(u64 \<times> u32) option"

record irq_entry =
  redirection :: u64
  line_level :: bool
  registered_request :: "(u64 \<times> u32) option"

record ioapic_stats =
  ioapic_interrupts_per_irq :: "u64 list"
  ioapic_interrupts :: u64

record ioapic =
  io_valid_lines :: "(u32 \<times> u32) list"
  io_routing :: "routing_call list"
  io_stats :: ioapic_stats
  io_irqs :: "irq_entry list"
  io_id :: u8
  io_index :: u8

type_synonym irq_effect = "irq_entry \<times> routing_call list \<times> ioapic_stats"

subsection \<open>One interrupt line\<close>

definition irq_is_level :: "u64 \<Rightarrow> bool" where
  "irq_is_level r = (re_trigger_mode_level r \<and> re_delivery_mode r \<in> {FIXED, LOWEST_PRIORITY})"

definition irq_evaluate ::
  "irq_entry \<Rightarrow> routing_call list \<Rightarrow> ioapic_stats \<Rightarrow> u8 \<Rightarrow> bool \<Rightarrow> irq_effect option" where
  "irq_evaluate e routing stats n edge =
     (let r = redirection e; is_level = irq_is_level r in
      if re_masked r \<or> (is_level \<and> (\<not> line_level e \<or> re_remote_irr r)) \<or> (\<not> is_level \<and> \<not> edge)
      then Some (e, routing, stats)
      else do {
        assert_that (unat n < length (ioapic_interrupts_per_irq stats));
        Some (e\<lparr>redirection := re_set_remote_irr is_level r\<rparr>,
              RouteAssert n # routing,
              stats\<lparr>ioapic_interrupts := counter_increment (ioapic_interrupts stats),
                    ioapic_interrupts_per_irq := (ioapic_interrupts_per_irq stats)
                      [unat n := counter_increment (ioapic_interrupts_per_irq stats ! unat n)]\<rparr>)
      })"

definition irq_assert ::
  "irq_entry \<Rightarrow> routing_call list \<Rightarrow> ioapic_stats \<Rightarrow> u8 \<Rightarrow> irq_effect option" where
  "irq_assert e routing stats n =
     (let old_level = line_level e in
      irq_evaluate (e\<lparr>line_level := True\<rparr>) routing stats n (\<not> old_level))"

definition irq_deassert :: "irq_entry \<Rightarrow> irq_entry" where
  "irq_deassert e = e\<lparr>line_level := False\<rparr>"

definition irq_eoi ::
  "irq_entry \<Rightarrow> u32 \<Rightarrow> routing_call list \<Rightarrow> ioapic_stats \<Rightarrow> u8 \<Rightarrow> irq_effect option" where
  "irq_eoi e vector routing stats n =
     (if ucast (re_vector (redirection e)) = vector then
        irq_evaluate (e\<lparr>redirection := re_set_remote_irr False (redirection e)\<rparr>) routing stats n False
      else Some (e, routing, stats))"

subsection \<open>The device\<close>

definition ioapic_new :: "u8 \<Rightarrow> ioapic option" where
  "ioapic_new num_entries = do {
     last \<leftarrow> sub_ck (ucast num_entries :: u32) 1;
     Some \<lparr>io_valid_lines = [(0, last)], io_routing = [],
           io_stats = \<lparr>ioapic_interrupts_per_irq = replicate (unat num_entries) 0, ioapic_interrupts = 0\<rparr>,
           io_irqs = replicate (unat num_entries)
             \<lparr>redirection = redirection_entry_init, line_level = False, registered_request = None\<rparr>,
           io_id = 0, io_index = INDEX_ID\<rparr>
   }"

text \<open>Running an operation of entry \<open>i\<close> in place, with the shared routing and statistics.\<close>

definition update_irq ::
  "(irq_entry \<Rightarrow> routing_call list \<Rightarrow> ioapic_stats \<Rightarrow> u8 \<Rightarrow> irq_effect option) \<Rightarrow> nat \<Rightarrow> ioapic \<Rightarrow> ioapic option" where
  "update_irq f i d = do {
     assert_that (i < length (io_irqs d));
     (e, routing, stats) \<leftarrow> f (io_irqs d ! i) (io_routing d) (io_stats d) (of_nat i);
     Some (d\<lparr>io_irqs := (io_irqs d)[i := e], io_routing := routing, io_stats := stats\<rparr>)
   }"

definition read_redirection_register :: "ioapic \<Rightarrow> u8 \<Rightarrow> u32" where
  "read_redirection_register d index =
     (let n = unat index div 2;
          value = (if n < length (io_irqs d) then redirection (io_irqs d ! n) else 0);
          value = (if index AND 1 = 1 then drop_bit 32 value else value)
      in ucast value)"

definition redirection_write ::
  "u8 \<Rightarrow> u32 \<Rightarrow> irq_entry \<Rightarrow> routing_call list \<Rightarrow> ioapic_stats \<Rightarrow> u8 \<Rightarrow> irq_effect option" where
  "redirection_write index val e routing stats n =
     (let r = redirection e;
          (r, v) = (if index AND 1 = 1 then (r AND 0xffffffff, push_bit 32 (ucast val :: u64))
                    else (r AND NOT 0xffffffff, ucast val));
          r = r OR (v AND REDIRECTION_WRITE_MASK);
          e = e\<lparr>redirection := r\<rparr>;
          request = as_msi r;
          (e, routing) = (if request \<noteq> registered_request e
                          then (e\<lparr>registered_request := request\<rparr>, SetRoute n request # routing)
                          else (e, routing))
      in irq_evaluate e routing stats n False)"

definition write_redirection_register :: "ioapic \<Rightarrow> u8 \<Rightarrow> u32 \<Rightarrow> ioapic option" where
  "write_redirection_register d index val =
     (let n = unat index div 2 in
      if n < length (io_irqs d) then update_irq (redirection_write index val) n d else Some d)"

definition ioapic_read_register :: "ioapic \<Rightarrow> u8 \<Rightarrow> u32 option" where
  "ioapic_read_register d index =
     (if index = INDEX_ID then Some (ioapic_id_reg (io_id d))
      else if index = INDEX_VERSION then do {
        assert_that (1 \<le> length (io_irqs d));
        Some (ioapic_version_reg IO_APIC_VERSION (of_nat (length (io_irqs d) - 1)))
      }
      else if index = INDEX_ARBITRATION_ID then Some 0
      else if io_index d \<ge> INDEX_REDIRECTION_TABLE_START then do {
        i \<leftarrow> sub_ck index INDEX_REDIRECTION_TABLE_START;
        Some (read_redirection_register d i)
      }
      else Some (NOT 0))"

definition ioapic_write_register :: "ioapic \<Rightarrow> u8 \<Rightarrow> u32 \<Rightarrow> ioapic option" where
  "ioapic_write_register d index val =
     (if index = INDEX_ID then Some (d\<lparr>io_id := ioapic_id_of_reg val\<rparr>)
      else if index = INDEX_VERSION \<or> index = INDEX_ARBITRATION_ID then Some d
      else if io_index d \<ge> INDEX_REDIRECTION_TABLE_START then do {
        i \<leftarrow> sub_ck index INDEX_REDIRECTION_TABLE_START;
        write_redirection_register d i val
      }
      else Some d)"

definition ioapic_set_irq :: "ioapic \<Rightarrow> u32 \<Rightarrow> bool \<Rightarrow> ioapic option" where
  "ioapic_set_irq d n high =
     (if unat n < length (io_irqs d) then
        (if high then update_irq irq_assert (unat n) d
         else update_irq (\<lambda>e routing stats _. Some (irq_deassert e, routing, stats)) (unat n) d)
      else Some d)"

definition ioapic_handle_eoi :: "ioapic \<Rightarrow> u32 \<Rightarrow> ioapic option" where
  "ioapic_handle_eoi d irq_to_end =
     for_each (update_irq (\<lambda>e routing stats n. irq_eoi e irq_to_end routing stats n)) [0..<length (io_irqs d)] d"

definition ioapic_reset :: "ioapic \<Rightarrow> ioapic option" where
  "ioapic_reset d =
     for_each (update_irq (\<lambda>e routing stats n.
         Some (e\<lparr>redirection := redirection_entry_init, registered_request := None\<rparr>, SetRoute n None # routing, stats)))
       [0..<length (io_irqs d)] (d\<lparr>io_id := 0, io_index := INDEX_ID\<rparr>)"

subsection \<open>Save and restore\<close>

record ioapic_saved_state =
  sv_id :: u8
  sv_index :: u8
  sv_redirection_entries :: "u64 list"
  sv_line_levels :: "bool list"

datatype ioapic_restore_error = WrongNumberOfRedirectionEntries

definition ioapic_save :: "ioapic \<Rightarrow> ioapic_saved_state" where
  "ioapic_save d =
     \<lparr>sv_id = io_id d, sv_index = io_index d, sv_redirection_entries = map redirection (io_irqs d),
      sv_line_levels = map line_level (io_irqs d)\<rparr>"

definition irq_restore ::
  "u64 \<Rightarrow> bool \<Rightarrow> irq_entry \<Rightarrow> routing_call list \<Rightarrow> ioapic_stats \<Rightarrow> u8 \<Rightarrow> irq_effect option" where
  "irq_restore r level e routing stats n =
     (let request = as_msi r in
      irq_evaluate (e\<lparr>redirection := r, line_level := level, registered_request := request\<rparr>)
        (SetRoute n request # routing) stats n False)"

definition ioapic_restore ::
  "ioapic \<Rightarrow> ioapic_saved_state \<Rightarrow> (ioapic \<times> (ioapic_restore_error + unit)) option" where
  "ioapic_restore d st =
     (let len = length (io_irqs d) in
      if length (sv_redirection_entries st) \<noteq> len then Some (d, Inl WrongNumberOfRedirectionEntries)
      else if sv_line_levels st \<noteq> [] \<and> length (sv_line_levels st) \<noteq> len
      then Some (d, Inl WrongNumberOfRedirectionEntries)
      else do {
        let levels = (if sv_line_levels st = [] then replicate len False else sv_line_levels st);
        d \<leftarrow> for_each (\<lambda>i. update_irq (irq_restore (sv_redirection_entries st ! i) (levels ! i)) i) [0..<len] d;
        Some (d\<lparr>io_id := sv_id st, io_index := sv_index st\<rparr>, Inr ())
      })"

subsection \<open>Memory-mapped access\<close>

definition ioapic_mmio_read :: "ioapic \<Rightarrow> u64 \<Rightarrow> nat \<Rightarrow> (io_error + u8 list) option" where
  "ioapic_mmio_read d address len = do {
     assert_that (address AND NOT IOAPIC_DEVICE_MMIO_REGION_MASK = IOAPIC_DEVICE_MMIO_REGION_BASE_ADDRESS);
     let reg = address AND IOAPIC_DEVICE_MMIO_REGION_MASK;
     if reg = REG_INDEX \<or> reg = REG_DATA then do {
       v \<leftarrow> (if reg = REG_INDEX then Some (ucast (io_index d)) else ioapic_read_register d (io_index d));
       let n = min len 4;
       assert_that (len = n);
       Some (Inr (take n (le_bytes 4 (v :: u32))))
     }
     else Some (Inl InvalidRegister)
   }"

definition ioapic_mmio_write :: "ioapic \<Rightarrow> u64 \<Rightarrow> u8 list \<Rightarrow> (ioapic \<times> (io_error + unit)) option" where
  "ioapic_mmio_write d address data = do {
     assert_that (address AND NOT IOAPIC_DEVICE_MMIO_REGION_MASK = IOAPIC_DEVICE_MMIO_REGION_BASE_ADDRESS);
     let reg = address AND IOAPIC_DEVICE_MMIO_REGION_MASK;
     if reg = REG_INDEX then do {
       assert_that (data \<noteq> []);
       Some (d\<lparr>io_index := data ! 0\<rparr>, Inr ())
     }
     else if reg = REG_DATA then
       (if length data \<noteq> 4 then Some (d, Inl InvalidAccessSize)
        else do {
          d' \<leftarrow> ioapic_write_register d (io_index d) (of_le_bytes data);
          Some (d', Inr ())
        })
     else Some (d, Inl InvalidRegister)
   }"

subsection \<open>The device as a state machine\<close>

datatype ioapic_event =
    IoApicSetIrq u32 bool
  | IoApicEoi u32
  | IoApicMmioRead u64 nat
  | IoApicMmioWrite u64 "u8 list"
  | IoApicReset
  | IoApicRestore ioapic_saved_state

definition ioapic_step :: "ioapic \<Rightarrow> ioapic_event \<Rightarrow> ioapic option" where
  "ioapic_step d e =
     (case e of
        IoApicSetIrq n high \<Rightarrow> ioapic_set_irq d n high
      | IoApicEoi v \<Rightarrow> ioapic_handle_eoi d v
      | IoApicMmioRead address len \<Rightarrow> map_option (\<lambda>_. d) (ioapic_mmio_read d address len)
      | IoApicMmioWrite address data \<Rightarrow> map_option fst (ioapic_mmio_write d address data)
      | IoApicReset \<Rightarrow> ioapic_reset d
      | IoApicRestore st \<Rightarrow> map_option fst (ioapic_restore d st))"

subsection \<open>Invariant\<close>

text \<open>
  \<open>route_of\<close> reads the route last set for a line from the calls made on the routing object, and
  \<open>asserts_routed\<close> says that every assertion found a route. An entry is \<open>settled\<close> when no
  level-triggered interrupt is waiting to be delivered: if its line is high and it is not masked,
  then the interrupt was delivered and is not yet ended.
\<close>

fun route_of :: "routing_call list \<Rightarrow> u8 \<Rightarrow> (u64 \<times> u32) option" where
  "route_of [] n = None"
| "route_of (SetRoute m r # cs) n = (if m = n then r else route_of cs n)"
| "route_of (RouteAssert m # cs) n = route_of cs n"

fun asserts_routed :: "routing_call list \<Rightarrow> bool" where
  "asserts_routed [] = True"
| "asserts_routed (SetRoute m r # cs) = asserts_routed cs"
| "asserts_routed (RouteAssert m # cs) = (route_of cs m \<noteq> None \<and> asserts_routed cs)"

definition settled :: "irq_entry \<Rightarrow> bool" where
  "settled e \<longleftrightarrow> re_masked (redirection e) \<or> \<not> irq_is_level (redirection e) \<or> \<not> line_level e \<or>
     re_remote_irr (redirection e)"

definition irq_ok :: "irq_entry \<Rightarrow> bool" where
  "irq_ok e \<longleftrightarrow> settled e \<and> registered_request e = as_msi (redirection e)"

definition ioapic_inv :: "ioapic \<Rightarrow> bool" where
  "ioapic_inv d \<longleftrightarrow> 0 < length (io_irqs d) \<and> length (io_irqs d) < 256 \<and>
     length (ioapic_interrupts_per_irq (io_stats d)) = length (io_irqs d) \<and>
     list_all irq_ok (io_irqs d) \<and> asserts_routed (io_routing d) \<and>
     (\<forall>i<length (io_irqs d). route_of (io_routing d) (of_nat i) = registered_request (io_irqs d ! i))"

subsection \<open>One entry\<close>

lemma re_set_remote_irr_simps [simp]:
  "re_remote_irr (re_set_remote_irr b r) = b"
  "re_masked (re_set_remote_irr b r) = re_masked r"
  "irq_is_level (re_set_remote_irr b r) = irq_is_level r"
  "as_msi (re_set_remote_irr b r) = as_msi r"
  "re_vector (re_set_remote_irr b r) = re_vector r"
proof -
  have dm: "re_delivery_mode (re_set_remote_irr b r) = re_delivery_mode r"
    unfolding re_delivery_mode_def re_set_remote_irr_def
    by (rule arg_cong[where f = ucast], rule bit_word_eqI) (auto simp: bit_get_field bit_put_bit)
  have v: "re_vector (re_set_remote_irr b r) = re_vector r"
    unfolding re_vector_def re_set_remote_irr_def
    by (rule arg_cong[where f = ucast], rule bit_word_eqI) (auto simp: bit_get_field bit_put_bit)
  have d: "re_destination (re_set_remote_irr b r) = re_destination r"
    unfolding re_destination_def re_set_remote_irr_def
    by (rule arg_cong[where f = ucast], rule bit_word_eqI) (auto simp: bit_get_field bit_put_bit)
  have x: "re_extended_destination (re_set_remote_irr b r) = re_extended_destination r"
    unfolding re_extended_destination_def re_set_remote_irr_def
    by (rule arg_cong[where f = ucast], rule bit_word_eqI) (auto simp: bit_get_field bit_put_bit)
  show "re_remote_irr (re_set_remote_irr b r) = b"
    "re_masked (re_set_remote_irr b r) = re_masked r"
    "irq_is_level (re_set_remote_irr b r) = irq_is_level r"
    "as_msi (re_set_remote_irr b r) = as_msi r"
    "re_vector (re_set_remote_irr b r) = re_vector r"
    using dm v d x
    by (simp_all add: re_remote_irr_def re_masked_def irq_is_level_def re_trigger_mode_level_def as_msi_def
        re_destination_mode_logical_def re_set_remote_irr_def bit_put_bit)
qed

text \<open>
  Everything an entry operation may do: the entry it leaves is \<open>irq_ok\<close>, the routing calls it makes
  concern line \<open>n\<close> only, and they leave the route that the entry records.
\<close>

definition irq_step_ok :: "u8 \<Rightarrow> routing_call list \<Rightarrow> ioapic_stats \<Rightarrow> irq_effect \<Rightarrow> bool" where
  "irq_step_ok n routing stats r \<longleftrightarrow>
     (case r of (e', routing', stats') \<Rightarrow>
        irq_ok e' \<and> route_of routing' n = registered_request e' \<and> asserts_routed routing' \<and>
        (\<forall>m. m \<noteq> n \<longrightarrow> route_of routing' m = route_of routing m) \<and>
        length (ioapic_interrupts_per_irq stats') = length (ioapic_interrupts_per_irq stats))"

lemma irq_evaluate_ok:
  assumes "unat n < length (ioapic_interrupts_per_irq stats)"
    and "registered_request e = as_msi (redirection e)"
    and "route_of routing n = registered_request e" and "asserts_routed routing"
  shows "\<exists>r. irq_evaluate e routing stats n edge = Some r \<and> irq_step_ok n routing stats r"
proof -
  have "route_of routing n \<noteq> None" if "\<not> re_masked (redirection e)"
    using that assms by (simp add: as_msi_def)
  then show ?thesis using assms
    by (auto simp: irq_evaluate_def irq_step_ok_def irq_ok_def settled_def Let_def)
qed

lemma irq_evaluate_ok':
  assumes "unat n < length (ioapic_interrupts_per_irq stats)"
    and "registered_request e = as_msi (redirection e)" and "asserts_routed routing"
  shows "\<exists>r. irq_evaluate e (SetRoute n (registered_request e) # routing) stats n edge = Some r \<and>
    irq_step_ok n routing stats r"
  using irq_evaluate_ok[OF assms(1,2), of "SetRoute n (registered_request e) # routing" edge] assms(3)
  by (force simp: irq_step_ok_def)

lemma irq_assert_ok:
  assumes "unat n < length (ioapic_interrupts_per_irq stats)" and "irq_ok e"
    and "route_of routing n = registered_request e" and "asserts_routed routing"
  shows "\<exists>r. irq_assert e routing stats n = Some r \<and> irq_step_ok n routing stats r"
  using assms irq_evaluate_ok[of n stats "e\<lparr>line_level := True\<rparr>" routing]
  by (simp add: irq_assert_def irq_ok_def Let_def)

lemma irq_eoi_ok:
  assumes "unat n < length (ioapic_interrupts_per_irq stats)" and "irq_ok e"
    and "route_of routing n = registered_request e" and "asserts_routed routing"
  shows "\<exists>r. irq_eoi e v routing stats n = Some r \<and> irq_step_ok n routing stats r"
proof (cases "ucast (re_vector (redirection e)) = v")
  case True
  then show ?thesis
    using assms irq_evaluate_ok[of n stats "e\<lparr>redirection := re_set_remote_irr False (redirection e)\<rparr>" routing False]
    by (simp add: irq_eoi_def irq_ok_def)
next
  case False
  then show ?thesis using assms by (auto simp: irq_eoi_def irq_step_ok_def)
qed

lemma irq_deassert_ok:
  assumes "irq_ok e" and "route_of routing n = registered_request e" and "asserts_routed routing"
  shows "irq_step_ok n routing stats (irq_deassert e, routing, stats)"
  using assms by (simp add: irq_step_ok_def irq_deassert_def irq_ok_def settled_def)

lemma redirection_write_ok:
  assumes "unat n < length (ioapic_interrupts_per_irq stats)" and "irq_ok e"
    and "route_of routing n = registered_request e" and "asserts_routed routing"
  shows "\<exists>r. redirection_write index val e routing stats n = Some r \<and> irq_step_ok n routing stats r"
proof -
  define r where "r = (if index AND 1 = 1
    then (redirection e AND 0xffffffff) OR (push_bit 32 (ucast val :: u64) AND REDIRECTION_WRITE_MASK)
    else (redirection e AND NOT 0xffffffff) OR ((ucast val :: u64) AND REDIRECTION_WRITE_MASK))"
  have eq: "redirection_write index val e routing stats n =
    (if as_msi r \<noteq> registered_request e
     then irq_evaluate (e\<lparr>redirection := r, registered_request := as_msi r\<rparr>) (SetRoute n (as_msi r) # routing) stats n False
     else irq_evaluate (e\<lparr>redirection := r\<rparr>) routing stats n False)"
    by (simp add: redirection_write_def r_def Let_def)
  show ?thesis
    using irq_evaluate_ok'[of n stats "e\<lparr>redirection := r, registered_request := as_msi r\<rparr>" routing False]
      irq_evaluate_ok[of n stats "e\<lparr>redirection := r\<rparr>" routing False] assms
    by (auto simp: eq)
qed

lemma irq_restore_ok:
  assumes "unat n < length (ioapic_interrupts_per_irq stats)" and "asserts_routed routing"
  shows "\<exists>x. irq_restore r level e routing stats n = Some x \<and> irq_step_ok n routing stats x"
  using irq_evaluate_ok'[of n stats "e\<lparr>redirection := r, line_level := level, registered_request := as_msi r\<rparr>" routing False] assms
  by (simp add: irq_restore_def Let_def)

subsection \<open>Operations of the device\<close>

definition same_config :: "ioapic \<Rightarrow> ioapic \<Rightarrow> bool" where
  "same_config d d' \<longleftrightarrow> length (io_irqs d') = length (io_irqs d) \<and> io_id d' = io_id d \<and> io_index d' = io_index d"

lemma unat_of_nat_u8: "i < 256 \<Longrightarrow> unat (of_nat i :: u8) = i"
  by (simp add: unat_of_nat)

lemma of_nat_u8_eq_iff: "i < 256 \<Longrightarrow> j < 256 \<Longrightarrow> (of_nat i :: u8) = of_nat j \<longleftrightarrow> i = j"
  using unat_of_nat_u8 by metis

text \<open>An entry operation that is fine on every entry in the given state keeps the device invariant.\<close>

lemma update_irq_inv:
  assumes inv: "ioapic_inv d" and i: "i < length (io_irqs d)"
    and f: "\<And>e. e = io_irqs d ! i \<Longrightarrow> unat (of_nat i :: u8) < length (ioapic_interrupts_per_irq (io_stats d)) \<Longrightarrow>
      irq_ok e \<Longrightarrow> route_of (io_routing d) (of_nat i) = registered_request e \<Longrightarrow> asserts_routed (io_routing d) \<Longrightarrow>
      \<exists>r. f e (io_routing d) (io_stats d) (of_nat i) = Some r \<and> irq_step_ok (of_nat i) (io_routing d) (io_stats d) r"
  shows "\<exists>d'. update_irq f i d = Some d' \<and> ioapic_inv d' \<and> same_config d d'"
proof -
  have len: "length (io_irqs d) < 256" and stats: "length (ioapic_interrupts_per_irq (io_stats d)) = length (io_irqs d)"
    and ok: "irq_ok (io_irqs d ! i)" and ro: "asserts_routed (io_routing d)"
    and rt: "\<And>j. j < length (io_irqs d) \<Longrightarrow> route_of (io_routing d) (of_nat j) = registered_request (io_irqs d ! j)"
    using inv i by (auto simp: ioapic_inv_def list_all_length)
  obtain e' routing' stats' where r: "f (io_irqs d ! i) (io_routing d) (io_stats d) (of_nat i) = Some (e', routing', stats')"
    and step: "irq_step_ok (of_nat i) (io_routing d) (io_stats d) (e', routing', stats')"
    using f[OF refl _ ok rt[OF i] ro] i len stats by (auto simp: unat_of_nat_u8)
  have "route_of routing' (of_nat j) = registered_request ((io_irqs d)[i := e'] ! j)"
    if "j < length (io_irqs d)" for j
    using step that rt[OF that] len i of_nat_u8_eq_iff[of j i]
    by (cases "j = i") (simp_all add: irq_step_ok_def)
  moreover have "list_all irq_ok ((io_irqs d)[i := e'])"
    using step inv set_update_subset_insert[of "io_irqs d" i e']
    by (auto simp: ioapic_inv_def list_all_iff irq_step_ok_def)
  ultimately show ?thesis using step inv i r
    by (auto simp: update_irq_def ioapic_inv_def irq_step_ok_def same_config_def)
qed

lemma for_each_irq_inv:
  assumes "ioapic_inv d"
    and "\<And>i d. i < length (io_irqs d) \<Longrightarrow> ioapic_inv d \<Longrightarrow> \<exists>d'. f i d = Some d' \<and> ioapic_inv d' \<and> same_config d d'"
  shows "\<exists>d'. for_each f [0..<length (io_irqs d)] d = Some d' \<and> ioapic_inv d' \<and> same_config d d'"
proof -
  let ?P = "\<lambda>x. ioapic_inv x \<and> same_config d x"
  have "\<exists>t. for_each f [0..<length (io_irqs d)] d = Some t \<and> ?P t"
  proof (rule for_each_inv)
    show "?P d" using assms(1) by (simp add: same_config_def)
    fix i s
    assume "i \<in> set [0..<length (io_irqs d)]" "?P s"
    then show "\<exists>t. f i s = Some t \<and> ?P t"
      using assms(2)[of i s] by (auto simp: same_config_def)
  qed
  then show ?thesis .
qed

lemma ioapic_set_irq_inv:
  assumes "ioapic_inv d"
  shows "\<exists>d'. ioapic_set_irq d n high = Some d' \<and> ioapic_inv d'"
proof (cases "unat n < length (io_irqs d)")
  case True
  show ?thesis
  proof (cases high)
    case True
    then show ?thesis
      using update_irq_inv[OF assms, of "unat n" irq_assert] irq_assert_ok assms by (auto simp: ioapic_set_irq_def)
  next
    case False
    then show ?thesis
      using update_irq_inv[OF assms, of "unat n" "\<lambda>e routing stats _. Some (irq_deassert e, routing, stats)"]
        irq_deassert_ok assms by (auto simp: ioapic_set_irq_def)
  qed
qed (use assms in \<open>simp add: ioapic_set_irq_def\<close>)

lemma ioapic_handle_eoi_inv:
  assumes "ioapic_inv d"
  shows "\<exists>d'. ioapic_handle_eoi d v = Some d' \<and> ioapic_inv d' \<and> same_config d d'"
  unfolding ioapic_handle_eoi_def
  by (rule for_each_irq_inv[OF assms], rule update_irq_inv, assumption, assumption, rule irq_eoi_ok) simp_all

lemma re_masked_init [simp]: "re_masked redirection_entry_init"
  by (simp add: re_masked_def redirection_entry_init_def bit_put_bit)

lemma as_msi_init [simp]: "as_msi redirection_entry_init = None"
  by (simp add: as_msi_def)

lemma ioapic_reset_inv:
  assumes "ioapic_inv d"
  shows "\<exists>d'. ioapic_reset d = Some d' \<and> ioapic_inv d'"
proof -
  let ?d = "d\<lparr>io_id := 0, io_index := INDEX_ID\<rparr>"
  let ?f = "\<lambda>e routing stats n. Some (e\<lparr>redirection := redirection_entry_init, registered_request := None\<rparr>,
      SetRoute n None # routing, stats)"
  have "ioapic_inv ?d" using assms by (simp add: ioapic_inv_def)
  then have "\<exists>d'. for_each (update_irq ?f) [0..<length (io_irqs ?d)] ?d = Some d' \<and> ioapic_inv d' \<and> same_config ?d d'"
    by (rule for_each_irq_inv, intro update_irq_inv) (auto simp: irq_step_ok_def irq_ok_def settled_def)
  then show ?thesis by (auto simp: ioapic_reset_def)
qed

lemma ioapic_restore_inv:
  assumes "ioapic_inv d"
  shows "\<exists>d' r. ioapic_restore d st = Some (d', r) \<and> ioapic_inv d'"
proof -
  let ?levels = "if sv_line_levels st = [] then replicate (length (io_irqs d)) False else sv_line_levels st"
  have "\<exists>d'. for_each (\<lambda>i. update_irq (irq_restore (sv_redirection_entries st ! i) (?levels ! i)) i) [0..<length (io_irqs d)] d
      = Some d' \<and> ioapic_inv d' \<and> same_config d d'"
    by (rule for_each_irq_inv[OF assms], rule update_irq_inv, assumption, assumption, rule irq_restore_ok) simp_all
  then obtain d' where "for_each (\<lambda>i. update_irq (irq_restore (sv_redirection_entries st ! i) (?levels ! i)) i) [0..<length (io_irqs d)] d
      = Some d'" "ioapic_inv d'" by blast
  then show ?thesis using assms by (auto simp: ioapic_restore_def Let_def ioapic_inv_def)
qed

lemma ioapic_write_register_inv:
  assumes "ioapic_inv d" and "index = io_index d"
  shows "\<exists>d'. ioapic_write_register d index val = Some d' \<and> ioapic_inv d'"
proof -
  have id: "ioapic_inv (d\<lparr>io_id := x\<rparr>)" for x using assms by (simp add: ioapic_inv_def)
  have "\<exists>d'. write_redirection_register d i val = Some d' \<and> ioapic_inv d'" for i
    using update_irq_inv[OF assms(1), of "unat i div 2" "redirection_write i val"] redirection_write_ok assms(1)
    by (auto simp: write_redirection_register_def Let_def)
  then show ?thesis using assms id by (simp add: ioapic_write_register_def sub_ck_def)
qed

lemma ioapic_mmio_write_inv:
  assumes "ioapic_inv d" and "data \<noteq> []"
    and "address AND NOT IOAPIC_DEVICE_MMIO_REGION_MASK = IOAPIC_DEVICE_MMIO_REGION_BASE_ADDRESS"
  shows "\<exists>d' r. ioapic_mmio_write d address data = Some (d', r) \<and> ioapic_inv d'"
proof -
  have "ioapic_inv (d\<lparr>io_index := x\<rparr>)" for x using assms(1) by (simp add: ioapic_inv_def)
  then show ?thesis
    using assms ioapic_write_register_inv[OF assms(1) refl, of "of_le_bytes data"]
    by (auto simp: ioapic_mmio_write_def Let_def)
qed

lemma ioapic_mmio_read_some:
  assumes "ioapic_inv d" and "len \<le> 4"
    and "address AND NOT IOAPIC_DEVICE_MMIO_REGION_MASK = IOAPIC_DEVICE_MMIO_REGION_BASE_ADDRESS"
  shows "\<exists>r. ioapic_mmio_read d address len = Some r"
proof -
  have "\<exists>v. ioapic_read_register d (io_index d) = Some v"
    using assms(1) by (auto simp: ioapic_read_register_def sub_ck_def ioapic_inv_def Suc_le_eq)
  then show ?thesis using assms by (auto simp: ioapic_mmio_read_def Let_def)
qed

text \<open>The environment: accesses inside the registered region, of 1 to 4 bytes for reads.\<close>

fun ioapic_allowed :: "ioapic_event \<Rightarrow> bool" where
  "ioapic_allowed (IoApicMmioRead address len) =
     (address AND NOT IOAPIC_DEVICE_MMIO_REGION_MASK = IOAPIC_DEVICE_MMIO_REGION_BASE_ADDRESS \<and> len \<le> 4)"
| "ioapic_allowed (IoApicMmioWrite address data) =
     (address AND NOT IOAPIC_DEVICE_MMIO_REGION_MASK = IOAPIC_DEVICE_MMIO_REGION_BASE_ADDRESS \<and> data \<noteq> [])"
| "ioapic_allowed _ = True"

lemma ioapic_step_inv:
  assumes "ioapic_inv d" and "ioapic_allowed e"
  shows "\<exists>d'. ioapic_step d e = Some d' \<and> ioapic_inv d'"
proof (cases e)
  case (IoApicSetIrq n high)
  then show ?thesis using ioapic_set_irq_inv[OF assms(1)] by (simp add: ioapic_step_def)
next
  case (IoApicEoi v)
  then show ?thesis using ioapic_handle_eoi_inv[OF assms(1), of v] by (auto simp: ioapic_step_def)
next
  case (IoApicMmioRead address len)
  then show ?thesis using ioapic_mmio_read_some[OF assms(1), of len address] assms by (auto simp: ioapic_step_def)
next
  case (IoApicMmioWrite address data)
  then show ?thesis using ioapic_mmio_write_inv[OF assms(1), of data address] assms by (auto simp: ioapic_step_def)
next
  case IoApicReset
  then show ?thesis using ioapic_reset_inv[OF assms(1)] by (simp add: ioapic_step_def)
next
  case (IoApicRestore st)
  then show ?thesis using ioapic_restore_inv[OF assms(1), of st] by (auto simp: ioapic_step_def)
qed

interpretation ioapic_machine: invariant_machine ioapic_step ioapic_allowed ioapic_inv
  by unfold_locales (rule ioapic_step_inv)

lemma ioapic_new_inv:
  assumes "num \<noteq> 0"
  shows "\<exists>d. ioapic_new num = Some d \<and> ioapic_inv d \<and> length (io_irqs d) = unat num"
proof -
  have "0 < unat num" using assms by (simp add: unat_gt_0)
  moreover have "unat num < 256" using unsigned_less[of num] by simp
  moreover have "(1 :: u32) \<le> ucast num"
    using calculation(1) by (simp add: word_le_nat_alt unat_ucast_up)
  ultimately show ?thesis
    by (simp add: ioapic_new_def sub_ck_def ioapic_inv_def irq_ok_def settled_def list_all_length)
qed

subsection \<open>Save and restore\<close>

lemma irq_restore_settled:
  assumes "irq_ok e"
  shows "irq_restore (redirection e) (line_level e) e' routing stats n =
    Some (e, SetRoute n (registered_request e) # routing, stats)"
  using assms by (cases e; cases e') (auto simp: irq_restore_def irq_evaluate_def irq_ok_def settled_def Let_def)

fun is_assert :: "routing_call \<Rightarrow> bool" where
  "is_assert (RouteAssert n) = True"
| "is_assert (SetRoute n r) = False"

lemma restore_loop_eq:
  assumes "list_all irq_ok es" and "length es = length (io_irqs t)" and "k \<le> length es"
  shows "\<exists>routing. for_each (\<lambda>i. update_irq (irq_restore (map redirection es ! i) (map line_level es ! i)) i) [0..<k] t
      = Some (t\<lparr>io_irqs := take k es @ drop k (io_irqs t), io_routing := routing\<rparr>) \<and>
    filter is_assert routing = filter is_assert (io_routing t)"
  using assms(3)
proof (induction k)
  case 0
  show ?case by (intro exI[of _ "io_routing t"]) simp
next
  case (Suc k)
  let ?f = "\<lambda>i. update_irq (irq_restore (map redirection es ! i) (map line_level es ! i)) i"
  from Suc obtain routing where
    IH: "for_each ?f [0..<k] t = Some (t\<lparr>io_irqs := take k es @ drop k (io_irqs t), io_routing := routing\<rparr>)"
    and log: "filter is_assert routing = filter is_assert (io_routing t)" by auto
  let ?e = "es ! k"
  have e: "irq_ok ?e" using assms(1) Suc.prems by (simp add: list_all_length)
  have upd: "(take k es @ drop k (io_irqs t))[k := ?e] = take (Suc k) es @ drop (Suc k) (io_irqs t)"
    using Suc.prems assms(2)
    by (simp add: list_update_append take_Suc_conv_app_nth Cons_nth_drop_Suc[symmetric])
  have "?f k (t\<lparr>io_irqs := take k es @ drop k (io_irqs t), io_routing := routing\<rparr>) =
    Some (t\<lparr>io_irqs := take (Suc k) es @ drop (Suc k) (io_irqs t),
      io_routing := SetRoute (of_nat k) (registered_request ?e) # routing\<rparr>)"
    using Suc.prems assms(2) by (simp add: update_irq_def irq_restore_settled[OF e] upd)
  then show ?case using IH log by (auto simp: for_each_append)
qed

definition ioapic_compatible :: "ioapic \<Rightarrow> ioapic \<Rightarrow> bool" where
  "ioapic_compatible s t \<longleftrightarrow> ioapic_inv t \<and> length (io_irqs t) = length (io_irqs s)"

lemma ioapic_restore_save_eq:
  assumes inv: "ioapic_inv s" and comp: "ioapic_compatible s t"
  shows "\<exists>t'. ioapic_restore t (ioapic_save s) = Some (t', Inr ()) \<and> io_irqs t' = io_irqs s \<and>
    io_id t' = io_id s \<and> io_index t' = io_index s \<and> io_stats t' = io_stats t \<and>
    filter is_assert (io_routing t') = filter is_assert (io_routing t)"
proof -
  have len: "length (io_irqs t) = length (io_irqs s)" "io_irqs s \<noteq> []"
    using inv comp by (auto simp: ioapic_compatible_def ioapic_inv_def)
  have "list_all irq_ok (io_irqs s)" using inv by (simp add: ioapic_inv_def)
  from restore_loop_eq[OF this len(1)[symmetric] order_refl] show ?thesis
    using len by (auto simp: ioapic_restore_def ioapic_save_def Let_def)
qed

interpretation ioapic_sr: save_restore ioapic_save ioapic_restore ioapic_inv ioapic_compatible
proof
  fix s t
  assume inv: "ioapic_inv s" and comp: "ioapic_compatible s t"
  obtain t' where t': "ioapic_restore t (ioapic_save s) = Some (t', Inr ())" "io_irqs t' = io_irqs s"
    "io_id t' = io_id s" "io_index t' = io_index s"
    using ioapic_restore_save_eq[OF inv comp] by blast
  moreover have "ioapic_inv t'"
    using ioapic_restore_inv[of t "ioapic_save s"] comp t'(1) by (simp add: ioapic_compatible_def)
  ultimately show "\<exists>t'. ioapic_restore t (ioapic_save s) = Some (t', Inr ()) \<and> ioapic_save t' = ioapic_save s \<and>
      ioapic_inv t' \<and> (\<forall>u. ioapic_compatible s u \<longrightarrow> ioapic_compatible t' u)"
    by (auto simp: ioapic_save_def ioapic_compatible_def)
qed

subsection \<open>End of interrupt\<close>

text \<open>A level-triggered interrupt whose line is still high when it is ended is delivered again.\<close>

definition redelivers :: "irq_entry \<Rightarrow> bool" where
  "redelivers e \<longleftrightarrow> \<not> re_masked (redirection e) \<and> irq_is_level (redirection e) \<and> line_level e"

definition ended :: "u32 \<Rightarrow> irq_entry \<Rightarrow> irq_entry" where
  "ended v e =
     (if ucast (re_vector (redirection e)) = v
      then e\<lparr>redirection := re_set_remote_irr (redelivers e) (redirection e)\<rparr> else e)"

definition ends :: "u32 \<Rightarrow> irq_entry \<Rightarrow> bool" where
  "ends v e \<longleftrightarrow> ucast (re_vector (redirection e)) = v \<and> redelivers e"

lemma re_set_remote_irr_twice [simp]:
  "re_set_remote_irr b (re_set_remote_irr c r) = re_set_remote_irr b r"
  by (rule bit_word_eqI) (simp add: re_set_remote_irr_def bit_put_bit)

lemma irq_eoi_eq:
  assumes "unat n < length (ioapic_interrupts_per_irq stats)"
  shows "\<exists>stats'. irq_eoi e v routing stats n =
      Some (ended v e, (if ends v e then [RouteAssert n] else []) @ routing, stats') \<and>
    length (ioapic_interrupts_per_irq stats') = length (ioapic_interrupts_per_irq stats)"
  using assms
  by (auto simp: irq_eoi_def irq_evaluate_def ended_def ends_def redelivers_def Let_def)

lemma eoi_loop_eq:
  assumes "length (io_irqs d) < 256" and "length (ioapic_interrupts_per_irq (io_stats d)) = length (io_irqs d)"
    and "k \<le> length (io_irqs d)"
  shows "\<exists>stats. for_each (update_irq (\<lambda>e routing stats n. irq_eoi e v routing stats n)) [0..<k] d =
      Some (d\<lparr>io_irqs := map (ended v) (take k (io_irqs d)) @ drop k (io_irqs d),
              io_routing := rev (map (\<lambda>i. RouteAssert (of_nat i)) (filter (\<lambda>i. ends v (io_irqs d ! i)) [0..<k])) @ io_routing d,
              io_stats := stats\<rparr>) \<and>
    length (ioapic_interrupts_per_irq stats) = length (io_irqs d)"
  using assms(3)
proof (induction k)
  case 0
  show ?case using assms(2) by (intro exI[of _ "io_stats d"]) simp
next
  case (Suc k)
  let ?f = "update_irq (\<lambda>e routing stats n. irq_eoi e v routing stats n)"
  let ?log = "\<lambda>k. rev (map (\<lambda>i. RouteAssert (of_nat i)) (filter (\<lambda>i. ends v (io_irqs d ! i)) [0..<k])) @ io_routing d"
  let ?d = "\<lambda>k stats. d\<lparr>io_irqs := map (ended v) (take k (io_irqs d)) @ drop k (io_irqs d),
      io_routing := ?log k, io_stats := stats\<rparr>"
  from Suc obtain stats where IH: "for_each ?f [0..<k] d = Some (?d k stats)"
    and st: "length (ioapic_interrupts_per_irq stats) = length (io_irqs d)" by auto
  have k: "k < length (io_irqs d)" using Suc.prems by simp
  then have "unat (of_nat k :: u8) < length (ioapic_interrupts_per_irq stats)"
    using assms(1) st by (simp add: unat_of_nat_u8)
  from irq_eoi_eq[OF this, of "io_irqs d ! k" v "?log k"] obtain stats' where
    eoi: "irq_eoi (io_irqs d ! k) v (?log k) stats (of_nat k) =
        Some (ended v (io_irqs d ! k), (if ends v (io_irqs d ! k) then [RouteAssert (of_nat k)] else []) @ ?log k, stats')"
    and st': "length (ioapic_interrupts_per_irq stats') = length (io_irqs d)" using st by auto
  have upd: "(map (ended v) (take k (io_irqs d)) @ drop k (io_irqs d))[k := ended v (io_irqs d ! k)] =
      map (ended v) (take (Suc k) (io_irqs d)) @ drop (Suc k) (io_irqs d)"
    using k by (simp add: list_update_append take_Suc_conv_app_nth Cons_nth_drop_Suc[symmetric])
  have "?f k (?d k stats) = Some (?d (Suc k) stats')"
    using k eoi by (simp add: update_irq_def nth_append upd)
  then show ?case using IH st' by (auto simp: for_each_append)
qed

subsection \<open>Properties\<close>

text \<open>C10. No level-triggered interrupt is lost: from power-on with any number of entries, every sequence
  of line changes, ends of interrupt, register accesses of the supported sizes, resets and restores
  runs without a panic, and in the state it reaches every unmasked level-triggered line that is high
  has an interrupt delivered and not yet ended; every interrupt ever asserted had a route set.\<close>

theorem ioapic_level_interrupts_delivered:
  assumes "num \<noteq> 0" and "list_all ioapic_allowed es"
  shows "\<exists>d0 d. ioapic_new num = Some d0 \<and> run_steps ioapic_step d0 es = Some d \<and>
    asserts_routed (io_routing d) \<and> length (io_irqs d) < 256 \<and>
    (\<forall>e \<in> set (io_irqs d). \<not> re_masked (redirection e) \<longrightarrow> irq_is_level (redirection e) \<longrightarrow> line_level e \<longrightarrow>
       re_remote_irr (redirection e))"
proof -
  obtain d0 where d0: "ioapic_new num = Some d0" "ioapic_inv d0" using ioapic_new_inv[OF assms(1)] by blast
  obtain d where "run_steps ioapic_step d0 es = Some d" "ioapic_inv d"
    using ioapic_machine.run_inv[OF d0(2) assms(2)] by blast
  with d0(1) show ?thesis by (auto simp: ioapic_inv_def list_all_iff irq_ok_def settled_def)
qed

theorem ioapic_level_interrupts_delivered_witness:
  "\<exists>d0 d. ioapic_new 24 = Some d0 \<and>
     run_steps ioapic_step d0 [IoApicMmioWrite 0xfec00000 [0x12], IoApicMmioWrite 0xfec00010 [0x31, 0x80, 0, 0],
       IoApicSetIrq 1 True, IoApicEoi 0x31] = Some d \<and> asserts_routed (io_routing d)"
proof -
  have "list_all ioapic_allowed [IoApicMmioWrite 0xfec00000 [0x12], IoApicMmioWrite 0xfec00010 [0x31, 0x80, 0, 0],
       IoApicSetIrq 1 True, IoApicEoi 0x31]"
    by (simp add: ioapic_consts)
  from ioapic_level_interrupts_delivered [OF _ this, of 24] show ?thesis by auto
qed

text \<open>C21. An end of interrupt concerns exactly the entries with that vector: each of them loses its
  remote IRR bit unless its line is still high, level-triggered and unmasked, in which case the
  interrupt is asserted again, in table order; every other entry is unchanged.\<close>

theorem ioapic_eoi_redelivers:
  assumes "ioapic_inv d"
  shows "\<exists>d'. ioapic_handle_eoi d v = Some d' \<and> io_irqs d' = map (ended v) (io_irqs d) \<and>
    io_routing d' = rev (map (\<lambda>i. RouteAssert (of_nat i)) (filter (\<lambda>i. ends v (io_irqs d ! i)) [0..<length (io_irqs d)]))
      @ io_routing d"
  using eoi_loop_eq[of d "length (io_irqs d)" v] assms
  by (auto simp: ioapic_handle_eoi_def ioapic_inv_def)

theorem ioapic_eoi_redelivers_witness:
  "\<exists>d d'. ioapic_new 24 = Some d \<and> ioapic_handle_eoi d 0x31 = Some d' \<and> io_irqs d' = map (ended 0x31) (io_irqs d)"
proof -
  obtain d where "ioapic_new 24 = Some d" "ioapic_inv d" using ioapic_new_inv[of 24] by auto
  with ioapic_eoi_redelivers [of d "0x31"] show ?thesis by blast
qed

text \<open>C22. Restoring the saved state of a device on any device with as many entries succeeds, gives it
  the same redirection table, line levels and registers, and delivers no interrupt.\<close>

theorem ioapic_restore_exact:
  assumes "ioapic_inv s" and "ioapic_inv t" and "length (io_irqs t) = length (io_irqs s)"
  shows "\<exists>t'. ioapic_restore t (ioapic_save s) = Some (t', Inr ()) \<and> io_irqs t' = io_irqs s \<and>
    io_id t' = io_id s \<and> io_index t' = io_index s \<and> ioapic_inv t' \<and>
    filter is_assert (io_routing t') = filter is_assert (io_routing t)"
proof -
  have comp: "ioapic_compatible s t" using assms by (simp add: ioapic_compatible_def)
  then show ?thesis
    using ioapic_restore_save_eq[OF assms(1) comp] ioapic_restore_inv[OF assms(2), of "ioapic_save s"] by fastforce
qed

theorem ioapic_restore_exact_witness:
  "\<exists>s t'. ioapic_new 24 = Some s \<and> ioapic_restore s (ioapic_save s) = Some (t', Inr ()) \<and> io_irqs t' = io_irqs s"
proof -
  obtain d where "ioapic_new 24 = Some d" "ioapic_inv d" using ioapic_new_inv[of 24] by auto
  with ioapic_restore_exact [of d d] show ?thesis by blast
qed


end
