(* ===== verification/PagePool.thy ===== *)
theory PagePool
  imports MemoryRange "HOL-Library.Multiset"
begin

text \<open>
  The page allocator, \<open>vm/page_pool_alloc/src/lib.rs\<close>: the slots of a \<open>PagePool\<close>, the
  allocators (device ids) and the handles it gives out, and its save/restore.

  Page numbers, page counts and mapping offsets are natural numbers; \<open>u64_add\<close> and \<open>u64_mul\<close>
  are \<open>None\<close> where the 64-bit operation of the source overflows. The shared state behind the
  \<open>Arc<Mutex<..>>\<close> is the record that every operation takes and returns; a handle or an
  allocator is the data it carries. The operating-system mapping is a parameter of \<open>pool_new\<close>
  (whether the reservation and each file mapping succeed), and \<open>Inspect\<close> is left out.
\<close>

subsection \<open>State\<close>

definition u64_add :: "nat \<Rightarrow> nat \<Rightarrow> nat option" where
  "u64_add a b = (if a + b < 2 ^ 64 then Some (a + b) else None)"

definition u64_mul :: "nat \<Rightarrow> nat \<Rightarrow> nat option" where
  "u64_mul a b = (if a * b < 2 ^ 64 then Some (a * b) else None)"

definition POOL_PAGE_SIZE :: nat where "POOL_PAGE_SIZE = 4096"

datatype slot_state =
    SlotFree
  | SlotAllocated (slot_device: nat) (slot_tag: string)
  | SlotAllocatedPendingRestore (pending_device: string) (slot_tag: string)
  | SlotLeaked (pending_device: string) (slot_tag: string)

record slot =
  sl_base_pfn :: nat
  sl_mapping_offset :: nat
  sl_size_pages :: nat
  sl_state :: slot_state

datatype device_id = DevUsed string | DevUnassigned string

fun device_name :: "device_id \<Rightarrow> string" where
  "device_name (DevUsed name) = name"
| "device_name (DevUnassigned name) = name"

record page_pool =
  pp_slots :: "slot list"
  pp_device_ids :: "device_id list"
  pp_pfn_bias :: nat
  pp_mapping_len :: nat
  pp_ranges :: "memory_range list"

record pool_handle =
  ph_base_pfn :: nat
  ph_size_pages :: nat
  ph_mapping_offset :: nat

datatype pool_error = PagePoolOutOfMemory nat string | NoMatchingAllocation
datatype pool_new_error = ReserveFailed | MapFailed
datatype unrestored_allocations = UnrestoredAllocations

text \<open>\<open>Iterator::position\<close> and \<open>Vec::swap_remove\<close>.\<close>

fun position :: "('a \<Rightarrow> bool) \<Rightarrow> 'a list \<Rightarrow> nat option" where
  "position P [] = None"
| "position P (x # xs) = (if P x then Some 0 else map_option Suc (position P xs))"

definition swap_remove :: "nat \<Rightarrow> 'a list \<Rightarrow> 'a list" where
  "swap_remove i xs = (if Suc i = length xs then butlast xs else (butlast xs)[i := last xs])"

subsection \<open>Creating a pool\<close>

fun pool_new_slots :: "nat \<Rightarrow> memory_range list \<Rightarrow> (slot list \<times> nat) option" where
  "pool_new_slots off [] = Some ([], off)"
| "pool_new_slots off (r # rs) = do {
     len \<leftarrow> mr_len r;
     off' \<leftarrow> u64_add off (unat len);
     (slots, total) \<leftarrow> pool_new_slots off' rs;
     Some (\<lparr>sl_base_pfn = unat (mr_start r) div POOL_PAGE_SIZE, sl_mapping_offset = off,
            sl_size_pages = unat len div POOL_PAGE_SIZE, sl_state = SlotFree\<rparr> # slots, total)
   }"

fun pool_map_ranges ::
  "(nat \<Rightarrow> nat \<Rightarrow> u64 \<Rightarrow> bool) \<Rightarrow> (u64 \<Rightarrow> u64) \<Rightarrow> nat \<Rightarrow> memory_range list \<Rightarrow> (pool_new_error + nat) option" where
  "pool_map_ranges map_file file_offset off [] = Some (Inr off)"
| "pool_map_ranges map_file file_offset off (r # rs) = do {
     len \<leftarrow> mr_len r;
     if map_file off (unat len) (file_offset (mr_start r)) then do {
       off' \<leftarrow> u64_add off (unat len);
       pool_map_ranges map_file file_offset off' rs
     }
     else Some (Inl MapFailed)
   }"

definition pool_new ::
  "(nat \<Rightarrow> bool) \<Rightarrow> (nat \<Rightarrow> nat \<Rightarrow> u64 \<Rightarrow> bool) \<Rightarrow> (u64 \<Rightarrow> u64) \<Rightarrow> u64 \<Rightarrow> memory_range list \<Rightarrow>
     (pool_new_error + page_pool) option" where
  "pool_new reserve map_file file_offset address_bias ranges = do {
     (slots, total_len) \<leftarrow> pool_new_slots 0 ranges;
     if \<not> reserve total_len then Some (Inl ReserveFailed)
     else do {
       r \<leftarrow> pool_map_ranges map_file file_offset 0 ranges;
       (case r of
          Inl e \<Rightarrow> Some (Inl e)
        | Inr off \<Rightarrow> do {
            assert_that (off = total_len);
            Some (Inr \<lparr>pp_slots = slots, pp_device_ids = [],
                       pp_pfn_bias = unat address_bias div POOL_PAGE_SIZE,
                       pp_mapping_len = total_len, pp_ranges = ranges\<rparr>)
          })
     }
   }"

subsection \<open>Allocators\<close>

definition allocator_new :: "page_pool \<Rightarrow> string \<Rightarrow> page_pool \<times> (string + nat)" where
  "allocator_new p name =
     (case position (\<lambda>d. device_name d = name) (pp_device_ids p) of
        Some index \<Rightarrow>
          (case pp_device_ids p ! index of
             DevUnassigned _ \<Rightarrow> (p\<lparr>pp_device_ids := (pp_device_ids p)[index := DevUsed name]\<rparr>, Inr index)
           | DevUsed _ \<Rightarrow> (p, Inl name))
      | None \<Rightarrow>
          (p\<lparr>pp_device_ids := pp_device_ids p @ [DevUsed name]\<rparr>, Inr (length (pp_device_ids p))))"

definition allocator_drop :: "page_pool \<Rightarrow> nat \<Rightarrow> page_pool option" where
  "allocator_drop p dev = do {
     assert_that (dev < length (pp_device_ids p));
     let prev = pp_device_ids p ! dev;
     assert_that (case prev of DevUsed _ \<Rightarrow> True | DevUnassigned _ \<Rightarrow> False);
     Some (p\<lparr>pp_device_ids := (pp_device_ids p)[dev := DevUnassigned (device_name prev)]\<rparr>)
   }"

subsection \<open>Allocating and freeing\<close>

definition pool_alloc ::
  "page_pool \<Rightarrow> nat \<Rightarrow> nat \<Rightarrow> string \<Rightarrow> (page_pool \<times> (pool_error + pool_handle)) option" where
  "pool_alloc p dev size_pages tag =
     (case position (\<lambda>s. sl_state s = SlotFree \<and> sl_size_pages s \<ge> size_pages) (pp_slots p) of
        None \<Rightarrow> Some (p, Inl (PagePoolOutOfMemory size_pages tag))
      | Some index \<Rightarrow> do {
          let s = pp_slots p ! index;
          let slots = swap_remove index (pp_slots p);
          let allocation = s\<lparr>sl_size_pages := size_pages, sl_state := SlotAllocated dev tag\<rparr>;
          free \<leftarrow>
            (if sl_size_pages s > size_pages then do {
               base \<leftarrow> u64_add (sl_base_pfn s) size_pages;
               bytes \<leftarrow> u64_mul size_pages POOL_PAGE_SIZE;
               off \<leftarrow> u64_add (sl_mapping_offset s) bytes;
               Some [\<lparr>sl_base_pfn = base, sl_mapping_offset = off,
                      sl_size_pages = sl_size_pages s - size_pages, sl_state = SlotFree\<rparr>]
             }
             else Some []);
          assert_that (sl_mapping_offset s mod POOL_PAGE_SIZE = 0);
          Some (p\<lparr>pp_slots := slots @ [allocation] @ free\<rparr>,
                Inr \<lparr>ph_base_pfn = sl_base_pfn s, ph_size_pages = size_pages,
                     ph_mapping_offset = sl_mapping_offset s\<rparr>)
        })"

fun is_allocated :: "slot_state \<Rightarrow> bool" where
  "is_allocated (SlotAllocated _ _) = True"
| "is_allocated _ = False"

definition handle_drop :: "page_pool \<Rightarrow> pool_handle \<Rightarrow> page_pool option" where
  "handle_drop p h = do {
     i \<leftarrow> position (\<lambda>s. is_allocated (sl_state s) \<and> sl_base_pfn s = ph_base_pfn h \<and>
                        sl_size_pages s = ph_size_pages h) (pp_slots p);
     let s = pp_slots p ! i;
     assert_that (sl_mapping_offset s = ph_mapping_offset h);
     Some (p\<lparr>pp_slots := (pp_slots p)[i := s\<lparr>sl_state := SlotFree\<rparr>]\<rparr>)
   }"

definition handle_base_pfn :: "page_pool \<Rightarrow> pool_handle \<Rightarrow> nat option" where
  "handle_base_pfn p h = u64_add (ph_base_pfn h) (pp_pfn_bias p)"

definition handle_mapping :: "page_pool \<Rightarrow> pool_handle \<Rightarrow> (nat \<times> nat) option" where
  "handle_mapping p h = do {
     len \<leftarrow> u64_mul (ph_size_pages h) POOL_PAGE_SIZE;
     stop \<leftarrow> u64_add (ph_mapping_offset h) len;
     assert_that (stop \<le> pp_mapping_len p);
     Some (ph_mapping_offset h, len)
   }"

definition allocate_dma_buffer ::
  "page_pool \<Rightarrow> nat \<Rightarrow> nat \<Rightarrow> (page_pool \<times> (string + pool_handle)) option" where
  "allocate_dma_buffer p dev len =
     (if len mod POOL_PAGE_SIZE \<noteq> 0 then Some (p, Inl ''not a page-size multiple'')
      else if len div POOL_PAGE_SIZE = 0 then Some (p, Inl ''allocation of size 0 not supported'')
      else do {
        (p', r) \<leftarrow> pool_alloc p dev (len div POOL_PAGE_SIZE) ''vfio dma'';
        (case r of
           Inl _ \<Rightarrow> Some (p', Inl ''failed to allocate shared mem'')
         | Inr h \<Rightarrow> do {
             _ \<leftarrow> handle_mapping p' h;
             base \<leftarrow> handle_base_pfn p' h;
             _ \<leftarrow> u64_add base (ph_size_pages h);
             Some (p', Inr h)
           })
      })"

subsection \<open>Save and restore\<close>

datatype inner_slot_state = InnerFree | InnerAllocated string string | InnerLeaked string string

record slot_saved_state =
  ss_base_pfn :: nat
  ss_size_pages :: nat
  ss_state :: inner_slot_state

record page_pool_state =
  ps_state :: "slot_saved_state list"
  ps_ranges :: "memory_range list"

datatype pool_restore_error = PoolRangesDoNotMatch | ExistingAllocators | MissingSlots

definition slot_save :: "device_id list \<Rightarrow> slot \<Rightarrow> slot_saved_state option" where
  "slot_save devs s = do {
     st \<leftarrow> (case sl_state s of
              SlotFree \<Rightarrow> Some InnerFree
            | SlotAllocated d tag \<Rightarrow> do {
                assert_that (d < length devs);
                Some (InnerAllocated (device_name (devs ! d)) tag)
              }
            | SlotLeaked d tag \<Rightarrow> Some (InnerLeaked d tag)
            | SlotAllocatedPendingRestore _ _ \<Rightarrow> None);
     Some \<lparr>ss_base_pfn = sl_base_pfn s, ss_size_pages = sl_size_pages s, ss_state = st\<rparr>
   }"

fun slots_save :: "device_id list \<Rightarrow> slot list \<Rightarrow> slot_saved_state list option" where
  "slots_save devs [] = Some []"
| "slots_save devs (s # ss) = do { x \<leftarrow> slot_save devs s; xs \<leftarrow> slots_save devs ss; Some (x # xs) }"

definition pool_save :: "page_pool \<Rightarrow> page_pool_state option" where
  "pool_save p = do {
     st \<leftarrow> slots_save (pp_device_ids p) (pp_slots p);
     Some \<lparr>ps_state = st, ps_ranges = pp_ranges p\<rparr>
   }"

fun slots_restore :: "nat \<Rightarrow> slot_saved_state list \<Rightarrow> (slot list \<times> nat) option" where
  "slots_restore off [] = Some ([], off)"
| "slots_restore off (x # xs) = do {
     let st = (case ss_state x of
                 InnerFree \<Rightarrow> SlotFree
               | InnerAllocated d tag \<Rightarrow> SlotAllocatedPendingRestore d tag
               | InnerLeaked d tag \<Rightarrow> SlotLeaked d tag);
     bytes \<leftarrow> u64_mul (ss_size_pages x) POOL_PAGE_SIZE;
     off' \<leftarrow> u64_add off bytes;
     (slots, total) \<leftarrow> slots_restore off' xs;
     Some (\<lparr>sl_base_pfn = ss_base_pfn x, sl_mapping_offset = off, sl_size_pages = ss_size_pages x,
            sl_state = st\<rparr> # slots, total)
   }"

definition pool_restore ::
  "page_pool \<Rightarrow> page_pool_state \<Rightarrow> (page_pool \<times> (pool_restore_error + unit)) option" where
  "pool_restore p st =
     (if list_ex (\<lambda>(current, saved). current \<noteq> saved) (zip (pp_ranges p) (ps_ranges st))
      then Some (p, Inl PoolRangesDoNotMatch)
      else if pp_device_ids p \<noteq> [] then Some (p, Inl ExistingAllocators)
      else do {
        (slots, mapping_offset) \<leftarrow> slots_restore 0 (sort_key ss_base_pfn (ps_state st));
        let p = p\<lparr>pp_slots := slots\<rparr>;
        Some (p, if mapping_offset \<noteq> pp_mapping_len p then Inl MissingSlots else Inr ())
      })"

definition restore_allocated :: "slot_state \<Rightarrow> nat \<Rightarrow> slot_state option" where
  "restore_allocated st dev =
     (case st of
        SlotAllocatedPendingRestore _ tag \<Rightarrow> Some (SlotAllocated dev tag)
      | _ \<Rightarrow> None)"

fun pending_for :: "string \<Rightarrow> slot_state \<Rightarrow> bool" where
  "pending_for name (SlotAllocatedPendingRestore d _) = (d = name)"
| "pending_for name _ = False"

definition restore_alloc ::
  "page_pool \<Rightarrow> nat \<Rightarrow> nat \<Rightarrow> nat \<Rightarrow> (page_pool \<times> (pool_error + pool_handle)) option" where
  "restore_alloc p dev base n = do {
     assert_that (dev < length (pp_device_ids p));
     (case position (\<lambda>s. pending_for (device_name (pp_device_ids p ! dev)) (sl_state s) \<and>
                         sl_base_pfn s = base \<and> sl_size_pages s = n) (pp_slots p) of
        None \<Rightarrow> Some (p, Inl NoMatchingAllocation)
      | Some i \<Rightarrow> do {
          let s = pp_slots p ! i;
          st \<leftarrow> restore_allocated (sl_state s) dev;
          assert_that (sl_mapping_offset s mod POOL_PAGE_SIZE = 0);
          Some (p\<lparr>pp_slots := (pp_slots p)[i := s\<lparr>sl_state := st\<rparr>]\<rparr>,
                Inr \<lparr>ph_base_pfn = base, ph_size_pages = n, ph_mapping_offset = sl_mapping_offset s\<rparr>)
        })
   }"

fun restore_pending_slots :: "string \<Rightarrow> nat \<Rightarrow> slot list \<Rightarrow> (slot list \<times> pool_handle list) option" where
  "restore_pending_slots name dev [] = Some ([], [])"
| "restore_pending_slots name dev (s # ss) =
     (if pending_for name (sl_state s) then do {
        st \<leftarrow> restore_allocated (sl_state s) dev;
        (ss', hs) \<leftarrow> restore_pending_slots name dev ss;
        Some (s\<lparr>sl_state := st\<rparr> # ss',
              \<lparr>ph_base_pfn = sl_base_pfn s, ph_size_pages = sl_size_pages s,
               ph_mapping_offset = sl_mapping_offset s\<rparr> # hs)
      }
      else do {
        (ss', hs) \<leftarrow> restore_pending_slots name dev ss;
        Some (s # ss', hs)
      })"

definition restore_pending_allocs :: "page_pool \<Rightarrow> nat \<Rightarrow> (page_pool \<times> pool_handle list) option" where
  "restore_pending_allocs p dev = do {
     assert_that (dev < length (pp_device_ids p));
     (slots, hs) \<leftarrow> restore_pending_slots (device_name (pp_device_ids p ! dev)) dev (pp_slots p);
     Some (p\<lparr>pp_slots := slots\<rparr>, hs)
   }"

fun leak_slot :: "slot_state \<Rightarrow> slot_state" where
  "leak_slot (SlotAllocatedPendingRestore d tag) = SlotLeaked d tag"
| "leak_slot st = st"

fun is_pending :: "slot_state \<Rightarrow> bool" where
  "is_pending (SlotAllocatedPendingRestore _ _) = True"
| "is_pending _ = False"

definition validate_restore :: "page_pool \<Rightarrow> bool \<Rightarrow> page_pool \<times> (unrestored_allocations + unit)" where
  "validate_restore p leak_unrestored =
     (let unrestored = list_ex (\<lambda>s. is_pending (sl_state s)) (pp_slots p);
          p' = (if leak_unrestored
                then p\<lparr>pp_slots := map (\<lambda>s. s\<lparr>sl_state := leak_slot (sl_state s)\<rparr>) (pp_slots p)\<rparr>
                else p)
      in (p', if unrestored \<and> \<not> leak_unrestored then Inl UnrestoredAllocations else Inr ()))"

subsection \<open>The pool and its clients\<close>

text \<open>
  The clients hold allocators (by device id) and handles. A client operation goes through an
  allocator it holds, and a handle is dropped once.
\<close>

record pool_system =
  sys_pool :: page_pool
  sys_allocators :: "nat list"
  sys_handles :: "pool_handle list"

fun new_handles :: "pool_error + pool_handle \<Rightarrow> pool_handle list" where
  "new_handles (Inl e) = []"
| "new_handles (Inr h) = [h]"

datatype pool_event =
    PoolNewAllocator string
  | PoolDropAllocator nat
  | PoolAlloc nat nat string
  | PoolDropHandle nat
  | PoolRestoreAlloc nat nat nat
  | PoolRestorePending nat
  | PoolValidateRestore bool

definition pool_step :: "pool_system \<Rightarrow> pool_event \<Rightarrow> pool_system option" where
  "pool_step s e =
     (case e of
        PoolNewAllocator name \<Rightarrow>
          (case allocator_new (sys_pool s) name of
             (p, Inl _) \<Rightarrow> Some (s\<lparr>sys_pool := p\<rparr>)
           | (p, Inr d) \<Rightarrow> Some (s\<lparr>sys_pool := p, sys_allocators := d # sys_allocators s\<rparr>))
      | PoolDropAllocator k \<Rightarrow>
          (if k < length (sys_allocators s) then do {
             p \<leftarrow> allocator_drop (sys_pool s) (sys_allocators s ! k);
             Some (s\<lparr>sys_pool := p, sys_allocators := take k (sys_allocators s) @ drop (Suc k) (sys_allocators s)\<rparr>)
           } else Some s)
      | PoolAlloc k n tag \<Rightarrow>
          (if k < length (sys_allocators s) \<and> n > 0 then do {
             (p, r) \<leftarrow> pool_alloc (sys_pool s) (sys_allocators s ! k) n tag;
             Some (s\<lparr>sys_pool := p, sys_handles := new_handles r @ sys_handles s\<rparr>)
           } else Some s)
      | PoolDropHandle k \<Rightarrow>
          (if k < length (sys_handles s) then do {
             p \<leftarrow> handle_drop (sys_pool s) (sys_handles s ! k);
             Some (s\<lparr>sys_pool := p, sys_handles := take k (sys_handles s) @ drop (Suc k) (sys_handles s)\<rparr>)
           } else Some s)
      | PoolRestoreAlloc k base n \<Rightarrow>
          (if k < length (sys_allocators s) \<and> n > 0 then do {
             (p, r) \<leftarrow> restore_alloc (sys_pool s) (sys_allocators s ! k) base n;
             Some (s\<lparr>sys_pool := p, sys_handles := new_handles r @ sys_handles s\<rparr>)
           } else Some s)
      | PoolRestorePending k \<Rightarrow>
          (if k < length (sys_allocators s) then do {
             (p, hs) \<leftarrow> restore_pending_allocs (sys_pool s) (sys_allocators s ! k);
             Some (s\<lparr>sys_pool := p, sys_handles := hs @ sys_handles s\<rparr>)
           } else Some s)
      | PoolValidateRestore leak \<Rightarrow> Some (s\<lparr>sys_pool := fst (validate_restore (sys_pool s) leak)\<rparr>))"

subsection \<open>Lists\<close>

lemma position_eq_Some:
  "position P xs = Some i \<Longrightarrow> i < length xs \<and> P (xs ! i) \<and> (\<forall>j<i. \<not> P (xs ! j))"
proof (induction xs arbitrary: i)
  case (Cons x xs)
  then show ?case by (auto split: if_splits simp: less_Suc_eq_0_disj)
qed simp

lemma position_eq_None: "position P xs = None \<longleftrightarrow> (\<forall>x \<in> set xs. \<not> P x)"
  by (induction xs) auto

lemma position_ex: "x \<in> set xs \<Longrightarrow> P x \<Longrightarrow> \<exists>i. position P xs = Some i"
  using position_eq_None[of P xs] by fastforce

lemma mset_swap_remove:
  assumes "i < length xs"
  shows "mset (swap_remove i xs) = mset xs - {#xs ! i#}"
proof (cases "Suc i = length xs")
  case True
  then have "xs ! i = last xs" by (metis diff_Suc_1 last_conv_nth length_0_conv nat.simps(3))
  moreover have "mset xs = add_mset (last xs) (mset (butlast xs))"
    using assms by (metis add_mset_add_single append_butlast_last_id length_0_conv mset_append mset_single_iff not_less0 mset.simps)
  ultimately show ?thesis using True by (simp add: swap_remove_def)
next
  case False
  then have i: "i < length (butlast xs)" using assms by simp
  then have nth: "butlast xs ! i = xs ! i" by (simp add: nth_butlast)
  have "xs = butlast xs @ [last xs]" using assms by (metis append_butlast_last_id length_0_conv not_less0)
  then have "mset xs = add_mset (last xs) (mset (butlast xs))" by (metis mset_append add_mset_add_single mset.simps)
  moreover have "xs ! i \<in># mset (butlast xs)" using i nth nth_mem[OF i] by simp
  ultimately show ?thesis
    using False i nth by (simp add: swap_remove_def mset_update)
qed

lemma mset_remove_nth: "i < length xs \<Longrightarrow> mset (take i xs @ drop (Suc i) xs) = mset xs - {#xs ! i#}"
proof -
  assume i: "i < length xs"
  have "mset xs = mset (take i xs @ xs ! i # drop (Suc i) xs)" using id_take_nth_drop[OF i] by simp
  then show ?thesis by simp
qed

subsection \<open>Pages and mapping offsets\<close>

definition slot_covers :: "nat \<Rightarrow> slot \<Rightarrow> bool" where
  "slot_covers q s \<longleftrightarrow> sl_base_pfn s \<le> q \<and> q < sl_base_pfn s + sl_size_pages s"

definition range_covers :: "nat \<Rightarrow> memory_range \<Rightarrow> bool" where
  "range_covers q r \<longleftrightarrow> unat (mr_start r) div 4096 \<le> q \<and> q < unat (mr_end r) div 4096"

definition handle_covers :: "nat \<Rightarrow> pool_handle \<Rightarrow> bool" where
  "handle_covers q h \<longleftrightarrow> ph_base_pfn h \<le> q \<and> q < ph_base_pfn h + ph_size_pages h"

text \<open>The offset in the mapping at which \<open>pool_new\<close> maps page \<open>q\<close>, and the size of the mapping.\<close>

fun page_offset :: "nat \<Rightarrow> memory_range list \<Rightarrow> nat \<Rightarrow> nat" where
  "page_offset off [] q = off"
| "page_offset off (r # rs) q =
     (if range_covers q r then off + (q - unat (mr_start r) div 4096) * 4096
      else page_offset (off + (unat (mr_end r) - unat (mr_start r))) rs q)"

definition ranges_bytes :: "memory_range list \<Rightarrow> nat" where
  "ranges_bytes rs = (\<Sum>r\<leftarrow>rs. unat (mr_end r) - unat (mr_start r))"

text \<open>Ranges a pool can be built from: well-formed, not empty, disjoint, and mappable as a whole.\<close>

definition ranges_ok :: "memory_range list \<Rightarrow> bool" where
  "ranges_ok rs \<longleftrightarrow> (\<forall>r \<in> set rs. mr_wf r \<and> mr_start r < mr_end r) \<and> ranges_bytes rs < 2 ^ 64 \<and>
     (\<forall>q. length (filter (range_covers q) rs) \<le> 1)"

definition slot_ok :: "memory_range list \<Rightarrow> nat \<Rightarrow> slot \<Rightarrow> bool" where
  "slot_ok rs ndevs s \<longleftrightarrow> 0 < sl_size_pages s \<and> sl_base_pfn s + sl_size_pages s \<le> 2 ^ 52 \<and>
     sl_mapping_offset s mod 4096 = 0 \<and> sl_mapping_offset s + sl_size_pages s * 4096 \<le> ranges_bytes rs \<and>
     (\<forall>q. slot_covers q s \<longrightarrow> sl_mapping_offset s + (q - sl_base_pfn s) * 4096 = page_offset 0 rs q) \<and>
     (case sl_state s of SlotAllocated d _ \<Rightarrow> d < ndevs | _ \<Rightarrow> True)"

definition cover_count :: "slot multiset \<Rightarrow> nat \<Rightarrow> nat" where
  "cover_count M q = size (filter_mset (slot_covers q) M)"

definition pool_inv :: "page_pool \<Rightarrow> bool" where
  "pool_inv p \<longleftrightarrow> ranges_ok (pp_ranges p) \<and> pp_mapping_len p = ranges_bytes (pp_ranges p) \<and>
     (\<forall>q. cover_count (mset (pp_slots p)) q = length (filter (range_covers q) (pp_ranges p))) \<and>
     (\<forall>s \<in> set (pp_slots p). slot_ok (pp_ranges p) (length (pp_device_ids p)) s) \<and>
     distinct (map device_name (pp_device_ids p))"

lemma cover_count_simps [simp]:
  "cover_count {#} q = 0"
  "cover_count (add_mset s M) q = of_bool (slot_covers q s) + cover_count M q"
  "cover_count (M + N) q = cover_count M q + cover_count N q"
  by (simp_all add: cover_count_def)

lemma cover_count_remove:
  "s \<in># M \<Longrightarrow> cover_count M q = of_bool (slot_covers q s) + cover_count (M - {#s#}) q"
  by (metis cover_count_simps(2) insert_DiffM)

text \<open>Replacing one slot by slots that cover the same pages keeps the pool well formed.\<close>

lemma pool_inv_replace:
  assumes inv: "pool_inv p" and s: "s \<in> set (pp_slots p)"
    and slots: "mset slots = mset (pp_slots p) - {#s#} + K"
    and cover: "\<And>q. cover_count K q = of_bool (slot_covers q s)"
    and ok: "\<And>k. k \<in># K \<Longrightarrow> slot_ok (pp_ranges p) (length (pp_device_ids p)) k"
  shows "pool_inv (p\<lparr>pp_slots := slots\<rparr>)"
proof -
  have "cover_count (mset slots) q = cover_count (mset (pp_slots p)) q" for q
    using cover_count_remove[of s "mset (pp_slots p)" q] s
    by (simp only: slots cover_count_simps(3) cover set_mset_mset)
  moreover have "set slots \<subseteq> set (pp_slots p) \<union> set_mset K"
  proof
    fix x assume "x \<in> set slots"
    then have "x \<in># mset (pp_slots p) - {#s#} + K" using slots by (metis set_mset_mset)
    then show "x \<in> set (pp_slots p) \<union> set_mset K" by (auto dest: in_diffD)
  qed
  ultimately show ?thesis using inv ok by (auto simp: pool_inv_def)
qed

lemma slot_covers_unique:
  assumes inv: "pool_inv p" and "s \<in> set (pp_slots p)" "slot_covers q s"
    and t: "t \<in># mset (pp_slots p) - {#s#}" "slot_covers q t"
  shows False
proof -
  have "cover_count (mset (pp_slots p)) q \<le> 1" using inv by (simp add: pool_inv_def ranges_ok_def)
  moreover have "cover_count (mset (pp_slots p)) q = 2 + cover_count (mset (pp_slots p) - {#s#} - {#t#}) q"
    using assms cover_count_remove[of s "mset (pp_slots p)" q] cover_count_remove[OF t(1), of q] by simp
  ultimately show False by simp
qed

subsection \<open>Operations keep the invariant\<close>

text \<open>The handle of an allocated slot, and the handles of a pool.\<close>

definition handle_of :: "slot \<Rightarrow> pool_handle" where
  "handle_of s = \<lparr>ph_base_pfn = sl_base_pfn s, ph_size_pages = sl_size_pages s, ph_mapping_offset = sl_mapping_offset s\<rparr>"

definition live_handles :: "slot multiset \<Rightarrow> pool_handle multiset" where
  "live_handles M = image_mset handle_of (filter_mset (\<lambda>s. is_allocated (sl_state s)) M)"

lemma live_handles_simps [simp]:
  "live_handles {#} = {#}"
  "live_handles (add_mset s M) = (if is_allocated (sl_state s) then {#handle_of s#} else {#}) + live_handles M"
  "live_handles (M + N) = live_handles M + live_handles N"
  by (simp_all add: live_handles_def)

lemma live_handles_remove:
  "s \<in># M \<Longrightarrow> live_handles M = (if is_allocated (sl_state s) then {#handle_of s#} else {#}) + live_handles (M - {#s#})"
  by (metis insert_DiffM live_handles_simps(2))

lemma in_live_handles:
  "h \<in># live_handles (mset ss) \<longleftrightarrow> (\<exists>s \<in> set ss. is_allocated (sl_state s) \<and> handle_of s = h)"
  by (auto simp: live_handles_def)

text \<open>Splitting a free slot.\<close>

lemma slot_split:
  assumes ok: "slot_ok rs n s" and lt: "0 < k" "k \<le> sl_size_pages s"
  shows "0 < k \<Longrightarrow> d < n \<Longrightarrow> slot_ok rs n (s\<lparr>sl_size_pages := k, sl_state := SlotAllocated d tag\<rparr>)"
    and "k < sl_size_pages s \<Longrightarrow> slot_ok rs n \<lparr>sl_base_pfn = sl_base_pfn s + k, sl_mapping_offset = sl_mapping_offset s + k * 4096,
      sl_size_pages = sl_size_pages s - k, sl_state = SlotFree\<rparr>"
proof -
  assume d: "d < n"
  have "k * 4096 \<le> sl_size_pages s * 4096" using lt by simp
  then show "slot_ok rs n (s\<lparr>sl_size_pages := k, sl_state := SlotAllocated d tag\<rparr>)"
    using ok lt d by (auto simp: slot_ok_def slot_covers_def)
next
  assume less: "k < sl_size_pages s"
  let ?f = "\<lparr>sl_base_pfn = sl_base_pfn s + k, sl_mapping_offset = sl_mapping_offset s + k * 4096,
      sl_size_pages = sl_size_pages s - k, sl_state = SlotFree\<rparr>"
  have "sl_mapping_offset ?f + (q - sl_base_pfn ?f) * 4096 = page_offset 0 rs q" if "slot_covers q ?f" for q
  proof -
    from that have q: "sl_base_pfn s + k \<le> q" "q < sl_base_pfn s + sl_size_pages s"
      using less by (auto simp: slot_covers_def)
    then have "sl_mapping_offset s + (q - sl_base_pfn s) * 4096 = page_offset 0 rs q"
      using ok by (auto simp: slot_ok_def slot_covers_def)
    then show ?thesis using q by (simp add: diff_mult_distrib add_mult_distrib)
  qed
  moreover have "k * 4096 \<le> sl_size_pages s * 4096" using less by simp
  ultimately show "slot_ok rs n ?f" using ok less
    by (auto simp: slot_ok_def diff_mult_distrib)
qed

lemma pool_alloc_spec:
  assumes inv: "pool_inv p" and n: "0 < n" and dev: "dev < length (pp_device_ids p)"
  shows "\<exists>p' r. pool_alloc p dev n tag = Some (p', r) \<and> pool_inv p' \<and>
    pp_device_ids p' = pp_device_ids p \<and> pp_ranges p' = pp_ranges p \<and>
    live_handles (mset (pp_slots p')) = mset (new_handles r) + live_handles (mset (pp_slots p)) \<and>
    (case r of
       Inl e \<Rightarrow> p' = p \<and> e = PagePoolOutOfMemory n tag \<and>
         (\<forall>s \<in> set (pp_slots p). sl_state s = SlotFree \<longrightarrow> sl_size_pages s < n)
     | Inr h \<Rightarrow> ph_size_pages h = n)"
proof (cases "position (\<lambda>s. sl_state s = SlotFree \<and> sl_size_pages s \<ge> n) (pp_slots p)")
  case None
  then have "\<forall>s \<in> set (pp_slots p). sl_state s = SlotFree \<longrightarrow> sl_size_pages s < n"
    by (auto simp: position_eq_None not_le[symmetric])
  then show ?thesis using inv None by (simp add: pool_alloc_def)
next
  case (Some i)
  let ?s = "pp_slots p ! i"
  from position_eq_Some[OF Some] have i: "i < length (pp_slots p)" and free: "sl_state ?s = SlotFree"
    and le: "n \<le> sl_size_pages ?s" by auto
  have mem: "?s \<in> set (pp_slots p)" using i by simp
  have ok: "slot_ok (pp_ranges p) (length (pp_device_ids p)) ?s" using inv mem by (simp add: pool_inv_def)
  have bytes: "ranges_bytes (pp_ranges p) < 2 ^ 64" using inv by (simp add: pool_inv_def ranges_ok_def)
  let ?a = "?s\<lparr>sl_size_pages := n, sl_state := SlotAllocated dev tag\<rparr>"
  let ?f = "\<lparr>sl_base_pfn = sl_base_pfn ?s + n, sl_mapping_offset = sl_mapping_offset ?s + n * 4096,
      sl_size_pages = sl_size_pages ?s - n, sl_state = SlotFree\<rparr>"
  define F where "F = (if n < sl_size_pages ?s then [?f] else [])"
  have n4096: "n * 4096 \<le> sl_size_pages ?s * 4096" using le by simp
  have eq: "pool_alloc p dev n tag = Some (p\<lparr>pp_slots := swap_remove i (pp_slots p) @ [?a] @ F\<rparr>, Inr (handle_of ?a))"
    using Some ok le bytes n4096
    by (simp add: pool_alloc_def Let_def F_def u64_add_def u64_mul_def POOL_PAGE_SIZE_def slot_ok_def handle_of_def)
  let ?p = "p\<lparr>pp_slots := swap_remove i (pp_slots p) @ [?a] @ F\<rparr>"
  have slots: "mset (swap_remove i (pp_slots p) @ [?a] @ F) = mset (pp_slots p) - {#?s#} + mset (?a # F)"
    using mset_swap_remove[OF i] by simp
  have "pool_inv ?p"
  proof (rule pool_inv_replace[OF inv mem slots])
    show "cover_count (mset (?a # F)) q = of_bool (slot_covers q ?s)" for q
      using le by (auto simp: F_def slot_covers_def)
    show "slot_ok (pp_ranges p) (length (pp_device_ids p)) k" if "k \<in># mset (?a # F)" for k
      using that slot_split(1)[OF ok n le n dev] slot_split(2)[OF ok n le] by (auto simp: F_def split: if_splits)
  qed
  moreover have "live_handles (mset (pp_slots ?p)) = add_mset (handle_of ?a) (live_handles (mset (pp_slots p)))"
    using live_handles_remove[of ?s "mset (pp_slots p)"] mem free slots by (simp add: F_def)
  ultimately show ?thesis using eq by (simp add: handle_of_def)
qed

text \<open>Changing the state of one slot.\<close>

lemma slot_ok_state:
  assumes "slot_ok rs n s" and "case st of SlotAllocated d _ \<Rightarrow> d < n | _ \<Rightarrow> True"
  shows "slot_ok rs n (s\<lparr>sl_state := st\<rparr>)"
  using assms by (auto simp: slot_ok_def slot_covers_def)

lemma set_slot_state:
  assumes inv: "pool_inv p" and i: "i < length (pp_slots p)"
    and st: "case st of SlotAllocated d _ \<Rightarrow> d < length (pp_device_ids p) | _ \<Rightarrow> True"
  shows "pool_inv (p\<lparr>pp_slots := (pp_slots p)[i := (pp_slots p ! i)\<lparr>sl_state := st\<rparr>]\<rparr>)"
    and "live_handles (mset ((pp_slots p)[i := (pp_slots p ! i)\<lparr>sl_state := st\<rparr>])) =
      live_handles (mset (pp_slots p) - {#pp_slots p ! i#}) + (if is_allocated st then {#handle_of (pp_slots p ! i)#} else {#})"
proof -
  let ?s = "pp_slots p ! i"
  have mem: "?s \<in> set (pp_slots p)" using i by simp
  then have ok: "slot_ok (pp_ranges p) (length (pp_device_ids p)) ?s" using inv by (simp add: pool_inv_def)
  have slots: "mset ((pp_slots p)[i := ?s\<lparr>sl_state := st\<rparr>]) = mset (pp_slots p) - {#?s#} + {#?s\<lparr>sl_state := st\<rparr>#}"
    using i by (simp add: mset_update)
  show "pool_inv (p\<lparr>pp_slots := (pp_slots p)[i := ?s\<lparr>sl_state := st\<rparr>]\<rparr>)"
    by (rule pool_inv_replace[OF inv mem slots]) (auto simp: slot_covers_def intro: slot_ok_state[OF ok st])
  show "live_handles (mset ((pp_slots p)[i := ?s\<lparr>sl_state := st\<rparr>])) =
      live_handles (mset (pp_slots p) - {#?s#}) + (if is_allocated st then {#handle_of ?s#} else {#})"
    unfolding slots live_handles_simps(3) by (simp add: handle_of_def)
qed

lemma handle_drop_spec:
  assumes inv: "pool_inv p" and h: "h \<in># live_handles (mset (pp_slots p))"
  shows "\<exists>p'. handle_drop p h = Some p' \<and> pool_inv p' \<and> pp_device_ids p' = pp_device_ids p \<and>
    pp_ranges p' = pp_ranges p \<and> live_handles (mset (pp_slots p')) = live_handles (mset (pp_slots p)) - {#h#}"
proof -
  obtain t where t: "t \<in> set (pp_slots p)" "is_allocated (sl_state t)" "handle_of t = h"
    using h by (auto simp: in_live_handles)
  let ?P = "\<lambda>s. is_allocated (sl_state s) \<and> sl_base_pfn s = ph_base_pfn h \<and> sl_size_pages s = ph_size_pages h"
  obtain i where i: "position ?P (pp_slots p) = Some i" using position_ex[OF t(1), of ?P] t by (auto simp: handle_of_def)
  let ?s = "pp_slots p ! i"
  from position_eq_Some[OF i] have lt: "i < length (pp_slots p)" and P: "?P ?s" by auto
  have mem: "?s \<in> set (pp_slots p)" using lt by simp
  then have "slot_ok (pp_ranges p) (length (pp_device_ids p)) ?s" "slot_ok (pp_ranges p) (length (pp_device_ids p)) t"
    using inv t by (auto simp: pool_inv_def)
  moreover have "slot_covers (sl_base_pfn t) ?s" "slot_covers (sl_base_pfn t) t"
    using P t calculation by (auto simp: slot_ok_def slot_covers_def handle_of_def)
  ultimately have "sl_mapping_offset ?s = sl_mapping_offset t"
    using P t by (fastforce simp: slot_ok_def handle_of_def)
  then have hs: "handle_of ?s = h" using P t by (auto simp: handle_of_def)
  have drop: "handle_drop p h = Some (p\<lparr>pp_slots := (pp_slots p)[i := ?s\<lparr>sl_state := SlotFree\<rparr>]\<rparr>)"
    using i hs by (auto simp: handle_drop_def Let_def handle_of_def)
  then show ?thesis
    using set_slot_state[OF inv lt, of SlotFree] live_handles_remove[of ?s "mset (pp_slots p)"] mem P hs by simp
qed

lemma pending_not_allocated: "pending_for name st \<Longrightarrow> \<not> is_allocated st"
  by (cases st) auto

lemma restore_allocated_pending:
  "pending_for name st \<Longrightarrow> \<exists>tag. restore_allocated st dev = Some (SlotAllocated dev tag)"
  by (cases st) (auto simp: restore_allocated_def)

lemma restore_alloc_spec:
  assumes inv: "pool_inv p" and dev: "dev < length (pp_device_ids p)"
  shows "\<exists>p' r. restore_alloc p dev base n = Some (p', r) \<and> pool_inv p' \<and>
    pp_device_ids p' = pp_device_ids p \<and> pp_ranges p' = pp_ranges p \<and>
    live_handles (mset (pp_slots p')) = mset (new_handles r) + live_handles (mset (pp_slots p)) \<and>
    (case r of Inl _ \<Rightarrow> p' = p | Inr h \<Rightarrow> ph_base_pfn h = base \<and> ph_size_pages h = n)"
proof (cases "position (\<lambda>s. pending_for (device_name (pp_device_ids p ! dev)) (sl_state s) \<and>
    sl_base_pfn s = base \<and> sl_size_pages s = n) (pp_slots p)")
  case None
  then show ?thesis using inv dev by (simp add: restore_alloc_def)
next
  case (Some i)
  let ?s = "pp_slots p ! i"
  from position_eq_Some[OF Some] have lt: "i < length (pp_slots p)"
    and P: "pending_for (device_name (pp_device_ids p ! dev)) (sl_state ?s)" "sl_base_pfn ?s = base" "sl_size_pages ?s = n"
    by auto
  obtain tag where tag: "restore_allocated (sl_state ?s) dev = Some (SlotAllocated dev tag)"
    using restore_allocated_pending[OF P(1)] by blast
  have mem: "?s \<in> set (pp_slots p)" using lt by simp
  then have "sl_mapping_offset ?s mod 4096 = 0" using inv by (simp add: pool_inv_def slot_ok_def)
  then have "restore_alloc p dev base n =
      Some (p\<lparr>pp_slots := (pp_slots p)[i := ?s\<lparr>sl_state := SlotAllocated dev tag\<rparr>]\<rparr>, Inr (handle_of ?s))"
    using Some dev tag P by (simp add: restore_alloc_def Let_def POOL_PAGE_SIZE_def handle_of_def)
  then show ?thesis
    using set_slot_state[OF inv lt, of "SlotAllocated dev tag"] dev P mem
      live_handles_remove[of ?s "mset (pp_slots p)"] pending_not_allocated[OF P(1)]
    by (simp add: handle_of_def)
qed

text \<open>Operations that change the states of many slots but nothing else.\<close>

definition same_slots :: "slot list \<Rightarrow> slot list \<Rightarrow> bool" where
  "same_slots = list_all2 (\<lambda>s t. \<exists>st. t = s\<lparr>sl_state := st\<rparr>)"

lemma same_slots_cover: "same_slots ss ts \<Longrightarrow> cover_count (mset ts) q = cover_count (mset ss) q"
  unfolding same_slots_def
  by (induction rule: list_all2_induct) (auto simp: slot_covers_def)

lemma pool_inv_same_slots:
  assumes inv: "pool_inv p" and same: "same_slots (pp_slots p) ts"
    and st: "\<And>t. t \<in> set ts \<Longrightarrow> (case sl_state t of SlotAllocated d _ \<Rightarrow> d < length (pp_device_ids p) | _ \<Rightarrow> True)"
  shows "pool_inv (p\<lparr>pp_slots := ts\<rparr>)"
proof -
  have "slot_ok (pp_ranges p) (length (pp_device_ids p)) t" if t: "t \<in> set ts" for t
  proof -
    from t obtain i where i: "i < length ts" "ts ! i = t" by (auto simp: in_set_conv_nth)
    moreover have len: "length (pp_slots p) = length ts" using same by (simp add: same_slots_def list_all2_lengthD)
    ultimately obtain st where "t = (pp_slots p ! i)\<lparr>sl_state := st\<rparr>"
      using same list_all2_nthD2[of _ "pp_slots p" ts i] unfolding same_slots_def by auto
    moreover have "pp_slots p ! i \<in> set (pp_slots p)" using i len by simp
    ultimately show ?thesis using slot_ok_state st[OF t] inv by (auto simp: pool_inv_def)
  qed
  then show ?thesis using inv same_slots_cover[OF same] by (simp add: pool_inv_def)
qed

lemma restore_pending_slots_spec:
  "\<exists>ts hs. restore_pending_slots name dev ss = Some (ts, hs) \<and> same_slots ss ts \<and>
    live_handles (mset ts) = mset hs + live_handles (mset ss) \<and>
    (\<forall>t \<in> set ts. t \<in> set ss \<or> (\<exists>tag. sl_state t = SlotAllocated dev tag))"
proof (induction ss)
  case Nil
  then show ?case by (simp add: same_slots_def)
next
  case (Cons s ss)
  then obtain ts hs where IH: "restore_pending_slots name dev ss = Some (ts, hs)" "same_slots ss ts"
    "live_handles (mset ts) = mset hs + live_handles (mset ss)"
    "\<forall>t \<in> set ts. t \<in> set ss \<or> (\<exists>tag. sl_state t = SlotAllocated dev tag)" by blast
  show ?case
  proof (cases "pending_for name (sl_state s)")
    case True
    obtain tag where "restore_allocated (sl_state s) dev = Some (SlotAllocated dev tag)"
      using restore_allocated_pending[OF True] by blast
    then show ?thesis using IH True pending_not_allocated[OF True]
      by (auto simp: same_slots_def handle_of_def)
  next
    case False
    then show ?thesis using IH by (auto simp: same_slots_def intro: exI[of _ "sl_state s"])
  qed
qed

subsection \<open>The pool with its clients\<close>

definition used :: "device_id \<Rightarrow> bool" where
  "used d \<longleftrightarrow> (case d of DevUsed _ \<Rightarrow> True | DevUnassigned _ \<Rightarrow> False)"

definition pool_system_inv :: "pool_system \<Rightarrow> bool" where
  "pool_system_inv s \<longleftrightarrow> pool_inv (sys_pool s) \<and>
     live_handles (mset (pp_slots (sys_pool s))) = mset (sys_handles s) \<and>
     distinct (sys_allocators s) \<and>
     (\<forall>d \<in> set (sys_allocators s). d < length (pp_device_ids (sys_pool s)) \<and> used (pp_device_ids (sys_pool s) ! d))"

lemma slot_ok_more_devices: "slot_ok rs n s \<Longrightarrow> n \<le> m \<Longrightarrow> slot_ok rs m s"
  by (auto simp: slot_ok_def split: slot_state.splits)

lemma distinct_map_update_same:
  "distinct (map f xs) \<Longrightarrow> f y = f (xs ! i) \<Longrightarrow> distinct (map f (xs[i := y]))"
  by (metis list_update_id map_update)

lemma allocator_new_spec:
  assumes inv: "pool_inv p"
  shows "(case allocator_new p name of
     (p', Inl _) \<Rightarrow> p' = p \<and> (\<exists>d < length (pp_device_ids p). pp_device_ids p ! d = DevUsed name)
   | (p', Inr d) \<Rightarrow> pool_inv p' \<and> pp_slots p' = pp_slots p \<and> pp_ranges p' = pp_ranges p \<and>
       d < length (pp_device_ids p') \<and> pp_device_ids p' ! d = DevUsed name \<and>
       (d < length (pp_device_ids p) \<longrightarrow> \<not> used (pp_device_ids p ! d)) \<and>
       (\<forall>e < length (pp_device_ids p). e \<noteq> d \<longrightarrow> pp_device_ids p' ! e = pp_device_ids p ! e) \<and>
       length (pp_device_ids p) \<le> length (pp_device_ids p'))"
proof (cases "position (\<lambda>d. device_name d = name) (pp_device_ids p)")
  case None
  then have "name \<notin> device_name ` set (pp_device_ids p)" by (auto simp: position_eq_None)
  then show ?thesis using inv None
    by (auto simp: allocator_new_def pool_inv_def nth_append intro: slot_ok_more_devices)
next
  case (Some i)
  from position_eq_Some[OF Some] have i: "i < length (pp_device_ids p)" "device_name (pp_device_ids p ! i) = name" by auto
  show ?thesis
  proof (cases "pp_device_ids p ! i")
    case (DevUsed x)
    then show ?thesis using Some i by (auto simp: allocator_new_def)
  next
    case (DevUnassigned x)
    have "distinct (map device_name ((pp_device_ids p)[i := DevUsed name]))"
      using inv i by (intro distinct_map_update_same) (auto simp: pool_inv_def)
    then show ?thesis using Some i DevUnassigned inv
      by (auto simp: allocator_new_def pool_inv_def used_def)
  qed
qed

lemma allocator_drop_spec:
  assumes inv: "pool_inv p" and d: "d < length (pp_device_ids p)" "used (pp_device_ids p ! d)"
  shows "\<exists>p'. allocator_drop p d = Some p' \<and> pool_inv p' \<and> pp_slots p' = pp_slots p \<and>
    length (pp_device_ids p') = length (pp_device_ids p) \<and>
    (\<forall>e. e \<noteq> d \<longrightarrow> pp_device_ids p' ! e = pp_device_ids p ! e)"
proof -
  have "distinct (map device_name ((pp_device_ids p)[d := DevUnassigned (device_name (pp_device_ids p ! d))]))"
    using inv by (intro distinct_map_update_same) (auto simp: pool_inv_def)
  then show ?thesis using inv d by (auto simp: allocator_drop_def pool_inv_def used_def Let_def)
qed

lemma restore_pending_allocs_spec:
  assumes inv: "pool_inv p" and dev: "dev < length (pp_device_ids p)"
  shows "\<exists>p' hs. restore_pending_allocs p dev = Some (p', hs) \<and> pool_inv p' \<and>
    pp_device_ids p' = pp_device_ids p \<and>
    live_handles (mset (pp_slots p')) = mset hs + live_handles (mset (pp_slots p))"
proof -
  obtain ts hs where ts: "restore_pending_slots (device_name (pp_device_ids p ! dev)) dev (pp_slots p) = Some (ts, hs)"
    "same_slots (pp_slots p) ts" "live_handles (mset ts) = mset hs + live_handles (mset (pp_slots p))"
    "\<forall>t \<in> set ts. t \<in> set (pp_slots p) \<or> (\<exists>tag. sl_state t = SlotAllocated dev tag)"
    using restore_pending_slots_spec[of "device_name (pp_device_ids p ! dev)" dev "pp_slots p"] by blast
  have "pool_inv (p\<lparr>pp_slots := ts\<rparr>)"
    using ts(4) inv dev by (intro pool_inv_same_slots[OF inv ts(2)]) (auto simp: pool_inv_def slot_ok_def)
  then show ?thesis using ts dev by (simp add: restore_pending_allocs_def)
qed

lemma validate_restore_spec:
  assumes inv: "pool_inv p"
  shows "pool_inv (fst (validate_restore p leak))"
    and "pp_device_ids (fst (validate_restore p leak)) = pp_device_ids p"
    and "live_handles (mset (pp_slots (fst (validate_restore p leak)))) = live_handles (mset (pp_slots p))"
proof -
  let ?ts = "map (\<lambda>s. s\<lparr>sl_state := leak_slot (sl_state s)\<rparr>) (pp_slots p)"
  have same: "same_slots (pp_slots p) ?ts" by (auto simp: same_slots_def list_all2_conv_all_nth)
  have alloc: "is_allocated (leak_slot st) = is_allocated st" for st by (cases st) auto
  have "pool_inv (p\<lparr>pp_slots := ?ts\<rparr>)"
  proof (rule pool_inv_same_slots[OF inv same])
    fix t assume "t \<in> set ?ts"
    then obtain s where "s \<in> set (pp_slots p)" "sl_state t = leak_slot (sl_state s)" by auto
    then show "case sl_state t of SlotAllocated d _ \<Rightarrow> d < length (pp_device_ids p) | _ \<Rightarrow> True"
      using inv by (cases "sl_state s") (auto simp: pool_inv_def slot_ok_def)
  qed
  then show "pool_inv (fst (validate_restore p leak))" using inv by (simp add: validate_restore_def Let_def)
  have "live_handles (mset (map (\<lambda>s. s\<lparr>sl_state := leak_slot (sl_state s)\<rparr>) ss)) = live_handles (mset ss)" for ss
    by (induction ss) (auto simp: alloc handle_of_def)
  then show "live_handles (mset (pp_slots (fst (validate_restore p leak)))) = live_handles (mset (pp_slots p))"
    by (simp add: validate_restore_def Let_def)
qed (simp add: validate_restore_def Let_def)

text \<open>How the handles and allocators of the clients follow the pool.\<close>

lemma pool_system_invI:
  assumes "pool_inv p" and "live_handles (mset (pp_slots p)) = mset hs" and "distinct ds"
    and "\<And>d. d \<in> set ds \<Longrightarrow> d < length (pp_device_ids p) \<and> used (pp_device_ids p ! d)"
  shows "pool_system_inv \<lparr>sys_pool = p, sys_allocators = ds, sys_handles = hs\<rparr>"
  using assms by (simp add: pool_system_inv_def)

lemma system_with_handles:
  assumes inv: "pool_system_inv s" and p: "pool_inv p" "pp_device_ids p = pp_device_ids (sys_pool s)"
    and hs: "live_handles (mset (pp_slots p)) = mset hs"
  shows "pool_system_inv (s\<lparr>sys_pool := p, sys_handles := hs\<rparr>)"
  using assms by (simp add: pool_system_inv_def)

lemma step_new_allocator:
  assumes inv: "pool_system_inv s"
  shows "\<exists>t. pool_step s (PoolNewAllocator name) = Some t \<and> pool_system_inv t"
proof -
  have pinv: "pool_inv (sys_pool s)" using inv by (simp add: pool_system_inv_def)
  obtain p r where r: "allocator_new (sys_pool s) name = (p, r)" by fastforce
  note spec = allocator_new_spec[OF pinv, of name, unfolded r]
  show ?thesis
  proof (cases r)
    case (Inl a)
    then show ?thesis using r inv spec by (simp add: pool_step_def)
  next
    case (Inr d)
    have d: "pool_inv p" "pp_slots p = pp_slots (sys_pool s)" "d < length (pp_device_ids p)"
      "pp_device_ids p ! d = DevUsed name"
      "d < length (pp_device_ids (sys_pool s)) \<Longrightarrow> \<not> used (pp_device_ids (sys_pool s) ! d)"
      "\<And>e. e < length (pp_device_ids (sys_pool s)) \<Longrightarrow> e \<noteq> d \<Longrightarrow> pp_device_ids p ! e = pp_device_ids (sys_pool s) ! e"
      "length (pp_device_ids (sys_pool s)) \<le> length (pp_device_ids p)"
      using spec Inr by auto
    have old: "e < length (pp_device_ids (sys_pool s)) \<and> used (pp_device_ids (sys_pool s) ! e)"
      if "e \<in> set (sys_allocators s)" for e using that inv by (simp add: pool_system_inv_def)
    then have "d \<notin> set (sys_allocators s)" using d(5) by blast
    moreover have "e < length (pp_device_ids p) \<and> used (pp_device_ids p ! e)" if "e \<in> set (d # sys_allocators s)" for e
      using that old[of e] d(3,4,6,7) by (cases "e = d") (auto simp: used_def)
    ultimately have "pool_system_inv (s\<lparr>sys_pool := p, sys_allocators := d # sys_allocators s\<rparr>)"
      using inv d(1,2) by (simp add: pool_system_inv_def)
    then show ?thesis using r Inr by (simp add: pool_step_def)
  qed
qed

lemma step_drop_allocator:
  assumes inv: "pool_system_inv s"
  shows "\<exists>t. pool_step s (PoolDropAllocator k) = Some t \<and> pool_system_inv t"
proof (cases "k < length (sys_allocators s)")
  case True
  let ?d = "sys_allocators s ! k"
  let ?rest = "take k (sys_allocators s) @ drop (Suc k) (sys_allocators s)"
  have d: "pool_inv (sys_pool s)" "?d < length (pp_device_ids (sys_pool s))" "used (pp_device_ids (sys_pool s) ! ?d)"
    using inv True by (simp_all add: pool_system_inv_def)
  have m: "mset (?d # ?rest) = mset (sys_allocators s)" using mset_remove_nth[OF True] True by simp
  then have rest: "distinct (?d # ?rest)" "set ?rest \<subseteq> set (sys_allocators s)"
    using inv mset_eq_imp_distinct_iff[OF m] mset_eq_setD[OF m] by (auto simp: pool_system_inv_def)
  obtain p' where p': "allocator_drop (sys_pool s) ?d = Some p'" "pool_inv p'" "pp_slots p' = pp_slots (sys_pool s)"
    "length (pp_device_ids p') = length (pp_device_ids (sys_pool s))"
    "\<And>e. e \<noteq> ?d \<Longrightarrow> pp_device_ids p' ! e = pp_device_ids (sys_pool s) ! e"
    using allocator_drop_spec[OF d] by blast
  have "e < length (pp_device_ids p') \<and> used (pp_device_ids p' ! e)" if "e \<in> set ?rest" for e
  proof -
    have "e \<noteq> ?d" "e \<in> set (sys_allocators s)" using that rest by auto
    then show ?thesis using inv p'(4,5) by (simp add: pool_system_inv_def)
  qed
  then have "pool_system_inv (s\<lparr>sys_pool := p', sys_allocators := ?rest\<rparr>)"
    using inv p'(2,3) rest(1) by (simp add: pool_system_inv_def)
  then show ?thesis using True p'(1) by (simp add: pool_step_def)
next
  case False
  then show ?thesis using inv by (simp add: pool_step_def)
qed

lemma step_alloc:
  assumes inv: "pool_system_inv s"
  shows "\<exists>t. pool_step s (PoolAlloc k n tag) = Some t \<and> pool_system_inv t"
proof (cases "k < length (sys_allocators s) \<and> n > 0")
  case True
  then have d: "pool_inv (sys_pool s)" "0 < n" "sys_allocators s ! k < length (pp_device_ids (sys_pool s))"
    using inv by (simp_all add: pool_system_inv_def)
  obtain p r where p: "pool_alloc (sys_pool s) (sys_allocators s ! k) n tag = Some (p, r)" "pool_inv p"
    "pp_device_ids p = pp_device_ids (sys_pool s)"
    "live_handles (mset (pp_slots p)) = mset (new_handles r @ sys_handles s)"
    using pool_alloc_spec[OF d, of tag] inv by (auto simp: pool_system_inv_def)
  show ?thesis using system_with_handles[OF inv p(2,3,4)] True p(1) by (simp add: pool_step_def)
next
  case False
  then show ?thesis using inv by (auto simp: pool_step_def)
qed

lemma step_restore_alloc:
  assumes inv: "pool_system_inv s"
  shows "\<exists>t. pool_step s (PoolRestoreAlloc k base n) = Some t \<and> pool_system_inv t"
proof (cases "k < length (sys_allocators s) \<and> n > 0")
  case True
  then have d: "pool_inv (sys_pool s)" "sys_allocators s ! k < length (pp_device_ids (sys_pool s))"
    using inv by (simp_all add: pool_system_inv_def)
  obtain p r where p: "restore_alloc (sys_pool s) (sys_allocators s ! k) base n = Some (p, r)" "pool_inv p"
    "pp_device_ids p = pp_device_ids (sys_pool s)"
    "live_handles (mset (pp_slots p)) = mset (new_handles r @ sys_handles s)"
    using restore_alloc_spec[OF d, of base n] inv by (auto simp: pool_system_inv_def)
  show ?thesis using system_with_handles[OF inv p(2,3,4)] True p(1) by (simp add: pool_step_def)
next
  case False
  then show ?thesis using inv by (auto simp: pool_step_def)
qed

lemma step_drop_handle:
  assumes inv: "pool_system_inv s"
  shows "\<exists>t. pool_step s (PoolDropHandle k) = Some t \<and> pool_system_inv t"
proof (cases "k < length (sys_handles s)")
  case True
  then have d: "pool_inv (sys_pool s)" "sys_handles s ! k \<in># live_handles (mset (pp_slots (sys_pool s)))"
    using inv by (simp_all add: pool_system_inv_def)
  obtain p where p: "handle_drop (sys_pool s) (sys_handles s ! k) = Some p" "pool_inv p"
    "pp_device_ids p = pp_device_ids (sys_pool s)"
    "live_handles (mset (pp_slots p)) = mset (take k (sys_handles s) @ drop (Suc k) (sys_handles s))"
    using handle_drop_spec[OF d] inv mset_remove_nth[OF True] by (auto simp: pool_system_inv_def)
  show ?thesis using system_with_handles[OF inv p(2,3,4)] True p(1) by (simp add: pool_step_def)
next
  case False
  then show ?thesis using inv by (simp add: pool_step_def)
qed

lemma step_restore_pending:
  assumes inv: "pool_system_inv s"
  shows "\<exists>t. pool_step s (PoolRestorePending k) = Some t \<and> pool_system_inv t"
proof (cases "k < length (sys_allocators s)")
  case True
  then have d: "pool_inv (sys_pool s)" "sys_allocators s ! k < length (pp_device_ids (sys_pool s))"
    using inv by (simp_all add: pool_system_inv_def)
  obtain p hs where p: "restore_pending_allocs (sys_pool s) (sys_allocators s ! k) = Some (p, hs)" "pool_inv p"
    "pp_device_ids p = pp_device_ids (sys_pool s)" "live_handles (mset (pp_slots p)) = mset (hs @ sys_handles s)"
    using restore_pending_allocs_spec[OF d] inv by (auto simp: pool_system_inv_def)
  show ?thesis using system_with_handles[OF inv p(2,3,4)] True p(1) by (simp add: pool_step_def)
next
  case False
  then show ?thesis using inv by (simp add: pool_step_def)
qed

lemma pool_step_inv:
  assumes inv: "pool_system_inv s"
  shows "\<exists>t. pool_step s e = Some t \<and> pool_system_inv t"
proof (cases e)
  case (PoolValidateRestore leak)
  have "pool_inv (sys_pool s)" using inv by (simp add: pool_system_inv_def)
  then show ?thesis using validate_restore_spec[of "sys_pool s" leak] inv PoolValidateRestore
    by (simp add: pool_step_def pool_system_inv_def)
qed (simp_all add: inv step_new_allocator step_drop_allocator step_alloc step_drop_handle
      step_restore_alloc step_restore_pending)

interpretation pool_machine: invariant_machine pool_step "\<lambda>_. True" pool_system_inv
  by unfold_locales (rule pool_step_inv)

subsection \<open>A new pool\<close>

lemma range_pages:
  assumes "mr_wf r" and "mr_start r < mr_end r"
  shows "mr_len r = Some (mr_end r - mr_start r)"
    and "unat (mr_end r - mr_start r) = unat (mr_end r) - unat (mr_start r)"
    and "(unat (mr_end r) - unat (mr_start r)) mod 4096 = 0"
    and "unat (mr_start r) div 4096 + (unat (mr_end r) - unat (mr_start r)) div 4096 = unat (mr_end r) div 4096"
    and "unat (mr_start r) < unat (mr_end r)" and "unat (mr_end r) div 4096 \<le> 2 ^ 52"
    and "0 < (unat (mr_end r) - unat (mr_start r)) div 4096"
proof -
  have al: "4096 dvd unat (mr_start r)" "4096 dvd unat (mr_end r)"
    using assms(1) by (simp_all add: mr_wf_def page_aligned_iff)
  show lt: "unat (mr_start r) < unat (mr_end r)" using assms(2) by (simp add: word_less_nat_alt)
  show "mr_len r = Some (mr_end r - mr_start r)" using assms(2) by (simp add: mr_len_def sub_ck_def)
  show "unat (mr_end r - mr_start r) = unat (mr_end r) - unat (mr_start r)"
    using assms(2) by (intro unat_sub) simp
  obtain a b where ab: "unat (mr_start r) = 4096 * a" "unat (mr_end r) = 4096 * b" using al by (auto elim!: dvdE)
  then have "4096 * b - 4096 * a = 4096 * (b - a)" by (simp add: diff_mult_distrib2)
  then show "(unat (mr_end r) - unat (mr_start r)) mod 4096 = 0"
    "unat (mr_start r) div 4096 + (unat (mr_end r) - unat (mr_start r)) div 4096 = unat (mr_end r) div 4096"
    "0 < (unat (mr_end r) - unat (mr_start r)) div 4096"
    using ab lt by simp_all
  have "unat (mr_end r) < 2 ^ 64" using unsigned_less[of "mr_end r"] by simp
  then show "unat (mr_end r) div 4096 \<le> 2 ^ 52" by simp
qed

lemma ranges_bytes_Cons [simp]:
  "ranges_bytes (r # rs) = unat (mr_end r) - unat (mr_start r) + ranges_bytes rs" "ranges_bytes [] = 0"
  by (simp_all add: ranges_bytes_def)

definition new_slot_ok :: "nat \<Rightarrow> memory_range list \<Rightarrow> slot \<Rightarrow> bool" where
  "new_slot_ok off rs s \<longleftrightarrow> 0 < sl_size_pages s \<and> sl_base_pfn s + sl_size_pages s \<le> 2 ^ 52 \<and>
     sl_mapping_offset s mod 4096 = 0 \<and> sl_mapping_offset s + sl_size_pages s * 4096 \<le> off + ranges_bytes rs \<and>
     (\<forall>q. slot_covers q s \<longrightarrow> sl_mapping_offset s + (q - sl_base_pfn s) * 4096 = page_offset off rs q \<and>
        0 < length (filter (range_covers q) rs)) \<and>
     sl_state s = SlotFree"

lemma pool_new_slots_spec:
  assumes "\<forall>r \<in> set rs. mr_wf r \<and> mr_start r < mr_end r" and "off + ranges_bytes rs < 2 ^ 64"
    and "off mod 4096 = 0" and "\<And>q. length (filter (range_covers q) rs) \<le> 1"
  shows "\<exists>slots. pool_new_slots off rs = Some (slots, off + ranges_bytes rs) \<and>
    (\<forall>q. cover_count (mset slots) q = length (filter (range_covers q) rs)) \<and>
    (\<forall>s \<in> set slots. new_slot_ok off rs s)"
  using assms
proof (induction rs arbitrary: off)
  case Nil
  then show ?case by simp
next
  case (Cons r rs)
  let ?len = "unat (mr_end r) - unat (mr_start r)"
  have r: "mr_wf r" "mr_start r < mr_end r" using Cons.prems by auto
  note rp = range_pages[OF r]
  have cnt: "\<And>q. length (filter (range_covers q) rs) \<le> 1"
    using Cons.prems(4) by (metis (no_types, lifting) Suc_leD filter.simps(2) length_Cons)
  have mod: "(off + ?len) mod 4096 = 0" using Cons.prems(3) rp(3) by (simp add: mod_add_eq[symmetric, of off])
  obtain slots where slots: "pool_new_slots (off + ?len) rs = Some (slots, off + ?len + ranges_bytes rs)"
    "\<forall>q. cover_count (mset slots) q = length (filter (range_covers q) rs)"
    "\<forall>s \<in> set slots. new_slot_ok (off + ?len) rs s"
    using Cons.IH[of "off + ?len"] Cons.prems mod cnt by (auto simp: add.assoc)
  define s where "s = \<lparr>sl_base_pfn = unat (mr_start r) div 4096, sl_mapping_offset = off,
    sl_size_pages = ?len div 4096, sl_state = SlotFree\<rparr>"
  have covers: "slot_covers q s \<longleftrightarrow> range_covers q r" for q
    using rp(4) by (simp add: slot_covers_def range_covers_def s_def)
  have "pool_new_slots off (r # rs) = Some (s # slots, off + ranges_bytes (r # rs))"
    using slots(1) rp(1,2) Cons.prems(2) by (simp add: u64_add_def s_def POOL_PAGE_SIZE_def add.assoc)
  moreover have "new_slot_ok off (r # rs) s"
    using rp Cons.prems(3) covers
    by (auto simp: new_slot_ok_def s_def)
  moreover have "new_slot_ok off (r # rs) t" if "t \<in> set slots" for t
  proof -
    have t: "new_slot_ok (off + ?len) rs t" using that slots(3) by blast
    have "\<not> range_covers q r" if "slot_covers q t" for q
      using t that Cons.prems(4)[of q] by (auto simp: new_slot_ok_def)
    then show ?thesis using t by (auto simp: new_slot_ok_def add.assoc)
  qed
  ultimately show ?case using slots(2) covers by auto
qed

lemma pool_map_ranges_spec:
  assumes "\<forall>r \<in> set rs. mr_wf r \<and> mr_start r < mr_end r" and "off + ranges_bytes rs < 2 ^ 64"
  shows "pool_map_ranges (\<lambda>_ _ _. True) fo off rs = Some (Inr (off + ranges_bytes rs))"
  using assms
proof (induction rs arbitrary: off)
  case (Cons r rs)
  have r: "mr_wf r" "mr_start r < mr_end r" using Cons.prems by auto
  note rp = range_pages[OF r]
  show ?case using Cons.IH[of "off + (unat (mr_end r) - unat (mr_start r))"] Cons.prems rp(1,2)
    by (simp add: u64_add_def add.assoc)
qed simp

lemma pool_new_inv:
  assumes "ranges_ok rs"
  shows "\<exists>p. pool_new (\<lambda>_. True) (\<lambda>_ _ _. True) fo bias rs = Some (Inr p) \<and> pool_inv p \<and> pp_device_ids p = [] \<and>
    pp_ranges p = rs \<and> (\<forall>s \<in> set (pp_slots p). sl_state s = SlotFree)"
proof -
  have rs: "\<forall>r \<in> set rs. mr_wf r \<and> mr_start r < mr_end r" "ranges_bytes rs < 2 ^ 64"
    "\<And>q. length (filter (range_covers q) rs) \<le> 1" using assms by (auto simp: ranges_ok_def)
  obtain slots where slots: "pool_new_slots 0 rs = Some (slots, ranges_bytes rs)"
    "\<forall>q. cover_count (mset slots) q = length (filter (range_covers q) rs)" "\<forall>s \<in> set slots. new_slot_ok 0 rs s"
    using pool_new_slots_spec[OF rs(1), of 0] rs by auto
  then show ?thesis using assms pool_map_ranges_spec[OF rs(1), of 0 fo] rs(2)
    by (auto simp: pool_new_def pool_inv_def new_slot_ok_def slot_ok_def)
qed

subsection \<open>Saving and restoring a pool\<close>

definition slot_pages :: "slot list \<Rightarrow> nat set" where
  "slot_pages ss = {q. \<exists>s \<in> set ss. slot_covers q s}"

definition range_pages_set :: "memory_range list \<Rightarrow> nat set" where
  "range_pages_set rs = {q. \<exists>r \<in> set rs. range_covers q r}"

lemma cover_count_pos: "0 < cover_count (mset ss) q \<longleftrightarrow> q \<in> slot_pages ss"
  by (induction ss) (auto simp: slot_pages_def)

lemma range_count_pos: "0 < length (filter (range_covers q) rs) \<longleftrightarrow> q \<in> range_pages_set rs"
  by (induction rs) (auto simp: range_pages_set_def)

lemma finite_slot_pages [simp]: "finite (slot_pages ss)"
proof -
  have "slot_pages ss = (\<Union>s \<in> set ss. {sl_base_pfn s..<sl_base_pfn s + sl_size_pages s})"
    by (auto simp: slot_pages_def slot_covers_def)
  then show ?thesis by simp
qed

lemma finite_range_pages [simp]: "finite (range_pages_set rs)"
proof -
  have "range_pages_set rs = (\<Union>r \<in> set rs. {unat (mr_start r) div 4096..<unat (mr_end r) div 4096})"
    by (auto simp: range_pages_set_def range_covers_def)
  then show ?thesis by simp
qed

text \<open>The mapping of a pool with sorted ranges is in address order.\<close>

lemma range_disjoint_Cons:
  assumes "\<And>q. length (filter (range_covers q) (r # rs)) \<le> 1"
  shows "range_covers q r \<Longrightarrow> q \<notin> range_pages_set rs"
  using assms[of q] range_count_pos[of q rs] by auto

lemma range_pages_set_Cons:
  "range_pages_set (r # rs) = {unat (mr_start r) div 4096..<unat (mr_end r) div 4096} \<union> range_pages_set rs"
  by (auto simp: range_pages_set_def range_covers_def)

lemma ranges_bytes_card:
  assumes "\<forall>r \<in> set rs. mr_wf r \<and> mr_start r < mr_end r" and "\<And>q. length (filter (range_covers q) rs) \<le> 1"
  shows "ranges_bytes rs = 4096 * card (range_pages_set rs)"
  using assms
proof (induction rs)
  case Nil
  then show ?case by (simp add: range_pages_set_def)
next
  case (Cons r rs)
  have r: "mr_wf r" "mr_start r < mr_end r" using Cons.prems by auto
  note rp = range_pages[OF r]
  have cnt: "\<And>q. length (filter (range_covers q) rs) \<le> 1"
    using Cons.prems(2) by (metis (no_types, lifting) Suc_leD filter.simps(2) length_Cons)
  let ?A = "{unat (mr_start r) div 4096..<unat (mr_end r) div 4096}"
  have "?A \<inter> range_pages_set rs = {}"
    using range_disjoint_Cons[OF Cons.prems(2)] by (auto simp: range_covers_def)
  then have "card (range_pages_set (r # rs)) = card ?A + card (range_pages_set rs)"
    by (simp add: range_pages_set_Cons card_Un_disjoint)
  moreover have "card ?A = (unat (mr_end r) - unat (mr_start r)) div 4096" using rp(4) by simp
  moreover have "4096 * ((unat (mr_end r) - unat (mr_start r)) div 4096) = unat (mr_end r) - unat (mr_start r)"
    using rp(3) by auto
  ultimately show ?case using Cons.IH[OF _ cnt] Cons.prems by (simp add: distrib_left)
qed

lemma page_offset_sorted:
  assumes "\<forall>r \<in> set rs. mr_wf r \<and> mr_start r < mr_end r" and "\<And>q. length (filter (range_covers q) rs) \<le> 1"
    and "sorted (map mr_start rs)" and "q \<in> range_pages_set rs"
  shows "page_offset off rs q = off + 4096 * card {p \<in> range_pages_set rs. p < q}"
  using assms
proof (induction rs arbitrary: off)
  case Nil
  then show ?case by (simp add: range_pages_set_def)
next
  case (Cons r rs)
  have r: "mr_wf r" "mr_start r < mr_end r" using Cons.prems by auto
  note rp = range_pages[OF r]
  let ?s = "unat (mr_start r) div 4096" and ?e = "unat (mr_end r) div 4096"
  have cnt: "\<And>q. length (filter (range_covers q) rs) \<le> 1"
    using Cons.prems(2) by (metis (no_types, lifting) Suc_leD filter.simps(2) length_Cons)
  have above: "?e \<le> p" if p: "p \<in> range_pages_set rs" for p
  proof (rule ccontr)
    assume "\<not> ?e \<le> p"
    moreover obtain r' where r': "r' \<in> set rs" "range_covers p r'" using p by (auto simp: range_pages_set_def)
    moreover have "?s \<le> unat (mr_start r') div 4096"
      using Cons.prems(3) r'(1) by (auto simp: word_le_nat_alt intro: div_le_mono)
    ultimately have "range_covers p r" by (auto simp: range_covers_def)
    then show False using range_disjoint_Cons[OF Cons.prems(2)] p by blast
  qed
  show ?case
  proof (cases "range_covers q r")
    case True
    then have "{p \<in> range_pages_set (r # rs). p < q} = {?s..<q}"
      using above by (fastforce simp: range_pages_set_Cons range_covers_def)
    then show ?thesis using True by simp
  next
    case False
    then have q: "q \<in> range_pages_set rs" using Cons.prems(4) by (auto simp: range_pages_set_Cons range_covers_def)
    have "{p \<in> range_pages_set (r # rs). p < q} = {?s..<?e} \<union> {p \<in> range_pages_set rs. p < q}"
      using above[OF q] by (auto simp: range_pages_set_Cons)
    moreover have "{?s..<?e} \<inter> {p \<in> range_pages_set rs. p < q} = {}" using above by fastforce
    ultimately have "card {p \<in> range_pages_set (r # rs). p < q} = (?e - ?s) + card {p \<in> range_pages_set rs. p < q}"
      by (simp add: card_Un_disjoint)
    moreover have "?e - ?s = (unat (mr_end r) - unat (mr_start r)) div 4096" using rp(4) by simp
    moreover have "4096 * ((unat (mr_end r) - unat (mr_start r)) div 4096) = unat (mr_end r) - unat (mr_start r)"
      using rp(3) by auto
    ultimately show ?thesis using False Cons.IH[OF _ cnt _ q] Cons.prems by (simp add: distrib_left)
  qed
qed

text \<open>A slot list is \<open>packed\<close> when the mapping offsets follow one another without a gap.\<close>

fun packed :: "nat \<Rightarrow> slot list \<Rightarrow> bool" where
  "packed off [] = True"
| "packed off (s # ss) = (sl_mapping_offset s = off \<and> packed (off + sl_size_pages s * 4096) ss)"

definition slots_bytes :: "slot list \<Rightarrow> nat" where
  "slots_bytes ss = 4096 * (\<Sum>s\<leftarrow>ss. sl_size_pages s)"

lemma sorted_slots_packed:
  assumes "sorted (map sl_base_pfn (pre @ ss))" and "\<And>s. s \<in> set (pre @ ss) \<Longrightarrow> 0 < sl_size_pages s"
    and "\<And>q. cover_count (mset (pre @ ss)) q \<le> 1"
    and "\<And>s. s \<in> set ss \<Longrightarrow> sl_mapping_offset s = 4096 * card {p \<in> slot_pages (pre @ ss). p < sl_base_pfn s}"
  shows "packed (4096 * card (slot_pages pre)) ss \<and>
    4096 * card (slot_pages pre) + slots_bytes ss = 4096 * card (slot_pages (pre @ ss))"
  using assms
proof (induction ss arbitrary: pre)
  case Nil
  then show ?case by (simp add: slots_bytes_def)
next
  case (Cons s ss)
  let ?B = "{sl_base_pfn s..<sl_base_pfn s + sl_size_pages s}"
  have below: "q < sl_base_pfn s" if q: "q \<in> slot_pages pre" for q
  proof (rule ccontr)
    assume nq: "\<not> q < sl_base_pfn s"
    from q obtain t where t: "t \<in> set pre" "slot_covers q t" by (auto simp: slot_pages_def)
    then have "slot_covers (sl_base_pfn s) t" using Cons.prems(1) nq
      by (auto simp: sorted_append slot_covers_def)
    then have "0 < cover_count (mset pre) (sl_base_pfn s)" using t(1) by (auto simp: cover_count_pos slot_pages_def)
    moreover have "slot_covers (sl_base_pfn s) s" using Cons.prems(2)[of s] by (simp add: slot_covers_def)
    ultimately show False using Cons.prems(3)[of "sl_base_pfn s"] by simp
  qed
  have above: "sl_base_pfn s \<le> q" if "q \<in> slot_pages (s # ss)" for q
    using that Cons.prems(1) by (auto simp: slot_pages_def slot_covers_def sorted_append)
  have "{p \<in> slot_pages (pre @ s # ss). p < sl_base_pfn s} = slot_pages pre"
    using below above by (fastforce simp: slot_pages_def)
  then have off: "sl_mapping_offset s = 4096 * card (slot_pages pre)" using Cons.prems(4)[of s] by simp
  have "slot_pages (pre @ [s]) = slot_pages pre \<union> ?B" by (auto simp: slot_pages_def slot_covers_def)
  moreover have "slot_pages pre \<inter> ?B = {}" using below by fastforce
  ultimately have card: "card (slot_pages (pre @ [s])) = card (slot_pages pre) + sl_size_pages s"
    by (simp add: card_Un_disjoint)
  have "packed (4096 * card (slot_pages (pre @ [s]))) ss \<and>
      4096 * card (slot_pages (pre @ [s])) + slots_bytes ss = 4096 * card (slot_pages ((pre @ [s]) @ ss))"
    using Cons.prems by (intro Cons.IH) auto
  then show ?case using off card by (simp add: slots_bytes_def distrib_left mult.commute)
qed

text \<open>The slot that a slot becomes across a save and a restore: an allocation waits for its device.\<close>

definition pending_slot :: "device_id list \<Rightarrow> slot \<Rightarrow> slot" where
  "pending_slot devs s =
     s\<lparr>sl_state := (case sl_state s of
        SlotAllocated d tag \<Rightarrow> SlotAllocatedPendingRestore (device_name (devs ! d)) tag
      | st \<Rightarrow> st)\<rparr>"

definition saved_slot :: "device_id list \<Rightarrow> slot \<Rightarrow> slot_saved_state" where
  "saved_slot devs s =
     \<lparr>ss_base_pfn = sl_base_pfn s, ss_size_pages = sl_size_pages s,
      ss_state = (case sl_state s of
          SlotFree \<Rightarrow> InnerFree
        | SlotAllocated d tag \<Rightarrow> InnerAllocated (device_name (devs ! d)) tag
        | SlotAllocatedPendingRestore d tag \<Rightarrow> InnerAllocated d tag
        | SlotLeaked d tag \<Rightarrow> InnerLeaked d tag)\<rparr>"

lemma slots_save_eq:
  assumes "\<And>s. s \<in> set ss \<Longrightarrow> \<not> is_pending (sl_state s) \<and> (case sl_state s of SlotAllocated d _ \<Rightarrow> d < length devs | _ \<Rightarrow> True)"
  shows "slots_save devs ss = Some (map (saved_slot devs) ss)"
  using assms
proof (induction ss)
  case (Cons s ss)
  have "slot_save devs s = Some (saved_slot devs s)"
    using Cons.prems[of s] by (cases "sl_state s") (auto simp: slot_save_def saved_slot_def)
  then show ?case using Cons by simp
qed simp

lemma slots_restore_packed:
  assumes "packed off ss" and "off + slots_bytes ss < 2 ^ 64"
    and "\<And>s. s \<in> set ss \<Longrightarrow> \<not> is_pending (sl_state s)"
  shows "slots_restore off (map (saved_slot devs) ss) = Some (map (pending_slot devs) ss, off + slots_bytes ss)"
  using assms
proof (induction ss arbitrary: off)
  case Nil
  then show ?case by (simp add: slots_bytes_def)
next
  case (Cons s ss)
  have st: "\<not> is_pending (sl_state s)" using Cons.prems(3) by simp
  have IH: "slots_restore (off + sl_size_pages s * 4096) (map (saved_slot devs) ss) =
      Some (map (pending_slot devs) ss, off + sl_size_pages s * 4096 + slots_bytes ss)"
    using Cons.prems by (intro Cons.IH) (auto simp: slots_bytes_def)
  have fields: "ss_base_pfn (saved_slot devs s) = sl_base_pfn s" "ss_size_pages (saved_slot devs s) = sl_size_pages s"
    by (simp_all add: saved_slot_def)
  have slot: "\<lparr>sl_base_pfn = sl_base_pfn s, sl_mapping_offset = off, sl_size_pages = sl_size_pages s,
      sl_state = (case ss_state (saved_slot devs s) of InnerFree \<Rightarrow> SlotFree
        | InnerAllocated d tag \<Rightarrow> SlotAllocatedPendingRestore d tag | InnerLeaked d tag \<Rightarrow> SlotLeaked d tag)\<rparr> =
      pending_slot devs s"
    using st Cons.prems(1) by (cases s, cases "sl_state s") (auto simp: saved_slot_def pending_slot_def)
  show ?case using Cons.prems(2) IH
    by (simp add: fields slot u64_add_def u64_mul_def POOL_PAGE_SIZE_def Let_def) (simp add: slots_bytes_def)
qed

lemma insort_key_map: "insort_key f (g x) (map g xs) = map g (insort_key (\<lambda>x. f (g x)) x xs)"
  by (induction xs) auto

lemma sort_key_map: "sort_key f (map g xs) = map g (sort_key (\<lambda>x. f (g x)) xs)"
  by (induction xs) (auto simp: insort_key_map)

lemma pool_restore_save_eq:
  assumes inv: "pool_inv p" and np: "\<And>s. s \<in> set (pp_slots p) \<Longrightarrow> \<not> is_pending (sl_state s)"
    and sorted: "sorted (map mr_start (pp_ranges p))"
    and t: "pp_ranges t = pp_ranges p" "pp_device_ids t = []" "pp_mapping_len t = pp_mapping_len p"
  shows "\<exists>st. pool_save p = Some st \<and> pool_restore t st =
    Some (t\<lparr>pp_slots := map (pending_slot (pp_device_ids p)) (sort_key sl_base_pfn (pp_slots p))\<rparr>, Inr ())"
proof -
  let ?ss = "sort_key sl_base_pfn (pp_slots p)" and ?rs = "pp_ranges p" and ?devs = "pp_device_ids p"
  have rs: "\<forall>r \<in> set ?rs. mr_wf r \<and> mr_start r < mr_end r" "ranges_bytes ?rs < 2 ^ 64"
    "\<And>q. length (filter (range_covers q) ?rs) \<le> 1" using inv by (auto simp: pool_inv_def ranges_ok_def)
  have ok: "slot_ok ?rs (length ?devs) s" if "s \<in> set (pp_slots p)" for s using inv that by (simp add: pool_inv_def)
  have cover: "cover_count (mset ?ss) q = length (filter (range_covers q) ?rs)" for q
    using inv by (simp add: pool_inv_def)
  have pages: "slot_pages ?ss = range_pages_set ?rs"
    using cover_count_pos[of ?ss] range_count_pos[of _ ?rs] cover by (metis set_eqI)
  have "sl_mapping_offset s = 4096 * card {q \<in> slot_pages ?ss. q < sl_base_pfn s}" if "s \<in> set ?ss" for s
  proof -
    have s: "slot_ok ?rs (length ?devs) s" using that ok by simp
    then have c: "slot_covers (sl_base_pfn s) s" by (simp add: slot_ok_def slot_covers_def)
    then have "sl_base_pfn s \<in> range_pages_set ?rs" using that pages by (auto simp: slot_pages_def)
    then show ?thesis using s c page_offset_sorted[OF rs(1,3) sorted, of "sl_base_pfn s" 0]
      by (auto simp: slot_ok_def pages)
  qed
  then have "packed 0 ?ss \<and> slots_bytes ?ss = 4096 * card (slot_pages ?ss)"
    using sorted_slots_packed[of "[]" ?ss] ok rs(3) cover by (auto simp: slot_pages_def slot_ok_def)
  then have pk: "packed 0 ?ss" "slots_bytes ?ss = ranges_bytes ?rs"
    using ranges_bytes_card[OF rs(1,3)] pages by simp_all
  have "slots_save ?devs (pp_slots p) = Some (map (saved_slot ?devs) (pp_slots p))"
    using np ok by (intro slots_save_eq) (auto simp: slot_ok_def)
  moreover have "sort_key ss_base_pfn (map (saved_slot ?devs) (pp_slots p)) = map (saved_slot ?devs) ?ss"
    by (simp add: sort_key_map saved_slot_def)
  moreover have "slots_restore 0 (map (saved_slot ?devs) ?ss) = Some (map (pending_slot ?devs) ?ss, ranges_bytes ?rs)"
    using slots_restore_packed[OF pk(1), of ?devs] pk(2) rs(2) np by simp
  moreover have "\<not> list_ex (\<lambda>(a, b). a \<noteq> b) (zip ?rs ?rs)"
    by (auto simp: list_ex_iff in_set_zip)
  ultimately show ?thesis using t inv by (simp add: pool_save_def pool_restore_def pool_inv_def)
qed

lemma cover_count_pending:
  "cover_count (mset (map (pending_slot devs) ss)) q = cover_count (mset ss) q"
  by (induction ss) (simp_all add: pending_slot_def slot_covers_def)

lemma pending_slots_inv:
  assumes inv: "pool_inv p"
    and t: "pp_ranges t = pp_ranges p" "pp_device_ids t = []" "pp_mapping_len t = pp_mapping_len p"
  shows "pool_inv (t\<lparr>pp_slots := map (pending_slot (pp_device_ids p)) (sort_key sl_base_pfn (pp_slots p))\<rparr>)"
proof -
  have "slot_ok (pp_ranges p) 0 (pending_slot (pp_device_ids p) s)" if "s \<in> set (pp_slots p)" for s
    using inv that
    by (cases "sl_state s") (auto simp: pool_inv_def slot_ok_def pending_slot_def slot_covers_def)
  then show ?thesis using inv t cover_count_pending[of _ "sort_key sl_base_pfn (pp_slots p)"]
    by (auto simp: pool_inv_def)
qed

text \<open>In a well-formed pool the first page of a slot determines the mapping offset of a handle.\<close>

lemma restore_alloc_pending:
  assumes inv: "pool_inv p" and dev: "dev < length (pp_device_ids p)" and s: "s \<in> set (pp_slots p)"
    and st: "pending_for (device_name (pp_device_ids p ! dev)) (sl_state s)"
  shows "\<exists>p'. restore_alloc p dev (sl_base_pfn s) (sl_size_pages s) = Some (p', Inr (handle_of s))"
proof -
  let ?P = "\<lambda>x. pending_for (device_name (pp_device_ids p ! dev)) (sl_state x) \<and>
    sl_base_pfn x = sl_base_pfn s \<and> sl_size_pages x = sl_size_pages s"
  obtain i where i: "position ?P (pp_slots p) = Some i" using position_ex[OF s, of ?P] st by auto
  let ?x = "pp_slots p ! i"
  from position_eq_Some[OF i] have lt: "i < length (pp_slots p)" and P: "?P ?x" by auto
  have ok: "slot_ok (pp_ranges p) (length (pp_device_ids p)) ?x" "slot_ok (pp_ranges p) (length (pp_device_ids p)) s"
    using inv lt s by (auto simp: pool_inv_def)
  then have "slot_covers (sl_base_pfn s) ?x" "slot_covers (sl_base_pfn s) s"
    using P by (auto simp: slot_ok_def slot_covers_def)
  then have off: "sl_mapping_offset ?x = sl_mapping_offset s" using ok P by (fastforce simp: slot_ok_def)
  obtain tag where "restore_allocated (sl_state ?x) dev = Some (SlotAllocated dev tag)"
    using restore_allocated_pending P by blast
  then show ?thesis using dev i off ok(1)
    by (simp add: restore_alloc_def Let_def handle_of_def slot_ok_def POOL_PAGE_SIZE_def)
qed

subsection \<open>Properties\<close>

text \<open>C4. Live allocations never overlap: from a new pool, every sequence of client operations runs
  without a panic (dropping a handle always finds its slot), every page belongs to at most one live
  handle and only pages of the pool are handed out, and the memory each handle gives access to is
  exactly where those pages are mapped.\<close>

theorem pool_handles_disjoint:
  assumes "ranges_ok rs"
  shows "\<exists>p s. pool_new (\<lambda>_. True) (\<lambda>_ _ _. True) fo bias rs = Some (Inr p) \<and>
    run_steps pool_step \<lparr>sys_pool = p, sys_allocators = [], sys_handles = []\<rparr> es = Some s \<and>
    (\<forall>q. length (filter (handle_covers q) (sys_handles s)) \<le> 1) \<and>
    (\<forall>h \<in> set (sys_handles s). handle_mapping (sys_pool s) h \<noteq> None \<and>
       (\<forall>q. handle_covers q h \<longrightarrow> ph_mapping_offset h + (q - ph_base_pfn h) * 4096 = page_offset 0 (pp_ranges (sys_pool s)) q))"
proof -
  obtain p where p: "pool_new (\<lambda>_. True) (\<lambda>_ _ _. True) fo bias rs = Some (Inr p)" "pool_inv p"
    "\<forall>s \<in> set (pp_slots p). sl_state s = SlotFree" using pool_new_inv[OF assms] by blast
  have "live_handles (mset (pp_slots p)) = {#}"
    using p(3) in_live_handles[of _ "pp_slots p"] by (metis is_allocated.simps(2) multiset_nonemptyE)
  then have "pool_system_inv \<lparr>sys_pool = p, sys_allocators = [], sys_handles = []\<rparr>"
    using p(2) by (simp add: pool_system_inv_def)
  then obtain s where s: "run_steps pool_step \<lparr>sys_pool = p, sys_allocators = [], sys_handles = []\<rparr> es = Some s"
    "pool_system_inv s" using pool_machine.run_inv by (fastforce simp: list_all_iff)
  let ?slots = "pp_slots (sys_pool s)" and ?rs = "pp_ranges (sys_pool s)"
  have inv: "pool_inv (sys_pool s)" and hs: "mset (sys_handles s) = live_handles (mset ?slots)"
    using s(2) by (simp_all add: pool_system_inv_def)
  have "length (filter (handle_covers q) (sys_handles s)) \<le> 1" for q
  proof -
    have "length (filter (handle_covers q) (sys_handles s)) = size (filter_mset (handle_covers q) (live_handles (mset ?slots)))"
      by (metis hs mset_filter size_mset)
    also have "\<dots> = size (filter_mset (\<lambda>s. slot_covers q s \<and> is_allocated (sl_state s)) (mset ?slots))"
      by (simp add: live_handles_def filter_mset_image_mset filter_filter_mset handle_covers_def slot_covers_def
          handle_of_def conj_commute)
    also have "\<dots> = size (filter_mset (\<lambda>s. is_allocated (sl_state s)) (filter_mset (slot_covers q) (mset ?slots)))"
      by (simp add: filter_filter_mset)
    also have "\<dots> \<le> cover_count (mset ?slots) q"
      unfolding cover_count_def by (rule size_filter_mset_lesseq)
    also have "\<dots> \<le> 1" using inv by (simp add: pool_inv_def ranges_ok_def)
    finally show ?thesis .
  qed
  moreover have "handle_mapping (sys_pool s) h \<noteq> None \<and>
     (\<forall>q. handle_covers q h \<longrightarrow> ph_mapping_offset h + (q - ph_base_pfn h) * 4096 = page_offset 0 ?rs q)"
    if "h \<in> set (sys_handles s)" for h
  proof -
    from that obtain x where x: "x \<in> set ?slots" "handle_of x = h" using hs in_live_handles[of h ?slots] by (metis set_mset_mset)
    then have "slot_ok ?rs (length (pp_device_ids (sys_pool s))) x" using inv by (simp add: pool_inv_def)
    then show ?thesis using x(2) inv
      by (auto simp: slot_ok_def handle_of_def handle_covers_def slot_covers_def handle_mapping_def u64_add_def u64_mul_def
          POOL_PAGE_SIZE_def pool_inv_def ranges_ok_def)
  qed
  ultimately show ?thesis using p(1) s(1) by blast
qed

lemma example_ranges_ok: "ranges_ok [mr 0x1000 0x5000, mr 0x8000 0xa000]"
  by (auto simp: ranges_ok_def mr_wf_def PAGE_SIZE_def range_covers_def)

theorem pool_handles_disjoint_witness:
  "\<exists>p s. pool_new (\<lambda>_. True) (\<lambda>_ _ _. True) id 0 [mr 0x1000 0x5000, mr 0x8000 0xa000] = Some (Inr p) \<and>
    run_steps pool_step \<lparr>sys_pool = p, sys_allocators = [], sys_handles = []\<rparr>
      [PoolNewAllocator ''nvme'', PoolAlloc 0 2 ''queue'', PoolAlloc 0 2 ''prp'', PoolDropHandle 1, PoolAlloc 0 1 ''x''] = Some s \<and>
    (\<forall>q. length (filter (handle_covers q) (sys_handles s)) \<le> 1)"
  using pool_handles_disjoint [OF example_ranges_ok] by blast

text \<open>C23. Allocation is complete for the slots there are: it fails, leaving the pool unchanged, only
  when no single free slot has enough pages, and otherwise returns a handle of the requested size.\<close>

theorem pool_alloc_first_fit:
  assumes "pool_inv p" and "0 < n" and "dev < length (pp_device_ids p)"
  shows "\<exists>p' r. pool_alloc p dev n tag = Some (p', r) \<and> pool_inv p' \<and>
    (case r of
       Inl e \<Rightarrow> p' = p \<and> e = PagePoolOutOfMemory n tag \<and>
         (\<forall>s \<in> set (pp_slots p). sl_state s = SlotFree \<longrightarrow> sl_size_pages s < n)
     | Inr h \<Rightarrow> ph_size_pages h = n)"
  using pool_alloc_spec[OF assms, of tag] by blast

theorem pool_alloc_first_fit_witness:
  "\<exists>p p' r. pool_new (\<lambda>_. True) (\<lambda>_ _ _. True) id 0 [mr 0x1000 0x5000, mr 0x8000 0xa000] = Some (Inr p) \<and>
    pool_alloc (p\<lparr>pp_device_ids := [DevUsed ''nvme'']\<rparr>) 0 3 ''queue'' = Some (p', r) \<and> pool_inv p'"
proof -
  obtain p where p: "pool_new (\<lambda>_. True) (\<lambda>_ _ _. True) id 0 [mr 0x1000 0x5000, mr 0x8000 0xa000] = Some (Inr p)"
    "pool_inv p" "pp_device_ids p = []" using pool_new_inv[OF example_ranges_ok] by blast
  let ?p = "p\<lparr>pp_device_ids := [DevUsed ''nvme'']\<rparr>"
  have inv: "pool_inv ?p" using p by (auto simp: pool_inv_def intro: slot_ok_more_devices)
  have hyps: "0 < (3 :: nat)" "0 < length (pp_device_ids ?p)" by simp_all
  show ?thesis using pool_alloc_first_fit [OF inv hyps, of "''queue''"] p(1) by blast
qed

text \<open>C18. Allocations survive servicing: when the ranges of the pool are in address order, saving a pool
  and restoring the state into a new pool over the same ranges succeeds, and every device that
  re-creates its allocator gets each of its allocations back with the same pages and the same place in
  the mapping.\<close>

theorem pool_allocations_survive:
  assumes "pool_inv p" and "list_all (\<lambda>s. \<not> is_pending (sl_state s)) (pp_slots p)"
    and "sorted (map mr_start (pp_ranges p))"
    and "pool_new (\<lambda>_. True) (\<lambda>_ _ _. True) fo bias (pp_ranges p) = Some (Inr t)"
    and "s \<in> set (pp_slots p)" and "sl_state s = SlotAllocated d tag"
  shows "\<exists>st t1 t2 t3. pool_save p = Some st \<and> pool_restore t st = Some (t1, Inr ()) \<and> pool_inv t1 \<and>
    allocator_new t1 (device_name (pp_device_ids p ! d)) = (t2, Inr 0) \<and>
    restore_alloc t2 0 (sl_base_pfn s) (sl_size_pages s) = Some (t3, Inr (handle_of s))"
proof -
  let ?name = "device_name (pp_device_ids p ! d)"
  have ok: "ranges_ok (pp_ranges p)" using assms(1) by (simp add: pool_inv_def)
  obtain t' where "pool_new (\<lambda>_. True) (\<lambda>_ _ _. True) fo bias (pp_ranges p) = Some (Inr t')" "pool_inv t'"
    "pp_device_ids t' = []" "pp_ranges t' = pp_ranges p"
    using pool_new_inv[OF ok, of fo bias] by blast
  then have t: "pp_ranges t = pp_ranges p" "pp_device_ids t = []" "pp_mapping_len t = pp_mapping_len p"
    using assms(1,4) by (auto simp: pool_inv_def)
  let ?t1 = "t\<lparr>pp_slots := map (pending_slot (pp_device_ids p)) (sort_key sl_base_pfn (pp_slots p))\<rparr>"
  let ?t2 = "?t1\<lparr>pp_device_ids := [DevUsed ?name]\<rparr>"
  have np: "\<And>s. s \<in> set (pp_slots p) \<Longrightarrow> \<not> is_pending (sl_state s)" using assms(2) by (simp add: list_all_iff)
  obtain st where st: "pool_save p = Some st" "pool_restore t st = Some (?t1, Inr ())"
    using pool_restore_save_eq[OF assms(1) np assms(3) t] by blast
  have inv1: "pool_inv ?t1" by (rule pending_slots_inv[OF assms(1) t])
  have new: "allocator_new ?t1 ?name = (?t2, Inr 0)" using t(2) by (simp add: allocator_new_def)
  have inv2: "pool_inv ?t2" using allocator_new_spec[OF inv1, of ?name] by (simp add: new)
  let ?x = "pending_slot (pp_device_ids p) s"
  have x: "?x \<in> set (pp_slots ?t2)" using assms(5) by simp
  have pend: "pending_for (device_name (pp_device_ids ?t2 ! 0)) (sl_state ?x)"
    using assms(6) by (simp add: pending_slot_def)
  have "\<exists>t3. restore_alloc ?t2 0 (sl_base_pfn ?x) (sl_size_pages ?x) = Some (t3, Inr (handle_of ?x))"
    by (rule restore_alloc_pending[OF inv2 _ x pend]) simp
  moreover have "sl_base_pfn ?x = sl_base_pfn s" "sl_size_pages ?x = sl_size_pages s" "handle_of ?x = handle_of s"
    by (simp_all add: pending_slot_def handle_of_def)
  ultimately show ?thesis using st inv1 new by metis
qed

definition example_pool :: page_pool where
  "example_pool =
     \<lparr>pp_slots = [\<lparr>sl_base_pfn = 1, sl_mapping_offset = 0, sl_size_pages = 4, sl_state = SlotFree\<rparr>,
                  \<lparr>sl_base_pfn = 8, sl_mapping_offset = 0x4000, sl_size_pages = 2, sl_state = SlotFree\<rparr>],
      pp_device_ids = [], pp_pfn_bias = 0, pp_mapping_len = 0x6000,
      pp_ranges = [mr 0x1000 0x5000, mr 0x8000 0xa000]\<rparr>"

definition example_pool_used :: page_pool where
  "example_pool_used = example_pool
     \<lparr>pp_slots := [\<lparr>sl_base_pfn = 8, sl_mapping_offset = 0x4000, sl_size_pages = 2, sl_state = SlotFree\<rparr>,
                   \<lparr>sl_base_pfn = 1, sl_mapping_offset = 0, sl_size_pages = 3, sl_state = SlotAllocated 0 ''queue''\<rparr>,
                   \<lparr>sl_base_pfn = 4, sl_mapping_offset = 0x3000, sl_size_pages = 1, sl_state = SlotFree\<rparr>],
      pp_device_ids := [DevUsed ''nvme'']\<rparr>"

lemma example_pool_new:
  "pool_new (\<lambda>_. True) (\<lambda>_ _ _. True) id 0 [mr 0x1000 0x5000, mr 0x8000 0xa000] = Some (Inr example_pool)"
  by (simp add: pool_new_def mr_len_def sub_ck_def u64_add_def POOL_PAGE_SIZE_def example_pool_def)

lemma example_pool_used_inv: "pool_inv example_pool_used"
proof -
  have "pool_inv example_pool" using pool_new_inv[OF example_ranges_ok, of id 0] example_pool_new by simp
  then have inv: "pool_inv (example_pool\<lparr>pp_device_ids := [DevUsed ''nvme'']\<rparr>)" (is "pool_inv ?p")
    by (auto simp: pool_inv_def example_pool_def intro: slot_ok_more_devices)
  have "\<exists>h. pool_alloc ?p 0 3 ''queue'' = Some (example_pool_used, Inr h)"
    by (simp add: pool_alloc_def example_pool_def example_pool_used_def u64_add_def u64_mul_def POOL_PAGE_SIZE_def
        swap_remove_def)
  then show ?thesis using pool_alloc_spec[OF inv, of 3 0 "''queue''"] by auto
qed

theorem pool_allocations_survive_witness:
  "\<exists>st t1 t2 t3. pool_save example_pool_used = Some st \<and> pool_restore example_pool st = Some (t1, Inr ()) \<and>
    allocator_new t1 ''nvme'' = (t2, Inr 0) \<and>
    restore_alloc t2 0 1 3 = Some (t3, Inr \<lparr>ph_base_pfn = 1, ph_size_pages = 3, ph_mapping_offset = 0\<rparr>)"
proof -
  let ?s = "\<lparr>sl_base_pfn = 1, sl_mapping_offset = 0, sl_size_pages = 3, sl_state = SlotAllocated 0 ''queue''\<rparr>"
  have hyps: "list_all (\<lambda>s. \<not> is_pending (sl_state s)) (pp_slots example_pool_used)"
    "sorted (map mr_start (pp_ranges example_pool_used))"
    "pool_new (\<lambda>_. True) (\<lambda>_ _ _. True) id 0 (pp_ranges example_pool_used) = Some (Inr example_pool)"
    "?s \<in> set (pp_slots example_pool_used)" "sl_state ?s = SlotAllocated 0 ''queue''"
    using example_pool_new by (simp_all add: example_pool_used_def example_pool_def)
  have name: "device_name (pp_device_ids example_pool_used ! 0) = ''nvme''" by (simp add: example_pool_used_def)
  have "handle_of ?s = \<lparr>ph_base_pfn = 1, ph_size_pages = 3, ph_mapping_offset = 0\<rparr>" by (simp add: handle_of_def)
  with pool_allocations_survive [OF example_pool_used_inv hyps] show ?thesis by (auto simp: name)
qed



end
