(* ===== verification/GuestRanges.thy ===== *)
theory GuestRanges
  imports Prelude
begin

text \<open>
  Ranges of guest memory scattered over guest pages: \<open>guestmem_core::ranges\<close>
  (\<open>PagedRange\<close>, its split into contiguous address ranges, and the list \<open>PagedRanges\<close>) and
  \<open>vmbus_ring::gparange\<close> (the wire encoding of such ranges in GPADLs and GPA-direct packets, and
  \<open>MultiPagedRangeBuf\<close>, which stores them).

  Byte offsets and lengths are \<open>usize\<close> values, kept as natural numbers; page numbers and guest
  addresses are \<open>u64\<close> words with checked arithmetic. The fields of \<open>PagedRange\<close> are private and
  always satisfy \<open>paged_range_ok\<close>, so the subtraction in \<open>len\<close> and the slice in \<open>gpns\<close> are in
  range. An iterator is the list of the items it has yet to return.
\<close>

subsection \<open>Paged ranges\<close>

definition GUEST_PAGE_SIZE :: nat where
  "GUEST_PAGE_SIZE = 4096"




record paged_range =
  pr_start :: nat
  pr_end :: nat
  pr_gpns :: "u64 list"

definition paged_range_new :: "nat \<Rightarrow> nat \<Rightarrow> u64 list \<Rightarrow> paged_range option" where
  "paged_range_new offset len gpns =
     (let maxlen = length gpns * GUEST_PAGE_SIZE in
      if maxlen < offset \<or> maxlen - offset < len then None
      else Some \<lparr>pr_start = offset, pr_end = offset + len, pr_gpns = gpns\<rparr>)"

definition paged_range_empty :: paged_range where
  "paged_range_empty = \<lparr>pr_start = 0, pr_end = 0, pr_gpns = []\<rparr>"

definition pr_len :: "paged_range \<Rightarrow> nat" where
  "pr_len r = pr_end r - pr_start r"


definition pr_offset :: "paged_range \<Rightarrow> nat" where
  "pr_offset r = pr_start r mod GUEST_PAGE_SIZE"

text \<open>The method \<open>gpns\<close>: the pages that the range covers.\<close>

definition pr_pages :: "paged_range \<Rightarrow> u64 list" where
  "pr_pages r =
     (let start_page = pr_start r div GUEST_PAGE_SIZE; end_page = div_ceil (pr_end r) GUEST_PAGE_SIZE in
      slice start_page (end_page - start_page) (pr_gpns r))"

definition try_subrange :: "paged_range \<Rightarrow> nat \<Rightarrow> nat \<Rightarrow> paged_range option" where
  "try_subrange r offset len =
     (if pr_len r \<ge> offset \<and> pr_len r - offset \<ge> len
      then Some \<lparr>pr_start = pr_start r + offset, pr_end = pr_start r + offset + len, pr_gpns = pr_gpns r\<rparr>
      else None)"

text \<open>\<open>subrange\<close> panics where \<open>try_subrange\<close> returns \<open>None\<close>; a panic is \<open>None\<close> as well.\<close>

definition subrange :: "paged_range \<Rightarrow> nat \<Rightarrow> nat \<Rightarrow> paged_range option" where
  "subrange r offset len = try_subrange r offset len"

definition pr_skip :: "paged_range \<Rightarrow> nat \<Rightarrow> paged_range option" where
  "pr_skip r len = do {
     assert_that (pr_len r \<ge> len);
     Some (r\<lparr>pr_start := pr_start r + len\<rparr>)
   }"

definition pr_truncate :: "paged_range \<Rightarrow> nat \<Rightarrow> paged_range option" where
  "pr_truncate r len = do {
     assert_that (pr_len r \<ge> len);
     Some (r\<lparr>pr_end := pr_start r + len\<rparr>)
   }"

definition try_split :: "paged_range \<Rightarrow> nat \<Rightarrow> (paged_range \<times> paged_range) option" where
  "try_split r offset =
     (if pr_len r \<ge> offset
      then Some (\<lparr>pr_start = pr_start r, pr_end = pr_start r + offset, pr_gpns = pr_gpns r\<rparr>,
                 \<lparr>pr_start = pr_start r + offset, pr_end = pr_end r, pr_gpns = pr_gpns r\<rparr>)
      else None)"

definition pr_split :: "paged_range \<Rightarrow> nat \<Rightarrow> (paged_range \<times> paged_range) option" where
  "pr_split r offset = do {
     assert_that (pr_len r \<ge> offset);
     Some (\<lparr>pr_start = pr_start r, pr_end = pr_start r + offset, pr_gpns = pr_gpns r\<rparr>,
           \<lparr>pr_start = pr_start r + offset, pr_end = pr_end r, pr_gpns = pr_gpns r\<rparr>)
   }"




subsection \<open>Lists of paged ranges\<close>

record paged_ranges =
  ps_ranges :: "paged_range list"
  ps_current :: "paged_range option"
  ps_start :: nat
  ps_end :: nat

definition paged_ranges_new :: "paged_range list \<Rightarrow> paged_ranges" where
  "paged_ranges_new rs =
     \<lparr>ps_ranges = rs, ps_current = None, ps_start = 0, ps_end = sum_list (map pr_len rs)\<rparr>"

definition ps_len :: "paged_ranges \<Rightarrow> nat" where
  "ps_len p = ps_end p - ps_start p"

definition ps_is_empty :: "paged_ranges \<Rightarrow> bool" where
  "ps_is_empty p \<longleftrightarrow> ps_start p = ps_end p"

definition ps_truncate :: "paged_ranges \<Rightarrow> nat \<Rightarrow> paged_ranges option" where
  "ps_truncate p len = do {
     assert_that (ps_len p \<ge> len);
     Some (p\<lparr>ps_end := ps_start p + len\<rparr>)
   }"

text \<open>\<open>next\<close> of the wrapped iterator, where \<open>current\<close> is not set.\<close>

definition ps_fetch :: "paged_ranges \<Rightarrow> paged_ranges" where
  "ps_fetch p =
     (if ps_current p = None then
        (case ps_ranges p of
           [] \<Rightarrow> p
         | r # rs \<Rightarrow> p\<lparr>ps_ranges := rs, ps_current := Some r\<rparr>)
      else p)"

definition ps_current_range :: "paged_ranges \<Rightarrow> nat \<Rightarrow> (paged_ranges \<times> paged_range) option" where
  "ps_current_range p max_len = do {
     assert_that (max_len \<le> ps_len p);
     let p = ps_fetch p;
     range \<leftarrow> ps_current p;
     rest \<leftarrow> nat_sub_ck (pr_len range) (ps_start p);
     s \<leftarrow> subrange range (ps_start p) (min max_len rest);
     Some (p, s)
   }"

definition ps_advance :: "paged_ranges \<Rightarrow> nat \<Rightarrow> paged_ranges option" where
  "ps_advance p n = do {
     current \<leftarrow> ps_current p;
     let start = ps_start p + n;
     if start = pr_len current then do {
       stop \<leftarrow> nat_sub_ck (ps_end p) start;
       Some (p\<lparr>ps_current := None, ps_end := stop, ps_start := 0\<rparr>)
     } else Some (p\<lparr>ps_start := start\<rparr>)
   }"

text \<open>The number of ranges that \<open>skip\<close> can still enter.\<close>

definition ps_pending :: "paged_ranges \<Rightarrow> nat" where
  "ps_pending p = length (ps_ranges p) + (if ps_current p = None then 0 else 1)"

lemma ps_loop_decreases:
  assumes "ps_current_range p len = Some (q, s)" "ps_advance q (pr_len s) = Some t" "0 < len"
  shows "len - pr_len s < len \<or> pr_len s = 0 \<and> ps_pending t < ps_pending p"
proof (cases "pr_len s = 0")
  case True
  from assms(1) obtain c where c: "ps_current (ps_fetch p) = Some c" "q = ps_fetch p"
      "ps_start q \<le> pr_len c" "pr_len s = min len (pr_len c - ps_start q)"
    by (auto simp: ps_current_range_def Let_def subrange_def try_subrange_def nat_sub_ck_def pr_len_def
        split: bind_splits if_splits)
  with True assms(3) have "ps_start q = pr_len c" by (simp add: min_def split: if_splits)
  with assms(2) c True have t: "ps_current t = None" "ps_ranges t = ps_ranges (ps_fetch p)"
    by (auto simp: ps_advance_def Let_def split: bind_splits if_splits)
  have "ps_pending t < ps_pending p"
    using t c(1) by (auto simp: ps_pending_def ps_fetch_def split: if_splits list.splits)
  with True show ?thesis by simp
next
  case False
  with assms(3) show ?thesis by simp
qed

function ps_skip :: "paged_ranges \<Rightarrow> nat \<Rightarrow> paged_ranges option" where
  "ps_skip p len =
     (if 0 < len then
        (case ps_current_range p len of
           None \<Rightarrow> None
         | Some (q, s) \<Rightarrow>
             (case ps_advance q (pr_len s) of
                None \<Rightarrow> None
              | Some t \<Rightarrow> ps_skip t (len - pr_len s)))
      else Some p)"
  by pat_completeness auto
termination
  by (relation "measures [\<lambda>(p, len). len, \<lambda>(p, len). ps_pending p]")
    (use ps_loop_decreases in force)+

declare ps_skip.simps [simp del]

text \<open>\<open>PagedRanges::skip\<close> with its assertion, and \<open>next\<close> of \<open>PagedRangesIter\<close>.\<close>

definition paged_ranges_skip :: "paged_ranges \<Rightarrow> nat \<Rightarrow> paged_ranges option" where
  "paged_ranges_skip p len = do {
     assert_that (ps_len p \<ge> len);
     ps_skip p len
   }"

definition paged_ranges_next :: "paged_ranges \<Rightarrow> (paged_ranges \<times> paged_range option) option" where
  "paged_ranges_next p =
     (if ps_is_empty p then Some (p, None)
      else do {
        let p = ps_fetch p;
        current \<leftarrow> ps_current p;
        let offset = ps_start p;
        len \<leftarrow> nat_sub_ck (min (ps_end p) (pr_len current)) offset;
        stop \<leftarrow> nat_sub_ck (ps_end p) (offset + len);
        s \<leftarrow> subrange current offset len;
        Some (p\<lparr>ps_current := None, ps_start := 0, ps_end := stop\<rparr>, Some s)
      })"

subsection \<open>The wire encoding of GPA ranges\<close>

datatype gpa_error = EmptyRange | EmptyByteCount | RangeTooSmall | OffsetTooLarge | Overflow

text \<open>\<open>GpaRange\<close> occupies one \<open>u64\<close>: the byte count in the low half, the offset in the high half.\<close>

record gpa_range =
  gr_len :: u32
  gr_offset :: u32

definition gpa_range_of_u64 :: "u64 \<Rightarrow> gpa_range" where
  "gpa_range_of_u64 w = \<lparr>gr_len = ucast w, gr_offset = ucast (drop_bit 32 w)\<rparr>"

definition gpa_range_to_u64 :: "gpa_range \<Rightarrow> u64" where
  "gpa_range_to_u64 h = ucast (gr_len h) OR push_bit 32 (ucast (gr_offset h))"

text \<open>\<open>parse\<close>: the outer option is the assertion and the \<open>expect\<close> at its end.\<close>

definition parse :: "u64 list \<Rightarrow> (gpa_error + paged_range \<times> u64 list) option" where
  "parse buf =
     (case buf of
        [] \<Rightarrow> Some (Inl EmptyRange)
      | hdr # gpas \<Rightarrow>
          (let byte_count = ucast hdr :: u32; byte_offset = ucast (drop_bit 32 hdr) :: u32 in
           if byte_count = 0 then Some (Inl EmptyByteCount)
           else if byte_offset > 0xfff then Some (Inl OffsetTooLarge)
           else
             (case add_ck byte_count 4095 \<bind> (\<lambda>n. add_ck n byte_offset) of
                None \<Rightarrow> Some (Inl Overflow)
              | Some n \<Rightarrow>
                  (let pages = unat n div GUEST_PAGE_SIZE in
                   if length gpas < pages then Some (Inl RangeTooSmall)
                   else do {
                     (these, rest) \<leftarrow> split_at_ck pages gpas;
                     assert_that (these \<noteq> []);
                     r \<leftarrow> paged_range_new (unat byte_offset) (unat byte_count) these;
                     Some (Inr (r, rest))
                   }))))"

text \<open>The loop of \<open>validate_gpa_ranges\<close> returns what remains of the buffer.\<close>

fun validate_loop :: "nat \<Rightarrow> u64 list \<Rightarrow> (gpa_error + u64 list) option" where
  "validate_loop 0 rem = Some (Inr rem)"
| "validate_loop (Suc n) rem =
     (case parse rem of
        None \<Rightarrow> None
      | Some (Inl e) \<Rightarrow> Some (Inl e)
      | Some (Inr (_, rest)) \<Rightarrow> validate_loop n rest)"

definition validate_gpa_ranges :: "nat \<Rightarrow> u64 list \<Rightarrow> (gpa_error + nat) option" where
  "validate_gpa_ranges count buf =
     (case validate_loop count buf of
        None \<Rightarrow> None
      | Some (Inl e) \<Rightarrow> Some (Inl e)
      | Some (Inr rem) \<Rightarrow> Some (Inr (length buf - length rem)))"

record multi_buf =
  mb_buf :: "u64 list"
  mb_valid :: nat
  mb_count :: nat

definition from_range_buffer :: "nat \<Rightarrow> u64 list \<Rightarrow> (gpa_error + multi_buf) option" where
  "from_range_buffer count buf =
     (case validate_gpa_ranges count buf of
        None \<Rightarrow> None
      | Some (Inl e) \<Rightarrow> Some (Inl e)
      | Some (Inr valid) \<Rightarrow>
          Some (Inr \<lparr>mb_buf = take valid buf, mb_valid = valid, mb_count = count\<rparr>))"

definition multi_buf_new :: multi_buf where
  "multi_buf_new = \<lparr>mb_buf = [], mb_valid = 0, mb_count = 0\<rparr>"

definition range_buffer :: "multi_buf \<Rightarrow> u64 list option" where
  "range_buffer b = do {
     (valid, _) \<leftarrow> split_at_ck (mb_valid b) (mb_buf b);
     Some valid
   }"

definition multi_buf_clear :: "multi_buf \<Rightarrow> multi_buf" where
  "multi_buf_clear b = b\<lparr>mb_valid := 0, mb_count := 0\<rparr>"

text \<open>
  \<open>resize_buffer\<close> initialises the whole capacity that \<open>Vec\<close> reserved. How much \<open>Vec\<close> reserves is
  up to the allocator: \<open>capacity\<close> gives it for the requested length.
\<close>

definition resize_buffer :: "(nat \<Rightarrow> nat) \<Rightarrow> nat \<Rightarrow> multi_buf \<Rightarrow> multi_buf" where
  "resize_buffer capacity new_size b =
     (let buf = take new_size (mb_buf b) @ replicate (new_size - length (mb_buf b)) 0 in
      b\<lparr>mb_buf := take (capacity new_size) buf @ replicate (capacity new_size - length buf) 0\<rparr>)"

definition ensure_space :: "(nat \<Rightarrow> nat) \<Rightarrow> nat \<Rightarrow> multi_buf \<Rightarrow> multi_buf" where
  "ensure_space capacity additional b =
     (let required = mb_valid b + additional in
      if required > length (mb_buf b) then resize_buffer capacity required b else b)"

definition push_range :: "(nat \<Rightarrow> nat) \<Rightarrow> paged_range \<Rightarrow> multi_buf \<Rightarrow> multi_buf" where
  "push_range capacity r b =
     (let len = 1 + length (pr_pages r);
          b = ensure_space capacity len b;
          hdr = \<lparr>gr_len = of_nat (pr_len r), gr_offset = of_nat (pr_offset r)\<rparr> in
      b\<lparr>mb_buf := splice (mb_valid b) (gpa_range_to_u64 hdr # pr_pages r) (mb_buf b),
        mb_count := mb_count b + 1,
        mb_valid := mb_valid b + len\<rparr>)"

text \<open>
  \<open>try_extend_with\<close>: the caller's closure \<open>f\<close> receives the new part of the buffer and returns its
  contents, and an error or success. The outcome is \<open>f\<close>'s error, or the outcome of the validation.
\<close>

definition try_extend_with ::
  "(nat \<Rightarrow> nat) \<Rightarrow> nat \<Rightarrow> nat \<Rightarrow> (u64 list \<Rightarrow> u64 list \<times> ('e + unit)) \<Rightarrow> multi_buf \<Rightarrow>
   (multi_buf \<times> ('e + gpa_error + unit)) option" where
  "try_extend_with capacity len count f b =
     (let b = ensure_space capacity len b;
          (filled, res) = f (slice (mb_valid b) len (mb_buf b));
          b = b\<lparr>mb_buf := splice (mb_valid b) filled (mb_buf b)\<rparr> in
      case res of
        Inl e \<Rightarrow> Some (b, Inl e)
      | Inr _ \<Rightarrow>
          (case validate_gpa_ranges count filled of
             None \<Rightarrow> None
           | Some (Inl e) \<Rightarrow> Some (b, Inr (Inl e))
           | Some (Inr valid_len) \<Rightarrow>
               Some (b\<lparr>mb_valid := mb_valid b + valid_len, mb_count := mb_count b + count\<rparr>,
                     Inr (Inr ()))))"

text \<open>\<open>MultiPagedRangeIter\<close>: the rest of the buffer and the number of ranges left.\<close>

record multi_iter =
  mi_buf :: "u64 list"
  mi_count :: nat

definition multi_buf_iter :: "multi_buf \<Rightarrow> multi_iter" where
  "multi_buf_iter b = \<lparr>mi_buf = mb_buf b, mi_count = mb_count b\<rparr>"

definition multi_iter_next :: "multi_iter \<Rightarrow> (multi_iter \<times> paged_range option) option" where
  "multi_iter_next it =
     (if mi_count it = 0 then Some (it, None)
      else do {
        word \<leftarrow> index_ck (mi_buf it) 0;
        let hdr = gpa_range_of_u64 word;
        total \<leftarrow> add_ck (gr_offset hdr) (gr_len hdr);
        let page_count = div_ceil (unat total) GUEST_PAGE_SIZE;
        (this, rest) \<leftarrow> split_at_ck (page_count + 1) (mi_buf it);
        range \<leftarrow> paged_range_new (unat (gr_offset hdr)) (unat (gr_len hdr)) (drop 1 this);
        Some (\<lparr>mi_buf = rest, mi_count = mi_count it - 1\<rparr>, Some range)
      })"

definition multi_buf_first :: "multi_buf \<Rightarrow> paged_range option option" where
  "multi_buf_first b = map_option snd (multi_iter_next (multi_buf_iter b))"

definition contiguous_aligned :: "multi_buf \<Rightarrow> paged_range option option" where
  "contiguous_aligned b =
     (if mb_count b \<noteq> 1 then Some None
      else do {
        first \<leftarrow> multi_buf_first b;
        case first of
          None \<Rightarrow> Some None
        | Some r \<Rightarrow>
            if pr_offset r \<noteq> 0 \<or> pr_len r mod GUEST_PAGE_SIZE \<noteq> 0 then Some None else Some (Some r)
      })"

subsection \<open>The bytes of a paged range\<close>

text \<open>
  A paged range denotes the list of the guest addresses of its bytes, in order. \<open>collect_ranges\<close>
  drains the iterator \<open>ranges()\<close>, stopping at the first error as \<open>collect\<close> does.
\<close>

definition paged_range_ok :: "paged_range \<Rightarrow> bool" where
  "paged_range_ok r \<longleftrightarrow> pr_start r \<le> pr_end r \<and> pr_end r \<le> length (pr_gpns r) * GUEST_PAGE_SIZE"

definition byte_addr :: "u64 list \<Rightarrow> nat \<Rightarrow> nat" where
  "byte_addr gpns i = unat (gpns ! (i div GUEST_PAGE_SIZE)) * GUEST_PAGE_SIZE + i mod GUEST_PAGE_SIZE"

definition range_addrs :: "paged_range \<Rightarrow> nat list" where
  "range_addrs r = map (byte_addr (pr_gpns r)) [pr_start r..<pr_end r]"


lemma GUEST_PAGE_SIZE_pos [simp]: "0 < GUEST_PAGE_SIZE" "GUEST_PAGE_SIZE \<noteq> 0"
  by (simp_all add: GUEST_PAGE_SIZE_def)






lemmas div_ceil_page = div_ceil_le_iff[OF GUEST_PAGE_SIZE_pos(1)]









subsection \<open>The bytes of a list of paged ranges\<close>

definition ps_all :: "paged_ranges \<Rightarrow> paged_range list" where
  "ps_all p = (case ps_current p of None \<Rightarrow> [] | Some c \<Rightarrow> [c]) @ ps_ranges p"

definition ps_ok :: "paged_ranges \<Rightarrow> bool" where
  "ps_ok p \<longleftrightarrow> list_all paged_range_ok (ps_all p) \<and> ps_start p \<le> ps_end p \<and>
     ps_end p \<le> sum_list (map pr_len (ps_all p)) \<and>
     (case ps_current p of None \<Rightarrow> ps_start p = 0 | Some c \<Rightarrow> ps_start p \<le> pr_len c)"

definition ps_addrs :: "paged_ranges \<Rightarrow> nat list" where
  "ps_addrs p = take (ps_len p) (drop (ps_start p) (concat (map range_addrs (ps_all p))))"

lemma paged_ranges_next_decreases:
  "paged_ranges_next p = Some (q, Some s) \<Longrightarrow> ps_pending q < ps_pending p"
  by (auto simp: paged_ranges_next_def Let_def ps_fetch_def ps_pending_def
      split: if_splits bind_splits list.splits)

function collect_paged_ranges :: "paged_ranges \<Rightarrow> paged_range list option" where
  "collect_paged_ranges p =
     (case paged_ranges_next p of
        None \<Rightarrow> None
      | Some (q, None) \<Rightarrow> Some []
      | Some (q, Some s) \<Rightarrow> map_option (Cons s) (collect_paged_ranges q))"
  by pat_completeness auto
termination
  by (relation "measure ps_pending") (auto simp: paged_ranges_next_decreases)

declare collect_paged_ranges.simps [simp del]

lemma length_range_addrs [simp]: "length (range_addrs r) = pr_len r"
  by (simp add: range_addrs_def pr_len_def)

lemma subrange_addrs:
  assumes "off + len \<le> pr_len r" "paged_range_ok r"
  obtains s where "subrange r off len = Some s" "paged_range_ok s" "pr_len s = len"
    "range_addrs s = take len (drop off (range_addrs r))"
proof
  let ?s = "\<lparr>pr_start = pr_start r + off, pr_end = pr_start r + off + len, pr_gpns = pr_gpns r\<rparr>"
  show "subrange r off len = Some ?s"
    using assms by (simp add: subrange_def try_subrange_def)
  show "paged_range_ok ?s" "pr_len ?s = len"
    using assms by (auto simp: paged_range_ok_def pr_len_def)
  have "pr_start r + off + len \<le> pr_end r" using assms by (auto simp: paged_range_ok_def pr_len_def)
  then show "range_addrs ?s = take len (drop off (range_addrs r))"
    by (simp add: range_addrs_def take_map drop_map drop_upt take_upt)
qed

lemma length_all_addrs: "length (concat (map range_addrs rs)) = sum_list (map pr_len rs)"
  by (induction rs) auto

lemma ps_fetch_facts:
  assumes "ps_ok p"
  shows "ps_ok (ps_fetch p)" "ps_addrs (ps_fetch p) = ps_addrs p"
    "ps_start (ps_fetch p) = ps_start p" "ps_end (ps_fetch p) = ps_end p"
    "0 < ps_end p \<longrightarrow> ps_current (ps_fetch p) \<noteq> None"
  using assms
  by (auto simp: ps_fetch_def ps_ok_def ps_addrs_def ps_all_def ps_len_def split: list.splits option.splits)

lemma ps_loop_step:
  assumes ok: "ps_ok p" and len: "0 < len" "len \<le> ps_len p"
  shows "\<exists>q s t. ps_current_range p len = Some (q, s) \<and> ps_advance q (pr_len s) = Some t \<and> ps_ok t \<and>
    pr_len s \<le> len \<and> ps_addrs t = drop (pr_len s) (ps_addrs p) \<and> ps_len t = ps_len p - pr_len s"
proof -
  define q where "q = ps_fetch p"
  note q = ps_fetch_facts[OF ok, folded q_def]
  obtain c where c: "ps_current q = Some c" using q(5) len by (auto simp: ps_len_def)
  define n where "n = min len (pr_len c - ps_start q)"
  have okc: "paged_range_ok c" "ps_start q \<le> pr_len c" using q(1) c by (auto simp: ps_ok_def ps_all_def)
  have "ps_start q + n \<le> pr_len c" using okc(2) by (auto simp: n_def)
  from subrange_addrs[OF this okc(1)]
  obtain s where s: "subrange c (ps_start q) n = Some s" "pr_len s = n" by blast
  have cur: "ps_current_range p len = Some (q, s)"
    using len(2) c okc(2) s(1) by (simp add: ps_current_range_def Let_def q_def n_def)
  have lenq: "ps_len q = ps_len p" using q by (simp add: ps_len_def)
  show ?thesis
  proof (cases "ps_start q + n = pr_len c")
    case True
    let ?t = "q\<lparr>ps_current := None, ps_end := ps_end q - pr_len c, ps_start := 0\<rparr>"
    have le: "pr_len c \<le> ps_end q" using True len lenq by (auto simp: n_def ps_len_def split: if_splits)
    then have adv: "ps_advance q n = Some ?t" using c True by (simp add: ps_advance_def)
    have all: "ps_all q = c # ps_all ?t" using c by (simp add: ps_all_def)
    have "ps_addrs ?t = drop n (ps_addrs q)"
      using True le by (simp add: ps_addrs_def all ps_len_def drop_take flip: True)
    moreover have "ps_ok ?t" using q(1) all le by (auto simp: ps_ok_def)
    ultimately show ?thesis
      using cur adv s(2) q(2) lenq True le by (intro exI[of _ q] exI[of _ s] exI[of _ ?t]) (auto simp: n_def ps_len_def)
  next
    case False
    let ?t = "q\<lparr>ps_start := ps_start q + n\<rparr>"
    have n: "n = len" "ps_start q + len \<le> pr_len c" using False okc(2) by (auto simp: n_def min_def split: if_splits)
    have adv: "ps_advance q n = Some ?t" using c False by (simp add: ps_advance_def)
    have "ps_all ?t = ps_all q" by (simp add: ps_all_def)
    then have "ps_addrs ?t = drop n (ps_addrs q)"
      by (simp add: ps_addrs_def ps_len_def drop_take add.commute)
    moreover have "ps_ok ?t" using q(1) c n len lenq by (auto simp: ps_ok_def ps_all_def ps_len_def)
    ultimately show ?thesis
      using cur adv s(2) q(2) lenq n by (intro exI[of _ q] exI[of _ s] exI[of _ ?t]) (auto simp: ps_len_def)
  qed
qed

lemma ps_skip_drop:
  assumes "ps_ok p" "len \<le> ps_len p"
  shows "\<exists>q. ps_skip p len = Some q \<and> ps_ok q \<and> ps_addrs q = drop len (ps_addrs p) \<and>
    ps_len q = ps_len p - len"
  using assms
proof (induction p len rule: ps_skip.induct)
  case (1 p len)
  show ?case
  proof (cases "0 < len")
    case False
    then show ?thesis using "1.prems" by (subst ps_skip.simps) simp
  next
    case True
    from ps_loop_step[OF "1.prems"(1) True "1.prems"(2)]
    obtain q s t where st: "ps_current_range p len = Some (q, s)" "ps_advance q (pr_len s) = Some t" "ps_ok t"
      "pr_len s \<le> len" "ps_addrs t = drop (pr_len s) (ps_addrs p)" "ps_len t = ps_len p - pr_len s"
      by blast
    obtain u where "ps_skip t (len - pr_len s) = Some u" "ps_ok u"
      "ps_addrs u = drop (len - pr_len s) (ps_addrs t)" "ps_len u = ps_len t - (len - pr_len s)"
      using "1.IH"[OF True st(1) _ st(2,3)] diff_le_mono[OF "1.prems"(2), of "pr_len s"] st(6) by auto
    moreover have "ps_skip p len = ps_skip t (len - pr_len s)"
      using True st by (subst ps_skip.simps) simp
    ultimately show ?thesis using st(4-6) by simp
  qed
qed

lemma paged_ranges_next_step:
  assumes ok: "ps_ok p" and ne: "\<not> ps_is_empty p"
  shows "\<exists>t s. paged_ranges_next p = Some (t, Some s) \<and> ps_ok t \<and> paged_range_ok s \<and>
    range_addrs s @ ps_addrs t = ps_addrs p"
proof -
  define q where "q = ps_fetch p"
  note q = ps_fetch_facts[OF ok, folded q_def]
  have lt: "ps_start q < ps_end q" using ok ne q(3,4) by (auto simp: ps_is_empty_def ps_ok_def)
  then obtain c where c: "ps_current q = Some c" using q(4,5) by auto
  have okc: "paged_range_ok c" "ps_start q \<le> pr_len c" using q(1) c by (auto simp: ps_ok_def ps_all_def)
  define n where "n = min (ps_end q) (pr_len c) - ps_start q"
  have n: "ps_start q + n = min (ps_end q) (pr_len c)" using lt okc(2) by (simp add: n_def)
  then have "ps_start q + n \<le> pr_len c" by simp
  from subrange_addrs[OF this okc(1)]
  obtain s where s: "subrange c (ps_start q) n = Some s" "paged_range_ok s"
    "range_addrs s = take n (drop (ps_start q) (range_addrs c))" by blast
  let ?t = "q\<lparr>ps_current := None, ps_start := 0, ps_end := ps_end q - (ps_start q + n)\<rparr>"
  have "paged_ranges_next p = Some (?t, Some s)"
    using ne c lt okc(2) n s(1) by (simp add: paged_ranges_next_def Let_def flip: q_def n_def)
  moreover have all: "ps_all q = c # ps_all ?t" using c by (simp add: ps_all_def)
  moreover have "ps_ok ?t" using q(1) all n by (auto simp: ps_ok_def min_def split: if_splits)
  moreover have "range_addrs s @ ps_addrs ?t = ps_addrs q"
  proof (cases "pr_len c \<le> ps_end q")
    case True
    then have "n = pr_len c - ps_start q" using n by simp
    then show ?thesis using True okc(2) lt by (simp add: s(3) ps_addrs_def all ps_len_def)
  next
    case False
    then show ?thesis using n lt by (simp add: s(3) ps_addrs_def all ps_len_def n_def)
  qed
  ultimately show ?thesis using s(2) q(2) by auto
qed

lemma collect_paged_ranges_addrs:
  assumes "ps_ok p"
  shows "\<exists>ss. collect_paged_ranges p = Some ss \<and> list_all paged_range_ok ss \<and>
    concat (map range_addrs ss) = ps_addrs p"
  using assms
proof (induction p rule: collect_paged_ranges.induct)
  case (1 p)
  show ?case
  proof (cases "ps_is_empty p")
    case True
    then show ?thesis
      by (subst collect_paged_ranges.simps)
        (simp add: paged_ranges_next_def ps_addrs_def ps_len_def ps_is_empty_def)
  next
    case False
    from paged_ranges_next_step[OF "1.prems" False]
    obtain t s where st: "paged_ranges_next p = Some (t, Some s)" "ps_ok t" "paged_range_ok s"
      "range_addrs s @ ps_addrs t = ps_addrs p" by blast
    obtain ss where "collect_paged_ranges t = Some ss" "list_all paged_range_ok ss"
      "concat (map range_addrs ss) = ps_addrs t" using "1.IH"[OF st(1) _ _ st(2)] by auto
    then show ?thesis by (subst collect_paged_ranges.simps) (simp add: st)
  qed
qed

subsection \<open>Encoded ranges\<close>

text \<open>
  \<open>range_words r\<close> is the encoding of a range and \<open>rebase r\<close> the same range over exactly the pages
  it covers, which is what decoding returns. \<open>collect_multi\<close> drains the iterator of a buffer, and
  \<open>mb_holds b rs\<close> says that the valid part of \<open>b\<close> is the encoding of \<open>rs\<close>.
\<close>

definition range_words :: "paged_range \<Rightarrow> u64 list" where
  "range_words r =
     gpa_range_to_u64 \<lparr>gr_len = of_nat (pr_len r), gr_offset = of_nat (pr_offset r)\<rparr> # pr_pages r"

definition rebase :: "paged_range \<Rightarrow> paged_range" where
  "rebase r = \<lparr>pr_start = pr_offset r, pr_end = pr_offset r + pr_len r, pr_gpns = pr_pages r\<rparr>"

definition encodable :: "paged_range \<Rightarrow> bool" where
  "encodable r \<longleftrightarrow> paged_range_ok r \<and> pr_offset r + pr_len r < 2 ^ 32"

function collect_multi :: "multi_iter \<Rightarrow> paged_range list option" where
  "collect_multi it =
     (case multi_iter_next it of
        None \<Rightarrow> None
      | Some (it', None) \<Rightarrow> Some []
      | Some (it', Some r) \<Rightarrow> map_option (Cons r) (collect_multi it'))"
  by pat_completeness auto
termination
  by (relation "measure mi_count")
    (auto simp: multi_iter_next_def Let_def split: if_splits bind_splits)

declare collect_multi.simps [simp del]

definition mb_holds :: "multi_buf \<Rightarrow> paged_range list \<Rightarrow> bool" where
  "mb_holds b rs \<longleftrightarrow> mb_valid b \<le> length (mb_buf b) \<and>
     take (mb_valid b) (mb_buf b) = concat (map range_words rs) \<and> mb_count b = length rs \<and>
     list_all encodable rs"

lemma gpa_range_u64_roundtrip [simp]:
  "gpa_range_of_u64 (gpa_range_to_u64 h) = h" "gpa_range_to_u64 (gpa_range_of_u64 w) = w"
proof -
  have "ucast (gpa_range_to_u64 h) = gr_len h" "ucast (drop_bit 32 (gpa_range_to_u64 h)) = gr_offset h"
    by (rule bit_word_eqI; auto simp: gpa_range_to_u64_def bit_simps dest: bit_imp_le_length)+
  then show "gpa_range_of_u64 (gpa_range_to_u64 h) = h" by (simp add: gpa_range_of_u64_def)
  show "gpa_range_to_u64 (gpa_range_of_u64 w) = w"
    by (rule bit_word_eqI) (auto simp: gpa_range_to_u64_def gpa_range_of_u64_def bit_simps)
qed

lemma pr_end_split:
  "paged_range_ok r \<Longrightarrow> pr_end r = pr_start r div GUEST_PAGE_SIZE * GUEST_PAGE_SIZE + (pr_offset r + pr_len r)"
  using div_mult_mod_eq[of "pr_start r" GUEST_PAGE_SIZE] by (simp add: paged_range_ok_def pr_offset_def pr_len_def)

lemma length_pr_pages:
  assumes "paged_range_ok r"
  shows "length (pr_pages r) = div_ceil (pr_offset r + pr_len r) GUEST_PAGE_SIZE"
    "pr_start r div GUEST_PAGE_SIZE + div_ceil (pr_offset r + pr_len r) GUEST_PAGE_SIZE \<le> length (pr_gpns r)"
proof -
  have c: "div_ceil (pr_end r) GUEST_PAGE_SIZE = pr_start r div GUEST_PAGE_SIZE + div_ceil (pr_offset r + pr_len r) GUEST_PAGE_SIZE"
    by (simp add: pr_end_split[OF assms] div_ceil_add_mult)
  have "div_ceil (pr_end r) GUEST_PAGE_SIZE \<le> length (pr_gpns r)"
    using assms by (simp add: div_ceil_page paged_range_ok_def)
  then show "length (pr_pages r) = div_ceil (pr_offset r + pr_len r) GUEST_PAGE_SIZE"
    "pr_start r div GUEST_PAGE_SIZE + div_ceil (pr_offset r + pr_len r) GUEST_PAGE_SIZE \<le> length (pr_gpns r)"
    by (simp_all add: pr_pages_def Let_def c)
qed

lemma rebase_ok:
  assumes "paged_range_ok r"
  shows "paged_range_ok (rebase r)" "range_addrs (rebase r) = range_addrs r" "pr_len (rebase r) = pr_len r"
proof -
  let ?p = "pr_start r div GUEST_PAGE_SIZE" and ?n = "div_ceil (pr_offset r + pr_len r) GUEST_PAGE_SIZE"
  have "pr_offset r + pr_len r \<le> ?n * GUEST_PAGE_SIZE" by (simp flip: div_ceil_page)
  then show "paged_range_ok (rebase r)" "pr_len (rebase r) = pr_len r"
    using length_pr_pages[OF assms] by (simp_all add: rebase_def paged_range_ok_def pr_len_def)
  have "byte_addr (pr_pages r) (pr_offset r + i) = byte_addr (pr_gpns r) (pr_start r + i)"
    if "i < pr_len r" for i
  proof -
    have s: "pr_start r + i = ?p * GUEST_PAGE_SIZE + (pr_offset r + i)" by (simp add: pr_offset_def)
    have "(pr_offset r + i) div GUEST_PAGE_SIZE < ?n"
      using that \<open>pr_offset r + pr_len r \<le> ?n * GUEST_PAGE_SIZE\<close> by (simp add: div_less_iff_less_mult)
    then have "pr_pages r ! ((pr_offset r + i) div GUEST_PAGE_SIZE) = pr_gpns r ! (?p + (pr_offset r + i) div GUEST_PAGE_SIZE)"
      using length_pr_pages[OF assms] by (simp add: pr_pages_def Let_def slice_def pr_end_split[OF assms] div_ceil_add_mult)
    then show ?thesis by (simp add: byte_addr_def s)
  qed
  moreover have "pr_end r = pr_start r + pr_len r" using assms by (simp add: paged_range_ok_def pr_len_def)
  ultimately show "range_addrs (rebase r) = range_addrs r"
    by (simp add: range_addrs_def rebase_def list_eq_iff_nth_eq)
qed

lemma multi_iter_next_encoded:
  assumes "encodable r"
  shows "multi_iter_next \<lparr>mi_buf = range_words r @ rest, mi_count = Suc n\<rparr> =
    Some (\<lparr>mi_buf = rest, mi_count = n\<rparr>, Some (rebase r))"
proof -
  have ok: "paged_range_ok r" and lt: "pr_offset r + pr_len r < 2 ^ 32" using assms by (auto simp: encodable_def)
  then have u: "unat (of_nat (pr_offset r) :: u32) = pr_offset r" "unat (of_nat (pr_len r) :: u32) = pr_len r"
    by (simp_all add: unat_of_nat)
  have add: "add_ck (of_nat (pr_offset r) :: u32) (of_nat (pr_len r)) = Some (of_nat (pr_offset r) + of_nat (pr_len r))"
    "unat (of_nat (pr_offset r) + of_nat (pr_len r) :: u32) = pr_offset r + pr_len r"
    using add_of_nat[of "of_nat (pr_offset r) :: u32" "pr_len r"] lt u by simp_all
  have "pr_offset r + pr_len r \<le> length (pr_pages r) * GUEST_PAGE_SIZE"
    by (simp add: length_pr_pages[OF ok] flip: div_ceil_page)
  then show ?thesis
    using length_pr_pages(1)[OF ok, symmetric]
    by (simp add: multi_iter_next_def range_words_def add u paged_range_new_def Let_def rebase_def)
qed

lemma collect_multi_encoded:
  "list_all encodable rs \<Longrightarrow>
   collect_multi \<lparr>mi_buf = concat (map range_words rs) @ rest, mi_count = length rs\<rparr> = Some (map rebase rs)"
proof (induction rs)
  case Nil
  then show ?case by (subst collect_multi.simps) (simp add: multi_iter_next_def)
next
  case (Cons r rs)
  then show ?case by (subst collect_multi.simps) (simp add: multi_iter_next_encoded)
qed

lemma mb_holds_collect: "mb_holds b rs \<Longrightarrow> collect_multi (multi_buf_iter b) = Some (map rebase rs)"
  using collect_multi_encoded[of rs "drop (mb_valid b) (mb_buf b)"]
  by (simp add: mb_holds_def multi_buf_iter_def) (metis append_take_drop_id)

definition wire_range :: "paged_range \<Rightarrow> bool" where
  "wire_range r \<longleftrightarrow> encodable r \<and> 0 < pr_len r \<and> rebase r = r"

lemma ensure_space_facts:
  fixes k :: nat
  assumes "mb_valid b \<le> length (mb_buf b)" "\<And>n. n \<le> capacity n"
  defines "c \<equiv> ensure_space capacity k b"
  shows "mb_valid c = mb_valid b" "mb_count c = mb_count b" "mb_valid b + k \<le> length (mb_buf c)"
    "take (mb_valid b) (mb_buf c) = take (mb_valid b) (mb_buf b)"
  using assms(1) assms(2)[of "mb_valid b + k"]
  by (auto simp: c_def ensure_space_def resize_buffer_def Let_def min_def)

lemma mb_holds_push:
  assumes "mb_holds b rs" "encodable r" "\<And>n. n \<le> capacity n"
  shows "mb_holds (push_range capacity r b) (rs @ [r])"
proof -
  define c where "c = ensure_space capacity (1 + length (pr_pages r)) b"
  have "mb_valid b \<le> length (mb_buf b)" using assms(1) by (simp add: mb_holds_def)
  note c = ensure_space_facts[OF this assms(3), of "1 + length (pr_pages r)", folded c_def]
  have "push_range capacity r b = c\<lparr>mb_buf := splice (mb_valid c) (range_words r) (mb_buf c),
      mb_count := mb_count c + 1, mb_valid := mb_valid c + length (range_words r)\<rparr>"
    by (simp add: push_range_def Let_def c_def range_words_def)
  moreover have "length (range_words r) = 1 + length (pr_pages r)" by (simp add: range_words_def)
  ultimately show ?thesis
    using assms(1,2) c take_splice[of "mb_valid c" "range_words r" "mb_buf c" "length (range_words r)"]
    by (simp add: mb_holds_def)
qed

lemma mb_holds_pushes:
  assumes "list_all encodable rs" "\<And>n. n \<le> capacity n"
  shows "mb_holds (fold (push_range capacity) rs multi_buf_new) rs"
  using assms(1)
proof (induction rs rule: rev_induct)
  case Nil
  then show ?case by (simp add: mb_holds_def multi_buf_new_def)
next
  case (snoc r rs)
  then show ?case using mb_holds_push[OF _ _ assms(2)] by simp
qed

lemma parse_Some:
  assumes "parse buf = Some (Inr (r, rest))"
  shows "buf = range_words r @ rest" "wire_range r"
proof -
  obtain hdr gpas where buf: "buf = hdr # gpas" using assms by (cases buf) (auto simp: parse_def)
  define n off where "n = (ucast hdr :: u32)" and "off = (ucast (drop_bit 32 hdr) :: u32)"
  define pages where "pages = unat (n + 4095 + off) div GUEST_PAGE_SIZE"
  from assms have p: "n \<noteq> 0" "off \<le> 0xfff" "unat n + 4095 < 2 ^ 32" "unat (n + 4095) + unat off < 2 ^ 32"
      "pages \<le> length gpas" "unat off + unat n \<le> pages * GUEST_PAGE_SIZE"
      "rest = drop pages gpas"
      "r = \<lparr>pr_start = unat off, pr_end = unat off + unat n, pr_gpns = take pages gpas\<rparr>"
    unfolding parse_def buf list.case Let_def n_def[symmetric] off_def[symmetric]
    by (auto simp: add_ck_def paged_range_new_def Let_def pages_def not_less min_def
        split: if_splits bind_splits option.splits)
  have hdr: "gpa_range_of_u64 hdr = \<lparr>gr_len = n, gr_offset = off\<rparr>"
    by (simp add: gpa_range_of_u64_def n_def off_def)
  have off: "unat off < GUEST_PAGE_SIZE" using p(2) by (simp add: word_le_nat_alt GUEST_PAGE_SIZE_def)
  have "unat (n + 4095) = unat n + 4095" using p(3) by (simp add: unat_word_ariths)
  moreover from this have "unat (n + 4095 + off) = unat n + 4095 + unat off"
    using p(4) by (simp add: unat_word_ariths)
  ultimately have total: "unat off + unat n < 2 ^ 32" and pages: "pages = div_ceil (unat off + unat n) GUEST_PAGE_SIZE"
    using p(4) by (simp_all add: pages_def div_ceil_alt GUEST_PAGE_SIZE_def add_ac)
  have o: "pr_offset r = unat off" "pr_len r = unat n" using off by (simp_all add: p(8) pr_offset_def pr_len_def)
  have pg: "pr_pages r = take pages gpas" using off by (simp add: p(8) pr_pages_def Let_def slice_def pages)
  have "gpa_range_to_u64 \<lparr>gr_len = n, gr_offset = off\<rparr> = hdr" by (simp flip: hdr)
  then show "buf = range_words r @ rest" by (simp add: buf range_words_def o pg p(7))
  have "0 < unat n" using p(1) by (simp add: unat_gt_0)
  moreover have "paged_range_ok r" using p(5,6) by (simp add: p(8) paged_range_ok_def)
  moreover have "rebase r = r" by (simp add: rebase_def o pg) (simp add: p(8))
  ultimately show "wire_range r" using total by (simp add: wire_range_def encodable_def o)
qed

lemma parse_total: "parse buf \<noteq> None"
proof (cases buf)
  case Nil
  then show ?thesis by (simp add: parse_def)
next
  case (Cons hdr gpas)
  define n off where "n = (ucast hdr :: u32)" and "off = (ucast (drop_bit 32 hdr) :: u32)"
  show ?thesis
  proof
    assume "parse buf = None"
    then have p: "n \<noteq> 0" "unat n + 4095 < 2 ^ 32" "unat (n + 4095) + unat off < 2 ^ 32"
      and "length gpas \<ge> unat (n + 4095 + off) div GUEST_PAGE_SIZE"
      and bad: "unat (n + 4095 + off) div GUEST_PAGE_SIZE = 0 \<or>
        unat (n + 4095 + off) div GUEST_PAGE_SIZE * GUEST_PAGE_SIZE < unat off + unat n"
      unfolding parse_def Cons list.case Let_def n_def[symmetric] off_def[symmetric]
      by (auto simp: add_ck_def paged_range_new_def Let_def not_less min_def
          split: if_splits bind_splits option.splits)
    have "unat (n + 4095) = unat n + 4095" using p(2) by (simp add: unat_word_ariths)
    moreover from this have "unat (n + 4095 + off) = unat n + 4095 + unat off"
      using p(3) by (simp add: unat_word_ariths)
    moreover have "0 < unat n" using p(1) by (simp add: unat_gt_0)
    ultimately show False using bad by (simp add: GUEST_PAGE_SIZE_def) linarith
  qed
qed

lemma validate_loop_total: "validate_loop n rem \<noteq> None"
proof (induction n arbitrary: rem)
  case (Suc n)
  then show ?case using parse_total[of rem] by (auto split: option.splits sum.splits)
qed simp

lemma validate_loop_Some:
  "validate_loop n rem = Some (Inr rest) \<Longrightarrow>
   \<exists>rs. length rs = n \<and> rem = concat (map range_words rs) @ rest \<and> list_all wire_range rs"
proof (induction n arbitrary: rem)
  case 0
  then show ?case by simp
next
  case (Suc n)
  then obtain r mid where p: "parse rem = Some (Inr (r, mid))" "validate_loop n mid = Some (Inr rest)"
    by (auto split: option.splits sum.splits)
  from Suc.IH[OF p(2)] obtain rs where "length rs = n" "mid = concat (map range_words rs) @ rest"
    "list_all wire_range rs" by blast
  with parse_Some[OF p(1)] show ?case by (intro exI[of _ "r # rs"]) simp
qed

lemma validate_gpa_ranges_cases:
  obtains e where "validate_gpa_ranges n buf = Some (Inl e)"
  | rs rest where "validate_gpa_ranges n buf = Some (Inr (length (concat (map range_words rs))))"
      "length rs = n" "buf = concat (map range_words rs) @ rest" "list_all wire_range rs"
proof (cases "validate_loop n buf")
  case None
  then show thesis using validate_loop_total by blast
next
  case (Some res)
  then show thesis
  proof (cases res)
    case (Inl e)
    with Some show thesis by (intro that(1)[of e]) (simp add: validate_gpa_ranges_def)
  next
    case (Inr rest)
    with Some obtain rs where "length rs = n" "buf = concat (map range_words rs) @ rest" "list_all wire_range rs"
      using validate_loop_Some by blast
    with Some Inr show thesis by (intro that(2)[of rs rest]) (simp_all add: validate_gpa_ranges_def)
  qed
qed

lemma wire_ranges:
  assumes "list_all wire_range rs"
  shows "list_all encodable rs" "map rebase rs = rs"
  using assms by (auto simp: list_all_iff wire_range_def intro: map_idI)

subsection \<open>Properties\<close>



text \<open>C16. A list of paged ranges behaves as the concatenation of its bytes: after \<open>skip(n)\<close> and
  \<open>truncate(k)\<close> the ranges that \<open>paged_ranges\<close> returns hold exactly the \<open>k\<close> bytes after the
  first \<open>n\<close>, and none of the calls panics as long as \<open>n + k\<close> bytes exist.
\<close>

theorem paged_ranges_skip_truncate:
  assumes "list_all paged_range_ok rs" "n + k \<le> sum_list (map pr_len rs)"
  shows "\<exists>p q ss. paged_ranges_skip (paged_ranges_new rs) n = Some p \<and> ps_truncate p k = Some q \<and>
    collect_paged_ranges q = Some ss \<and> list_all paged_range_ok ss \<and>
    concat (map range_addrs ss) = take k (drop n (concat (map range_addrs rs)))"
proof -
  let ?p = "paged_ranges_new rs"
  have all: "ps_all ?p = rs" by (simp add: ps_all_def paged_ranges_new_def)
  have ok: "ps_ok ?p" using assms(1) by (simp add: ps_ok_def all) (simp add: paged_ranges_new_def)
  have len: "ps_len ?p = sum_list (map pr_len rs)" by (simp add: ps_len_def paged_ranges_new_def)
  have addrs: "ps_addrs ?p = concat (map range_addrs rs)"
    unfolding ps_addrs_def all len by (simp add: paged_ranges_new_def length_all_addrs)
  obtain p where p: "ps_skip ?p n = Some p" "ps_ok p" "ps_addrs p = drop n (ps_addrs ?p)" "ps_len p = ps_len ?p - n"
    using ps_skip_drop[OF ok, of n] assms(2) len by auto
  define q where "q = p\<lparr>ps_end := ps_start p + k\<rparr>"
  have k: "k \<le> ps_len p" using p(4) len assms(2) by simp
  then have q: "ps_truncate p k = Some q" by (simp add: ps_truncate_def q_def)
  have "ps_ok q" using p(2) k by (auto simp: q_def ps_ok_def ps_all_def ps_len_def split: option.splits)
  moreover have "ps_all q = ps_all p" by (simp add: q_def ps_all_def)
  then have "ps_addrs q = take k (ps_addrs p)" using k by (simp add: ps_addrs_def ps_len_def) (simp add: q_def)
  ultimately show ?thesis
    using collect_paged_ranges_addrs[of q] p q addrs len assms(2) by (auto simp: paged_ranges_skip_def)
qed

theorem paged_ranges_skip_truncate_witness:
  "\<exists>p q ss. paged_ranges_skip (paged_ranges_new
      [\<lparr>pr_start = 5, pr_end = 9, pr_gpns = [7]\<rparr>, \<lparr>pr_start = 4095, pr_end = 4098, pr_gpns = [3, 1]\<rparr>]) 2 = Some p \<and>
    ps_truncate p 4 = Some q \<and> collect_paged_ranges q = Some ss \<and> list_all paged_range_ok ss \<and>
    concat (map range_addrs ss) = take 4 (drop 2 (concat (map range_addrs
      [\<lparr>pr_start = 5, pr_end = 9, pr_gpns = [7]\<rparr>, \<lparr>pr_start = 4095, pr_end = 4098, pr_gpns = [3, 1]\<rparr>])))"
  by (rule paged_ranges_skip_truncate) (simp_all add: paged_range_ok_def pr_len_def GUEST_PAGE_SIZE_def)

text \<open>C17. Ranges stored in a \<open>MultiPagedRangeBuf\<close> with \<open>push_range\<close> come back from its iterator, in
  order, with the same bytes, whatever spare capacity the buffer's vector has. The buffer keeps
  32-bit lengths, so a range and its offset must fit in 32 bits.
\<close>

theorem multi_buf_roundtrip:
  assumes "list_all (\<lambda>r. paged_range_ok r \<and> pr_offset r + pr_len r < 2 ^ 32) rs" "\<And>n. n \<le> capacity n"
  shows "\<exists>ss. collect_multi (multi_buf_iter (fold (push_range capacity) rs multi_buf_new)) = Some ss \<and>
    map range_addrs ss = map range_addrs rs"
proof -
  have e: "list_all encodable rs" using assms(1) by (simp add: list_all_iff encodable_def)
  from mb_holds_collect[OF mb_holds_pushes[OF e assms(2)]] show ?thesis
    using e by (auto simp: list_all_iff encodable_def rebase_ok)
qed

theorem multi_buf_roundtrip_witness:
  "\<exists>ss. collect_multi (multi_buf_iter (fold (push_range (\<lambda>n. 2 * n))
       [\<lparr>pr_start = 5, pr_end = 9, pr_gpns = [7]\<rparr>] multi_buf_new)) = Some ss \<and>
    map range_addrs ss = map range_addrs [\<lparr>pr_start = 5, pr_end = 9, pr_gpns = [7]\<rparr>]"
  by (rule multi_buf_roundtrip) (simp_all add: paged_range_ok_def pr_len_def pr_offset_def GUEST_PAGE_SIZE_def)

text \<open>C15. Validating an arbitrary range buffer, as a guest supplies it, never panics. If
  \<open>from_range_buffer\<close> accepts it, then iterating the ranges never panics either: it returns as
  many ranges as announced, all of them non-empty and inside their page lists, and their encodings
  are exactly the accepted prefix of the buffer.
\<close>

theorem from_range_buffer_safe:
  "(\<exists>e. from_range_buffer count buf = Some (Inl e)) \<or>
   (\<exists>b rs rest. from_range_buffer count buf = Some (Inr b) \<and>
     collect_multi (multi_buf_iter b) = Some rs \<and> length rs = count \<and>
     list_all (\<lambda>r. paged_range_ok r \<and> 0 < pr_len r) rs \<and>
     range_buffer b = Some (concat (map range_words rs)) \<and> buf = concat (map range_words rs) @ rest)"
proof (cases rule: validate_gpa_ranges_cases[of count buf])
  case (1 e)
  then show ?thesis by (simp add: from_range_buffer_def)
next
  case (2 rs rest)
  let ?b = "\<lparr>mb_buf = concat (map range_words rs), mb_valid = length (concat (map range_words rs)), mb_count = count\<rparr>"
  have "from_range_buffer count buf = Some (Inr ?b)"
    using 2(1,3) by (simp add: from_range_buffer_def)
  moreover have "collect_multi (multi_buf_iter ?b) = Some rs"
    using collect_multi_encoded[of rs "[]"] wire_ranges[OF 2(4)] 2(2) by (simp add: multi_buf_iter_def)
  moreover have "list_all (\<lambda>r. paged_range_ok r \<and> 0 < pr_len r) rs"
    using 2(4) by (simp add: list_all_iff wire_range_def encodable_def)
  moreover have "range_buffer ?b = Some (concat (map range_words rs))" by (simp add: range_buffer_def)
  ultimately show ?thesis using 2(2,3) by blast
qed

text \<open>C28. \<open>try_extend_with\<close> is all or nothing: when the caller's closure fails or the new ranges do
  not validate, the ranges in the buffer are the old ones; when it succeeds, the announced number
  of validated ranges follows the old ones. It never panics, whatever the closure writes.
\<close>

theorem try_extend_with_atomic:
  assumes "mb_holds b rs" "\<And>n. n \<le> capacity n" "\<And>xs. length (fst (f xs)) = length xs"
  shows "\<exists>c res ss. try_extend_with capacity len count f b = Some (c, res) \<and> mb_holds c ss \<and>
    (if res = Inr (Inr ()) then \<exists>new. ss = rs @ new \<and> length new = count else ss = rs)"
proof -
  define c where "c = ensure_space capacity len b"
  have "mb_valid b \<le> length (mb_buf b)" using assms(1) by (simp add: mb_holds_def)
  note c = ensure_space_facts[OF this assms(2), of len, folded c_def]
  obtain filled res where f: "f (slice (mb_valid c) len (mb_buf c)) = (filled, res)" by fastforce
  have len: "length filled = len" using assms(3)[of "slice (mb_valid c) len (mb_buf c)"] f c by simp
  let ?c = "c\<lparr>mb_buf := splice (mb_valid c) filled (mb_buf c)\<rparr>"
  note take = take_splice[of "mb_valid c" filled "mb_buf c"]
  have old: "mb_holds ?c rs" using assms(1) c len take[of 0] by (simp add: mb_holds_def)
  have ext: "try_extend_with capacity len count f b =
     (case res of Inl e \<Rightarrow> Some (?c, Inl e)
      | Inr _ \<Rightarrow> (case validate_gpa_ranges count filled of None \<Rightarrow> None
           | Some (Inl e) \<Rightarrow> Some (?c, Inr (Inl e))
           | Some (Inr v) \<Rightarrow> Some (?c\<lparr>mb_valid := mb_valid c + v, mb_count := mb_count c + count\<rparr>, Inr (Inr ()))))"
    by (simp add: try_extend_with_def f Let_def split: sum.split option.split flip: c_def)
  show ?thesis
  proof (cases res)
    case (Inl e)
    with ext old show ?thesis by auto
  next
    case (Inr u)
    show ?thesis
    proof (cases rule: validate_gpa_ranges_cases[of count filled])
      case (1 e)
      with Inr ext old show ?thesis by auto
    next
      case (2 new rest)
      let ?d = "?c\<lparr>mb_valid := mb_valid c + length (concat (map range_words new)), mb_count := mb_count c + count\<rparr>"
      have "mb_holds ?d (rs @ new)"
        using assms(1) c len take[of "length (concat (map range_words new))"] 2(2,3) wire_ranges(1)[OF 2(4)]
        by (simp add: mb_holds_def)
      moreover have "try_extend_with capacity len count f b = Some (?d, Inr (Inr ()))"
        using ext Inr 2(1) by simp
      ultimately show ?thesis using 2(2) by (intro exI[of _ ?d] exI[of _ "Inr (Inr ())"] exI[of _ "rs @ new"]) auto
    qed
  qed
qed

theorem try_extend_with_atomic_witness:
  "\<exists>c res ss. try_extend_with (\<lambda>n. n) 2 1 (\<lambda>xs. (map (\<lambda>_. 1) xs, Inr () :: unit + unit)) multi_buf_new = Some (c, res) \<and>
    mb_holds c ss \<and> (if res = Inr (Inr ()) then \<exists>new. ss = [] @ new \<and> length new = 1 else ss = [])"
  by (rule try_extend_with_atomic) (simp_all add: mb_holds_def multi_buf_new_def)


end
