(* ===== verification/RingMem.thy ===== *)
theory RingMem
  imports GuestRanges
begin

text \<open>
  The memory behind a vmbus ring buffer: the trait \<open>RingMem\<close> of \<open>vmbus_ring\<close> and its three
  implementations \<open>FlatRingMem\<close>, \<open>SingleMappedRingMem\<close> and \<open>PagedRingMem\<close>, the last one over the
  guest pages of a GPADL (\<open>vmbus_channel::gpadl_ring\<close>).

  The trait is the record \<open>ring_mem_ops\<close> of its methods on the memory contents \<open>'m\<close>; the methods
  that write return the new contents. A control page is the list of its 32-bit words. A locked set
  of guest pages is the list of page numbers together with the store of guest pages, so that two
  entries with the same page number alias. Atomic accesses to bytes and words are single steps, and
  multi-byte values are little-endian. \<open>as_atomic\<close> on a page is assumed to find the page aligned.
\<close>

subsection \<open>The trait\<close>

definition CONTROL_WORD_COUNT :: nat where
  "CONTROL_WORD_COUNT = 32"

record 'm ring_mem_ops =
  rm_control :: "'m \<Rightarrow> u32 list option"
  rm_store :: "'m \<Rightarrow> nat \<Rightarrow> u32 \<Rightarrow> 'm option"
  rm_read_at :: "'m \<Rightarrow> nat \<Rightarrow> nat \<Rightarrow> u8 list option"
  rm_read_aligned :: "'m \<Rightarrow> nat \<Rightarrow> nat \<Rightarrow> u8 list option"
  rm_write_at :: "'m \<Rightarrow> nat \<Rightarrow> u8 list \<Rightarrow> 'm option"
  rm_write_aligned :: "'m \<Rightarrow> nat \<Rightarrow> u8 list \<Rightarrow> 'm option"
  rm_len :: "'m \<Rightarrow> nat option"

text \<open>The provided methods \<open>read_aligned\<close> and \<open>write_aligned\<close> of the trait.\<close>

definition default_read_aligned ::
  "('m \<Rightarrow> nat \<Rightarrow> nat \<Rightarrow> u8 list option) \<Rightarrow> 'm \<Rightarrow> nat \<Rightarrow> nat \<Rightarrow> u8 list option" where
  "default_read_aligned read_at m addr n = do {
     assert_that (addr mod 8 = 0);
     assert_that (n mod 8 = 0);
     read_at m addr n
   }"

definition default_write_aligned ::
  "('m \<Rightarrow> nat \<Rightarrow> u8 list \<Rightarrow> 'm option) \<Rightarrow> 'm \<Rightarrow> nat \<Rightarrow> u8 list \<Rightarrow> 'm option" where
  "default_write_aligned write_at m addr bs = do {
     assert_that (addr mod 8 = 0);
     assert_that (length bs mod 8 = 0);
     write_at m addr bs
   }"

text \<open>The slice \<open>xs[off..off + n]\<close> and the store to it, with the bounds check.\<close>

definition slice_ck :: "nat \<Rightarrow> nat \<Rightarrow> 'a list \<Rightarrow> 'a list option" where
  "slice_ck off n xs = (if off + n \<le> length xs then Some (slice off n xs) else None)"

definition splice_ck :: "nat \<Rightarrow> 'a list \<Rightarrow> 'a list \<Rightarrow> 'a list option" where
  "splice_ck off bs xs = (if off + length bs \<le> length xs then Some (splice off bs xs) else None)"

text \<open>Accesses that wrap once, after the address has been reduced: the part that
  \<open>SingleMappedRingMem\<close> and \<open>FlatRingMem\<close> share.\<close>

definition wrap_read :: "u8 list \<Rightarrow> nat \<Rightarrow> nat \<Rightarrow> u8 list option" where
  "wrap_read bytes addr n =
     (if addr + n \<le> length bytes then slice_ck addr n bytes
      else do {
        k \<leftarrow> nat_sub_ck (length bytes) addr;
        assert_that (k \<le> n);
        first \<leftarrow> slice_ck addr k bytes;
        last \<leftarrow> slice_ck 0 (n - k) bytes;
        Some (first @ last)
      })"

definition wrap_write :: "u8 list \<Rightarrow> nat \<Rightarrow> u8 list \<Rightarrow> u8 list option" where
  "wrap_write bytes addr bs =
     (if addr + length bs \<le> length bytes then splice_ck addr bs bytes
      else do {
        k \<leftarrow> nat_sub_ck (length bytes) addr;
        (first, last) \<leftarrow> split_at_ck k bs;
        bytes \<leftarrow> splice_ck addr first bytes;
        splice_ck 0 last bytes
      })"

text \<open>The 32-bit words at the start of a page of bytes, and a store to one of them.\<close>

definition control_words :: "u8 list \<Rightarrow> u32 list" where
  "control_words page = map (\<lambda>i. of_le_bytes (slice (4 * i) 4 page)) [0..<CONTROL_WORD_COUNT]"

definition store_word :: "nat \<Rightarrow> u32 \<Rightarrow> u8 list \<Rightarrow> u8 list" where
  "store_word i v page = splice (4 * i) (le_bytes 4 v) page"

subsection \<open>A single mapping\<close>

type_synonym single_mapped = "u8 list"

definition single_control_range :: "single_mapped \<Rightarrow> u8 list option" where
  "single_control_range m = slice_ck 0 GUEST_PAGE_SIZE m"

definition single_data :: "single_mapped \<Rightarrow> u8 list option" where
  "single_data m = slice_ck GUEST_PAGE_SIZE (length m - GUEST_PAGE_SIZE) m"

definition single_len :: "single_mapped \<Rightarrow> nat option" where
  "single_len m = map_option length (single_data m)"

definition single_read_at :: "single_mapped \<Rightarrow> nat \<Rightarrow> nat \<Rightarrow> u8 list option" where
  "single_read_at m addr n = do {
     this_data \<leftarrow> single_data m;
     let addr = (if addr \<ge> length this_data then addr - length this_data else addr);
     wrap_read this_data addr n
   }"

definition single_write_at :: "single_mapped \<Rightarrow> nat \<Rightarrow> u8 list \<Rightarrow> single_mapped option" where
  "single_write_at m addr bs = do {
     this_data \<leftarrow> single_data m;
     let addr = (if addr > length this_data then addr - length this_data else addr);
     this_data \<leftarrow> wrap_write this_data addr bs;
     Some (take GUEST_PAGE_SIZE m @ this_data)
   }"

definition single_control :: "single_mapped \<Rightarrow> u32 list option" where
  "single_control m = map_option control_words (single_control_range m)"

definition single_store :: "single_mapped \<Rightarrow> nat \<Rightarrow> u32 \<Rightarrow> single_mapped option" where
  "single_store m i v = do {
     page \<leftarrow> single_control_range m;
     Some (store_word i v page @ drop GUEST_PAGE_SIZE m)
   }"

definition single_mapped_ops :: "single_mapped ring_mem_ops" where
  "single_mapped_ops =
     \<lparr>rm_control = single_control, rm_store = single_store, rm_read_at = single_read_at,
      rm_read_aligned = default_read_aligned single_read_at, rm_write_at = single_write_at,
      rm_write_aligned = default_write_aligned single_write_at, rm_len = single_len\<rparr>"

subsection \<open>A flat allocation\<close>

record flat_ring =
  fl_control :: "u32 list"
  fl_data :: "u8 list"

definition flat_new :: "nat \<Rightarrow> flat_ring" where
  "flat_new len = \<lparr>fl_control = replicate CONTROL_WORD_COUNT 0, fl_data = replicate len 0\<rparr>"

definition flat_read_at :: "flat_ring \<Rightarrow> nat \<Rightarrow> nat \<Rightarrow> u8 list option" where
  "flat_read_at m addr n =
     (let addr = (if addr > length (fl_data m) then addr - length (fl_data m) else addr) in
      wrap_read (fl_data m) addr n)"

definition flat_write_at :: "flat_ring \<Rightarrow> nat \<Rightarrow> u8 list \<Rightarrow> flat_ring option" where
  "flat_write_at m addr bs = do {
     let addr = (if addr > length (fl_data m) then addr - length (fl_data m) else addr);
     bytes \<leftarrow> wrap_write (fl_data m) addr bs;
     Some (m\<lparr>fl_data := bytes\<rparr>)
   }"

definition flat_store :: "flat_ring \<Rightarrow> nat \<Rightarrow> u32 \<Rightarrow> flat_ring option" where
  "flat_store m i v = Some (m\<lparr>fl_control := (fl_control m)[i := v]\<rparr>)"

definition flat_ops :: "flat_ring ring_mem_ops" where
  "flat_ops =
     \<lparr>rm_control = \<lambda>m. Some (fl_control m), rm_store = flat_store, rm_read_at = flat_read_at,
      rm_read_aligned = default_read_aligned flat_read_at, rm_write_at = flat_write_at,
      rm_write_aligned = default_write_aligned flat_write_at, rm_len = \<lambda>m. Some (length (fl_data m))\<rparr>"

subsection \<open>Guest pages\<close>

text \<open>\<open>GpadlPagedMemory\<close>: the locked pages in order, the data pages listed twice.\<close>

record paged_ring =
  pg_pages :: "u64 list"
  pg_store :: "u64 \<Rightarrow> u8 list"

definition gpadl_paged_new :: "u64 list \<Rightarrow> (u64 \<Rightarrow> u8 list) \<Rightarrow> paged_ring" where
  "gpadl_paged_new gpns store = \<lparr>pg_pages = gpns @ drop 1 gpns, pg_store = store\<rparr>"

definition paged_page :: "paged_ring \<Rightarrow> nat \<Rightarrow> u8 list option" where
  "paged_page m i = map_option (pg_store m) (index_ck (pg_pages m) i)"

definition set_paged_page :: "paged_ring \<Rightarrow> nat \<Rightarrow> u8 list \<Rightarrow> paged_ring option" where
  "set_paged_page m i bytes = do {
     gpn \<leftarrow> index_ck (pg_pages m) i;
     Some (m\<lparr>pg_store := (pg_store m)(gpn := bytes)\<rparr>)
   }"

definition data_page_count :: "paged_ring \<Rightarrow> nat option" where
  "data_page_count m = do {
     n \<leftarrow> nat_sub_ck (length (pg_pages m)) 1;
     Some (n div 2)
   }"

definition paged_len :: "paged_ring \<Rightarrow> nat option" where
  "paged_len m = do {
     count \<leftarrow> data_page_count m;
     Some (count * GUEST_PAGE_SIZE)
   }"

definition paged_control :: "paged_ring \<Rightarrow> u32 list option" where
  "paged_control m = map_option control_words (paged_page m 0)"

definition paged_store :: "paged_ring \<Rightarrow> nat \<Rightarrow> u32 \<Rightarrow> paged_ring option" where
  "paged_store m i v = do {
     page \<leftarrow> paged_page m 0;
     set_paged_page m 0 (store_word i v page)
   }"

text \<open>\<open>data(page)[offset..offset + n]\<close>, read and written.\<close>

definition paged_read_page :: "paged_ring \<Rightarrow> nat \<Rightarrow> nat \<Rightarrow> nat \<Rightarrow> u8 list option" where
  "paged_read_page m page offset n = paged_page m (page + 1) \<bind> slice_ck offset n"

definition paged_write_page :: "paged_ring \<Rightarrow> nat \<Rightarrow> nat \<Rightarrow> u8 list \<Rightarrow> paged_ring option" where
  "paged_write_page m page offset bs =
     paged_page m (page + 1) \<bind> splice_ck offset bs \<bind> set_paged_page m (page + 1)"

function paged_read_at :: "paged_ring \<Rightarrow> nat \<Rightarrow> nat \<Rightarrow> u8 list option" where
  "paged_read_at m addr n =
     (if n = 0 then Some []
      else
        let page = addr div GUEST_PAGE_SIZE;
            offset = addr mod GUEST_PAGE_SIZE;
            offset_end = min GUEST_PAGE_SIZE (offset + n);
            len = offset_end - offset
        in do {
          this \<leftarrow> paged_read_page m page offset len;
          following \<leftarrow> paged_read_at m (addr + len) (n - len);
          Some (this @ following)
        })"
  by pat_completeness auto
termination
  by (relation "measure (\<lambda>(m, addr, n). n)") (auto simp: GUEST_PAGE_SIZE_def min_def not_le)

declare paged_read_at.simps [simp del]

function paged_write_at :: "paged_ring \<Rightarrow> nat \<Rightarrow> u8 list \<Rightarrow> paged_ring option" where
  "paged_write_at m addr bs =
     (if bs = [] then Some m
      else
        let page = addr div GUEST_PAGE_SIZE;
            offset = addr mod GUEST_PAGE_SIZE;
            offset_end = min GUEST_PAGE_SIZE (offset + length bs);
            len = offset_end - offset
        in do {
          m \<leftarrow> paged_write_page m page offset (take len bs);
          paged_write_at m (addr + len) (drop len bs)
        })"
  by pat_completeness auto
termination
  by (relation "measure (\<lambda>(m, addr, bs). length bs)") (auto simp: GUEST_PAGE_SIZE_def min_def not_le)

declare paged_write_at.simps [simp del]

text \<open>The loops over eight-byte chunks of \<open>read_aligned\<close> and \<open>write_aligned\<close>, from chunk \<open>i\<close> on.\<close>

fun read_chunks :: "paged_ring \<Rightarrow> nat \<Rightarrow> nat \<Rightarrow> nat \<Rightarrow> u8 list option" where
  "read_chunks m addr i 0 = Some []"
| "read_chunks m addr i (Suc k) = do {
     let a = addr div 8 * 8 + i * 8;
     this \<leftarrow> paged_read_page m (a div GUEST_PAGE_SIZE) (a mod GUEST_PAGE_SIZE) 8;
     following \<leftarrow> read_chunks m addr (i + 1) k;
     Some (this @ following)
   }"

fun write_chunks :: "paged_ring \<Rightarrow> nat \<Rightarrow> nat \<Rightarrow> nat \<Rightarrow> u8 list \<Rightarrow> paged_ring option" where
  "write_chunks m addr i 0 bs = Some m"
| "write_chunks m addr i (Suc k) bs = do {
     let a = addr div 8 * 8 + i * 8;
     m \<leftarrow> paged_write_page m (a div GUEST_PAGE_SIZE) (a mod GUEST_PAGE_SIZE) (take 8 bs);
     write_chunks m addr (i + 1) k (drop 8 bs)
   }"

definition paged_read_aligned :: "paged_ring \<Rightarrow> nat \<Rightarrow> nat \<Rightarrow> u8 list option" where
  "paged_read_aligned m addr n = do {
     assert_that (addr mod 8 = 0);
     assert_that (n mod 8 = 0);
     read_chunks m addr 0 (n div 8)
   }"

definition paged_write_aligned :: "paged_ring \<Rightarrow> nat \<Rightarrow> u8 list \<Rightarrow> paged_ring option" where
  "paged_write_aligned m addr bs = do {
     assert_that (addr mod 8 = 0);
     assert_that (length bs mod 8 = 0);
     write_chunks m addr 0 (length bs div 8) bs
   }"

definition paged_ops :: "paged_ring ring_mem_ops" where
  "paged_ops =
     \<lparr>rm_control = paged_control, rm_store = paged_store, rm_read_at = paged_read_at,
      rm_read_aligned = paged_read_aligned, rm_write_at = paged_write_at,
      rm_write_aligned = paged_write_aligned, rm_len = paged_len\<rparr>"

subsection \<open>Aligned GPADLs\<close>

text \<open>A GPADL is the buffer of the ranges the guest announced; \<open>Inl\<close> gives it back.\<close>

record aligned_view =
  av_gpadl :: multi_buf
  av_offset :: u32
  av_len :: u32

definition aligned_new :: "multi_buf \<Rightarrow> (multi_buf + aligned_view) option" where
  "aligned_new gpadl =
     (if mb_count gpadl \<noteq> 1 then Some (Inl gpadl)
      else do {
        first \<leftarrow> multi_buf_first gpadl;
        r \<leftarrow> first;
        if pr_len r mod GUEST_PAGE_SIZE \<noteq> 0 \<or> pr_offset r \<noteq> 0 then Some (Inl gpadl)
        else Some (Inr \<lparr>av_gpadl = gpadl, av_offset = 0, av_len = of_nat (length (pr_pages r))\<rparr>)
      })"

definition aligned_split :: "aligned_view \<Rightarrow> u32 \<Rightarrow> aligned_view + aligned_view \<times> aligned_view" where
  "aligned_split v offset =
     (if offset = 0 \<or> av_len v \<le> offset then Inl v
      else Inr (\<lparr>av_gpadl = av_gpadl v, av_offset = 0, av_len = offset\<rparr>,
                \<lparr>av_gpadl = av_gpadl v, av_offset = offset, av_len = av_len v - offset\<rparr>))"

definition aligned_gpns :: "aligned_view \<Rightarrow> u64 list option" where
  "aligned_gpns v = do {
     first \<leftarrow> multi_buf_first (av_gpadl v);
     r \<leftarrow> first;
     slice_ck (unat (av_offset v)) (unat (av_len v)) (pr_pages r)
   }"

subsection \<open>Wrapping accesses\<close>

text \<open>
  The specification of ring memory: \<open>ring_get d a n\<close> are the \<open>n\<close> bytes from position \<open>a\<close> of the
  endless repetition of \<open>d\<close>, and \<open>ring_put d a bs\<close> stores \<open>bs\<close> there. Positions are unbounded, so
  that a ring pointer that wrapped is the remainder of a position that grows.
\<close>

definition ring_get :: "u8 list \<Rightarrow> nat \<Rightarrow> nat \<Rightarrow> u8 list" where
  "ring_get d a n = map (\<lambda>i. d ! ((a + i) mod length d)) [0..<n]"

definition ring_put :: "u8 list \<Rightarrow> nat \<Rightarrow> u8 list \<Rightarrow> u8 list" where
  "ring_put d a bs =
     map (\<lambda>j. let i = (j + (length d - a mod length d)) mod length d in
              if i < length bs then bs ! i else d ! j) [0..<length d]"

lemma length_ring_get [simp]: "length (ring_get d a n) = n"
  by (simp add: ring_get_def)

lemma length_ring_put [simp]: "length (ring_put d a bs) = length d"
  by (simp add: ring_put_def)

lemma nth_ring_get [simp]: "i < n \<Longrightarrow> ring_get d a n ! i = d ! ((a + i) mod length d)"
  by (simp add: ring_get_def)

lemma ring_get_0 [simp]: "ring_get d a 0 = []"
  by (simp add: ring_get_def)

lemma ring_get_add: "ring_get d a (j + k) = ring_get d a j @ ring_get d (a + j) k"
  by (auto simp: list_eq_iff_nth_eq nth_append add_ac)

lemma ring_get_mod: "ring_get d (a mod length d) n = ring_get d a n"
  by (simp add: list_eq_iff_nth_eq mod_add_left_eq)

lemma ring_put_mod: "ring_put d (a mod length d) bs = ring_put d a bs"
  by (simp add: ring_put_def)

lemma ring_get_shift: "length d \<le> a \<Longrightarrow> ring_get d (a - length d) n = ring_get d a n"
  using ring_get_mod[of d "a - length d"] ring_get_mod[of d a] by (simp add: le_mod_geq)

lemma ring_put_shift: "length d \<le> a \<Longrightarrow> ring_put d (a - length d) bs = ring_put d a bs"
  using ring_put_mod[of d "a - length d"] ring_put_mod[of d a] by (simp add: le_mod_geq)

text \<open>The distance from \<open>a\<close> to the position of cell \<open>j\<close>.\<close>

lemma ring_dist:
  fixes a i j n :: nat
  assumes "(a + i) mod n = j" "i < n"
  shows "(j + (n - a mod n)) mod n = i"
proof -
  have "a mod n \<le> n" using assms(2) by (simp add: less_imp_le)
  then have "a + i + (n - a mod n) = i + n + n * (a div n)"
    using mult_div_mod_eq[of n a] by linarith
  then have "(a + i + (n - a mod n)) mod n = i" using assms(2) by simp
  then show ?thesis using assms(1) by (metis mod_add_left_eq)
qed

lemma ring_put_at:
  assumes "i < length d" "j = (a + i) mod length d"
  shows "ring_put d a bs ! j = (if i < length bs then bs ! i else d ! j)"
proof -
  have "j < length d" using assms by (simp add: mod_less_divisor[OF order_le_less_trans])
  moreover have "(j + (length d - a mod length d)) mod length d = i"
    using ring_dist assms by metis
  ultimately show ?thesis by (simp add: ring_put_def)
qed

lemma ring_cell:
  fixes j n a :: nat
  assumes "j < n"
  obtains i where "i < n" "j = (a + i) mod n"
proof
  let ?i = "(j + (n - a mod n)) mod n"
  show "?i < n" using assms by simp
  have "(a + ?i) mod n = (a mod n + (j + (n - a mod n))) mod n" by (simp add: mod_simps)
  also have "a mod n + (j + (n - a mod n)) = j + n"
    using mod_less_divisor[of n a] assms by linarith
  finally show "j = (a + ?i) mod n" using assms by simp
qed

text \<open>To compare two rings it is enough to compare them along the positions from \<open>a\<close>.\<close>

lemma ring_eqI:
  assumes "length e = length d" "\<And>i. i < length d \<Longrightarrow> d ! ((a + i) mod length d) = e ! ((a + i) mod length d)"
  shows "d = e"
proof (rule nth_equalityI)
  fix j assume "j < length d"
  then obtain i where "i < length d" "j = (a + i) mod length d" by (rule ring_cell)
  then show "d ! j = e ! j" using assms(2) by simp
qed (simp add: assms(1))

lemma ring_put_Nil [simp]: "ring_put d a [] = d"
  by (rule ring_eqI[of _ _ a]) (simp_all add: ring_put_at)

lemma ring_get_put:
  assumes "length bs \<le> length d"
  shows "ring_get (ring_put d a bs) a (length bs) = bs"
proof (rule nth_equalityI)
  fix i assume "i < length (ring_get (ring_put d a bs) a (length bs))"
  then show "ring_get (ring_put d a bs) a (length bs) ! i = bs ! i"
    using ring_put_at[OF _ refl, of i d a bs] assms by simp
qed simp

lemma ring_get_put_disjoint:
  assumes "a + length bs \<le> c" "c + n \<le> a + length d"
  shows "ring_get (ring_put d a bs) c n = ring_get d c n"
proof (rule nth_equalityI)
  fix i assume "i < length (ring_get (ring_put d a bs) c n)"
  then have i: "i < n" by simp
  define k where "k = c - a + i"
  have k: "k < length d" "\<not> k < length bs" "c + i = a + k" using i assms by (auto simp: k_def)
  from ring_put_at[OF k(1) refl, of a bs] k(2) have "ring_put d a bs ! ((a + k) mod length d) = d ! ((a + k) mod length d)"
    by simp
  then show "ring_get (ring_put d a bs) c n ! i = ring_get d c n ! i" using i by (simp add: k(3))
qed simp

text \<open>The same where the read window lies before the written one.\<close>

lemma ring_get_put_before:
  assumes "c + n \<le> a" "a + length bs \<le> c + length d"
  shows "ring_get (ring_put d a bs) c n = ring_get d c n"
  using ring_get_put_disjoint[of a bs "c + length d" n d] assms
    ring_get_shift[of "ring_put d a bs" "c + length d" n] ring_get_shift[of d "c + length d" n] by simp

lemma ring_put_append:
  assumes "length xs + length ys \<le> length d"
  shows "ring_put (ring_put d a xs) (a + length xs) ys = ring_put d a (xs @ ys)"
proof (rule ring_eqI[of _ _ a])
  fix i assume "i < length (ring_put (ring_put d a xs) (a + length xs) ys)"
  then have i: "i < length d" by simp
  let ?j = "(a + i) mod length d"
  have one: "ring_put d a xs ! ?j = (if i < length xs then xs ! i else d ! ?j)"
    using i by (simp add: ring_put_at)
  have "ring_put (ring_put d a xs) (a + length xs) ys ! ?j = ring_put d a (xs @ ys) ! ?j"
  proof (cases "i < length xs")
    case True
    define k where "k = i + length d - length xs"
    have k: "k < length (ring_put d a xs)" "\<not> k < length ys" using True assms i by (auto simp: k_def)
    have "a + length xs + k = a + i + length d" using True assms by (simp add: k_def)
    then have "?j = (a + length xs + k) mod length (ring_put d a xs)" by (simp only: length_ring_put mod_add_self2)
    from ring_put_at[OF k(1) this, of ys] k(2) show ?thesis
      using True one i ring_put_at[of i d ?j a "xs @ ys"] by (simp add: nth_append)
  next
    case False
    define k where "k = i - length xs"
    have k: "k < length (ring_put d a xs)" "k < length ys \<longleftrightarrow> i < length (xs @ ys)" "\<not> i < length xs"
      using False i by (auto simp: k_def)
    have "a + length xs + k = a + i" using False by (simp add: k_def)
    then have "?j = (a + length xs + k) mod length (ring_put d a xs)" by (simp only: length_ring_put)
    from ring_put_at[OF k(1) this, of ys] show ?thesis
      using k one i ring_put_at[of i d ?j a "xs @ ys"] by (simp add: nth_append flip: k_def)
  qed
  then show "ring_put (ring_put d a xs) (a + length xs) ys ! ((a + i) mod length (ring_put (ring_put d a xs) (a + length xs) ys)) =
      ring_put d a (xs @ ys) ! ((a + i) mod length (ring_put (ring_put d a xs) (a + length xs) ys))"
    by simp
qed simp

lemma slice_ck_ring: "a + n \<le> length d \<Longrightarrow> slice_ck a n d = Some (ring_get d a n)"
  by (simp add: slice_ck_def list_eq_iff_nth_eq nth_slice)

lemma splice_ck_ring:
  assumes "a + length bs \<le> length d"
  shows "splice_ck a bs d = Some (ring_put d a bs)"
proof -
  have "splice a bs d = ring_put d a bs"
  proof (rule ring_eqI[of _ _ a])
    fix i assume "i < length (splice a bs d)"
    then have i: "i < length d" using assms by simp
    show "splice a bs d ! ((a + i) mod length (splice a bs d)) = ring_put d a bs ! ((a + i) mod length (splice a bs d))"
    proof (cases "a + i < length d")
      case True
      then show ?thesis using assms i by (simp add: ring_put_at[of i] nth_splice)
    next
      case False
      then have "(a + i) mod length d = a + i - length d" "\<not> a \<le> a + i - length d" "\<not> i < length bs"
        using assms i by (simp_all add: le_mod_geq)
      then show ?thesis using assms i by (simp add: ring_put_at[of i] nth_splice)
    qed
  qed (use assms in simp)
  with assms show ?thesis by (simp add: splice_ck_def)
qed

lemma wrap_read_ring:
  assumes "a \<le> length d" "a + n \<le> 2 * length d"
  shows "wrap_read d a n = Some (ring_get d a n)"
proof (cases "a + n \<le> length d")
  case True
  then show ?thesis by (simp add: wrap_read_def slice_ck_ring)
next
  case False
  then have "ring_get d a n = ring_get d a (length d - a) @ ring_get d 0 (n - (length d - a))"
    using assms ring_get_add[of d a "length d - a" "n - (length d - a)"] ring_get_shift[of d "length d"] by simp
  with False assms show ?thesis by (simp add: wrap_read_def slice_ck_ring)
qed

lemma wrap_write_ring:
  assumes "a \<le> length d" "length bs \<le> length d"
  shows "wrap_write d a bs = Some (ring_put d a bs)"
proof (cases "a + length bs \<le> length d")
  case True
  then show ?thesis by (simp add: wrap_write_def splice_ck_ring)
next
  case False
  let ?k = "length d - a"
  have "ring_put (ring_put d a (take ?k bs)) 0 (drop ?k bs) = ring_put d a bs"
    using False assms ring_put_append[of "take ?k bs" "drop ?k bs" d a]
      ring_put_shift[of "ring_put d a (take ?k bs)" "length d"] by simp
  with False assms show ?thesis by (simp add: wrap_write_def splice_ck_ring)
qed

subsection \<open>The contract of ring memory\<close>

text \<open>
  What the ring buffer relies on: in a well-formed memory (\<open>wf\<close>) with the data bytes \<open>dat\<close> and
  the control words \<open>ctl\<close>, accesses that wrap at most once act on the data as \<open>ring_get\<close> and
  \<open>ring_put\<close> and leave the control words alone, and a store to a control word leaves the data alone.
\<close>

locale ring_mem =
  fixes ops :: "'m ring_mem_ops"
    and wf :: "'m \<Rightarrow> bool"
    and dat :: "'m \<Rightarrow> u8 list"
    and ctl :: "'m \<Rightarrow> u32 list"
  assumes mem_len: "wf m \<Longrightarrow> rm_len ops m = Some (length (dat m))"
    and mem_control: "wf m \<Longrightarrow> rm_control ops m = Some (ctl m)"
    and mem_control_len: "wf m \<Longrightarrow> length (ctl m) = 32"
    and mem_store: "wf m \<Longrightarrow> i < 32 \<Longrightarrow>
      \<exists>m'. rm_store ops m i v = Some m' \<and> wf m' \<and> dat m' = dat m \<and> ctl m' = (ctl m)[i := v]"
    and mem_read_at: "wf m \<Longrightarrow> a + n \<le> 2 * length (dat m) \<Longrightarrow>
      rm_read_at ops m a n = Some (ring_get (dat m) a n)"
    and mem_read_aligned: "wf m \<Longrightarrow> a + n \<le> 2 * length (dat m) \<Longrightarrow> a mod 8 = 0 \<Longrightarrow> n mod 8 = 0 \<Longrightarrow>
      rm_read_aligned ops m a n = Some (ring_get (dat m) a n)"
    and mem_write_at: "wf m \<Longrightarrow> a + length bs \<le> 2 * length (dat m) \<Longrightarrow> length bs \<le> length (dat m) \<Longrightarrow>
      \<exists>m'. rm_write_at ops m a bs = Some m' \<and> wf m' \<and> dat m' = ring_put (dat m) a bs \<and> ctl m' = ctl m"
    and mem_write_aligned: "wf m \<Longrightarrow> a + length bs \<le> 2 * length (dat m) \<Longrightarrow> length bs \<le> length (dat m) \<Longrightarrow>
      a mod 8 = 0 \<Longrightarrow> length bs mod 8 = 0 \<Longrightarrow>
      \<exists>m'. rm_write_aligned ops m a bs = Some m' \<and> wf m' \<and> dat m' = ring_put (dat m) a bs \<and> ctl m' = ctl m"

subsection \<open>The flat and the single-mapped memory\<close>

definition flat_wf :: "flat_ring \<Rightarrow> bool" where
  "flat_wf m \<longleftrightarrow> length (fl_control m) = CONTROL_WORD_COUNT"

lemma flat_read_ring: "a + n \<le> 2 * length (fl_data m) \<Longrightarrow> flat_read_at m a n = Some (ring_get (fl_data m) a n)"
  by (auto simp: flat_read_at_def Let_def wrap_read_ring ring_get_shift)

lemma flat_write_ring:
  "a + length bs \<le> 2 * length (fl_data m) \<Longrightarrow> length bs \<le> length (fl_data m) \<Longrightarrow>
   flat_write_at m a bs = Some (m\<lparr>fl_data := ring_put (fl_data m) a bs\<rparr>)"
  by (auto simp: flat_write_at_def Let_def wrap_write_ring ring_put_shift)

interpretation flat: ring_mem flat_ops flat_wf fl_data fl_control
  by unfold_locales (auto simp: flat_ops_def flat_wf_def flat_store_def CONTROL_WORD_COUNT_def
      default_read_aligned_def default_write_aligned_def flat_read_ring flat_write_ring)

definition single_wf :: "single_mapped \<Rightarrow> bool" where
  "single_wf m \<longleftrightarrow> GUEST_PAGE_SIZE \<le> length m"

definition page_words :: "single_mapped \<Rightarrow> u32 list" where
  "page_words m = control_words (take GUEST_PAGE_SIZE m)"

lemma control_words_store:
  assumes "length page = GUEST_PAGE_SIZE" "i < 32"
  shows "control_words (store_word i v page) = (control_words page)[i := v]"
proof (rule nth_equalityI)
  fix j assume "j < length (control_words (store_word i v page))"
  then have j: "j < 32" by (simp add: control_words_def CONTROL_WORD_COUNT_def)
  have bounds: "4 * i + 4 \<le> length page" "4 * j + 4 \<le> length page" using assms j by (simp_all add: GUEST_PAGE_SIZE_def)
  have "of_le_bytes (slice (4 * j) 4 (store_word i v page)) = (control_words page)[i := v] ! j"
  proof (cases "i = j")
    case True
    then show ?thesis
      using bounds j slice_splice_same[of "4 * j" "le_bytes 4 v" page]
      by (simp add: store_word_def control_words_def CONTROL_WORD_COUNT_def of_le_bytes_le_bytes take_bit_word_eq_self)
  next
    case False
    have "slice (4 * j) 4 (store_word i v page) = slice (4 * j) 4 page"
      using bounds False
      by (auto simp: list_eq_iff_nth_eq store_word_def nth_slice nth_splice)
    then show ?thesis using False j by (simp add: control_words_def CONTROL_WORD_COUNT_def)
  qed
  then show "control_words (store_word i v page) ! j = (control_words page)[i := v] ! j"
    using j by (simp add: control_words_def CONTROL_WORD_COUNT_def)
qed (simp add: control_words_def)

lemma length_control_words [simp]: "length (control_words page) = 32"
  by (simp add: control_words_def CONTROL_WORD_COUNT_def)

lemma length_store_word: "length page = GUEST_PAGE_SIZE \<Longrightarrow> i < 32 \<Longrightarrow> length (store_word i v page) = GUEST_PAGE_SIZE"
  by (simp add: store_word_def GUEST_PAGE_SIZE_def)

lemma single_facts:
  assumes "single_wf m"
  shows "single_data m = Some (drop GUEST_PAGE_SIZE m)" "single_control_range m = Some (take GUEST_PAGE_SIZE m)"
    "length (take GUEST_PAGE_SIZE m) = GUEST_PAGE_SIZE"
  using assms by (simp_all add: single_wf_def single_data_def single_control_range_def slice_ck_def slice_def)

lemma single_read_ring:
  "single_wf m \<Longrightarrow> a + n \<le> 2 * length (drop GUEST_PAGE_SIZE m) \<Longrightarrow>
   single_read_at m a n = Some (ring_get (drop GUEST_PAGE_SIZE m) a n)"
  using ring_get_shift[of "drop GUEST_PAGE_SIZE m" a n]
  by (auto simp: single_read_at_def Let_def single_facts wrap_read_ring simp del: length_drop)

lemma single_write_ring:
  assumes "single_wf m" "a + length bs \<le> 2 * length (drop GUEST_PAGE_SIZE m)" "length bs \<le> length (drop GUEST_PAGE_SIZE m)"
  shows "single_write_at m a bs = Some (take GUEST_PAGE_SIZE m @ ring_put (drop GUEST_PAGE_SIZE m) a bs)"
  using assms ring_put_shift[of "drop GUEST_PAGE_SIZE m" a bs]
  by (auto simp: single_write_at_def Let_def single_facts wrap_write_ring simp del: length_drop)

lemma single_write_effect:
  assumes "single_wf m"
  shows "single_wf (take GUEST_PAGE_SIZE m @ ring_put (drop GUEST_PAGE_SIZE m) a bs)"
    "drop GUEST_PAGE_SIZE (take GUEST_PAGE_SIZE m @ ring_put (drop GUEST_PAGE_SIZE m) a bs) = ring_put (drop GUEST_PAGE_SIZE m) a bs"
    "page_words (take GUEST_PAGE_SIZE m @ ring_put (drop GUEST_PAGE_SIZE m) a bs) = page_words m"
  using assms by (simp_all add: single_wf_def page_words_def)

lemma single_store_effect:
  assumes "single_wf m" "i < 32"
  shows "\<exists>m'. single_store m i v = Some m' \<and> single_wf m' \<and> drop GUEST_PAGE_SIZE m' = drop GUEST_PAGE_SIZE m \<and>
    page_words m' = (page_words m)[i := v]"
  using single_facts[OF assms(1)] control_words_store[of "take GUEST_PAGE_SIZE m" i v]
    length_store_word[of "take GUEST_PAGE_SIZE m" i v] assms
  by (simp add: single_store_def single_wf_def page_words_def)

interpretation single: ring_mem single_mapped_ops single_wf "drop GUEST_PAGE_SIZE" page_words
proof
  fix m :: single_mapped and a n :: nat and i v bs
  assume wf: "single_wf m"
  show "rm_len single_mapped_ops m = Some (length (drop GUEST_PAGE_SIZE m))"
    "rm_control single_mapped_ops m = Some (page_words m)" "length (page_words m) = 32"
    using single_facts[OF wf] by (simp_all add: single_mapped_ops_def single_len_def single_control_def page_words_def)
  show "\<exists>m'. rm_store single_mapped_ops m i v = Some m' \<and> single_wf m' \<and>
      drop GUEST_PAGE_SIZE m' = drop GUEST_PAGE_SIZE m \<and> page_words m' = (page_words m)[i := v]" if "i < 32"
    using single_store_effect[OF wf that] by (simp add: single_mapped_ops_def)
  show "rm_read_at single_mapped_ops m a n = Some (ring_get (drop GUEST_PAGE_SIZE m) a n)"
    if "a + n \<le> 2 * length (drop GUEST_PAGE_SIZE m)"
    using single_read_ring[OF wf that] by (simp add: single_mapped_ops_def)
  show "rm_read_aligned single_mapped_ops m a n = Some (ring_get (drop GUEST_PAGE_SIZE m) a n)"
    if "a + n \<le> 2 * length (drop GUEST_PAGE_SIZE m)" "a mod 8 = 0" "n mod 8 = 0"
    using single_read_ring[OF wf that(1)] that(2,3) by (simp add: single_mapped_ops_def default_read_aligned_def)
  show "\<exists>m'. rm_write_at single_mapped_ops m a bs = Some m' \<and> single_wf m' \<and>
      drop GUEST_PAGE_SIZE m' = ring_put (drop GUEST_PAGE_SIZE m) a bs \<and> page_words m' = page_words m"
    if "a + length bs \<le> 2 * length (drop GUEST_PAGE_SIZE m)" "length bs \<le> length (drop GUEST_PAGE_SIZE m)"
    using single_write_ring[OF wf that] single_write_effect[OF wf, of a bs] by (simp add: single_mapped_ops_def)
  show "\<exists>m'. rm_write_aligned single_mapped_ops m a bs = Some m' \<and> single_wf m' \<and>
      drop GUEST_PAGE_SIZE m' = ring_put (drop GUEST_PAGE_SIZE m) a bs \<and> page_words m' = page_words m"
    if "a + length bs \<le> 2 * length (drop GUEST_PAGE_SIZE m)" "length bs \<le> length (drop GUEST_PAGE_SIZE m)"
      "a mod 8 = 0" "length bs mod 8 = 0"
    using single_write_ring[OF wf that(1,2)] that(3,4) single_write_effect[OF wf, of a bs]
    by (simp add: single_mapped_ops_def default_write_aligned_def)
qed

subsection \<open>The paged memory\<close>

definition data_gpns :: "paged_ring \<Rightarrow> u64 list" where
  "data_gpns m = take ((length (pg_pages m) - 1) div 2) (drop 1 (pg_pages m))"

definition paged_bytes :: "paged_ring \<Rightarrow> u8 list" where
  "paged_bytes m = concat (map (pg_store m) (data_gpns m))"

definition paged_words :: "paged_ring \<Rightarrow> u32 list" where
  "paged_words m = control_words (pg_store m (hd (pg_pages m)))"

text \<open>The pages are a control page and the data pages twice, no page is used twice for different
  purposes, and all of them exist.\<close>

definition paged_wf :: "paged_ring \<Rightarrow> bool" where
  "paged_wf m \<longleftrightarrow> pg_pages m = hd (pg_pages m) # data_gpns m @ data_gpns m \<and>
     distinct (hd (pg_pages m) # data_gpns m) \<and>
     (\<forall>g\<in>set (hd (pg_pages m) # data_gpns m). length (pg_store m g) = GUEST_PAGE_SIZE)"

lemma length_concat_pages:
  "(\<And>g. g \<in> set gs \<Longrightarrow> length (f g) = k) \<Longrightarrow> length (concat (map f gs)) = length gs * k"
  by (induction gs) auto

lemma nth_concat_pages:
  assumes "\<And>g. g \<in> set gs \<Longrightarrow> length (f g) = k" "i < length gs" "j < k"
  shows "concat (map f gs) ! (i * k + j) = f (gs ! i) ! j"
  using assms
proof (induction gs arbitrary: i)
  case (Cons g gs)
  then show ?case by (cases i) (auto simp: nth_append add.assoc)
qed simp

lemma length_paged_bytes: "paged_wf m \<Longrightarrow> length (paged_bytes m) = length (data_gpns m) * GUEST_PAGE_SIZE"
  unfolding paged_bytes_def by (rule length_concat_pages) (auto simp: paged_wf_def)

text \<open>The data page that the doubled list gives for a position.\<close>

lemma paged_data_page:
  assumes "paged_wf m" "a < 2 * length (paged_bytes m)"
  defines "k \<equiv> a mod length (paged_bytes m) div GUEST_PAGE_SIZE"
  shows "index_ck (pg_pages m) (a div GUEST_PAGE_SIZE + 1) = Some (data_gpns m ! k)" "k < length (data_gpns m)"
    "a mod length (paged_bytes m) = k * GUEST_PAGE_SIZE + a mod GUEST_PAGE_SIZE"
proof -
  let ?g = "data_gpns m" and ?P = GUEST_PAGE_SIZE and ?n = "length (paged_bytes m)"
  have n: "?n = length ?g * ?P" using assms(1) by (rule length_paged_bytes)
  have "0 < ?n" using assms(2) by linarith
  then have lt: "a mod ?n < length ?g * ?P" using n by simp
  then show k: "k < length ?g" by (simp add: k_def less_mult_imp_div_less)
  have am: "a mod ?n mod ?P = a mod ?P" by (simp add: n mod_mult2_eq mult.commute mod_mod_cancel)
  then show "a mod ?n = k * ?P + a mod ?P" by (metis k_def div_mult_mod_eq)
  have "a div ?P = (if a < ?n then k else length ?g + k)"
  proof (cases "a < ?n")
    case True
    then show ?thesis by (simp add: k_def)
  next
    case False
    then have "a mod ?n = a - ?n" using assms(2) by (simp add: le_mod_geq)
    then have "a = length ?g * ?P + a mod ?n" using False n by simp
    then have "a div ?P = length ?g + a mod ?n div ?P" by (metis GUEST_PAGE_SIZE_pos(2) div_mult_self3)
    then show ?thesis using False by (simp add: k_def)
  qed
  then have "index_ck (x # ?g @ ?g) (a div ?P + 1) = Some (?g ! k)" for x
    using k by (auto simp: index_ck_def nth_append)
  moreover have "pg_pages m = hd (pg_pages m) # ?g @ ?g" using assms(1) by (simp add: paged_wf_def)
  ultimately show "index_ck (pg_pages m) (a div ?P + 1) = Some (?g ! k)" by metis
qed

lemma paged_read_page_ring:
  assumes "paged_wf m" "a < 2 * length (paged_bytes m)" "a mod GUEST_PAGE_SIZE + n \<le> GUEST_PAGE_SIZE"
  shows "paged_read_page m (a div GUEST_PAGE_SIZE) (a mod GUEST_PAGE_SIZE) n = Some (ring_get (paged_bytes m) a n)"
proof -
  let ?P = GUEST_PAGE_SIZE and ?n = "length (paged_bytes m)" and ?k = "a mod length (paged_bytes m) div GUEST_PAGE_SIZE"
  note page = paged_data_page[OF assms(1,2)]
  have sizes: "length (pg_store m g) = ?P" if "g \<in> set (data_gpns m)" for g using that assms(1) by (simp add: paged_wf_def)
  have "slice (a mod ?P) n (pg_store m (data_gpns m ! ?k)) = ring_get (paged_bytes m) a n"
  proof (rule nth_equalityI)
    show len: "length (slice (a mod ?P) n (pg_store m (data_gpns m ! ?k))) = length (ring_get (paged_bytes m) a n)"
      using sizes page(2) assms(3) by simp
    fix i assume "i < length (slice (a mod ?P) n (pg_store m (data_gpns m ! ?k)))"
    then have i: "i < n" using len by simp
    have "?k * ?P + (a mod ?P + i) < length (data_gpns m) * ?P"
    proof -
      have "a mod ?P + i < ?P" using i assms(3) by simp
      moreover have "Suc ?k * ?P \<le> length (data_gpns m) * ?P" using page(2) by (intro mult_le_mono1) simp
      ultimately show ?thesis by simp
    qed
    then have "a mod ?n + i < ?n" using page(3) length_paged_bytes[OF assms(1)] by linarith
    then have "(a + i) mod ?n = ?k * ?P + (a mod ?P + i)"
      using page(3) mod_add_left_eq[of a ?n i] mod_less[of "a mod ?n + i" ?n] by linarith
    moreover have "paged_bytes m ! (?k * ?P + (a mod ?P + i)) = pg_store m (data_gpns m ! ?k) ! (a mod ?P + i)"
      unfolding paged_bytes_def using sizes page(2) i assms(3) by (intro nth_concat_pages) (auto simp: paged_bytes_def)
    ultimately show "slice (a mod ?P) n (pg_store m (data_gpns m ! ?k)) ! i = ring_get (paged_bytes m) a n ! i"
      using i sizes page(2) assms(3) by (simp add: nth_slice)
  qed
  then show ?thesis
    using page(1,2) sizes assms(3) by (simp add: paged_read_page_def paged_page_def slice_ck_def)
qed

lemma page_window:
  fixes r p w n q k :: nat
  assumes "r < p" "w + n \<le> p"
  shows "k * p + w \<le> q * p + r \<and> q * p + r < k * p + w + n \<longleftrightarrow> q = k \<and> w \<le> r \<and> r < w + n"
proof -
  consider "q < k" | "q = k" | "k < q" by linarith
  then show ?thesis
  proof cases
    case 1
    then have "(q + 1) * p \<le> k * p" by (intro mult_le_mono1) simp
    with 1 assms show ?thesis by simp
  next
    case 3
    then have "(k + 1) * p \<le> q * p" by (intro mult_le_mono1) simp
    with 3 assms show ?thesis by simp
  qed simp
qed

lemma paged_write_page_ring:
  assumes "paged_wf m" "a < 2 * length (paged_bytes m)" "a mod GUEST_PAGE_SIZE + length bs \<le> GUEST_PAGE_SIZE"
  shows "\<exists>m'. paged_write_page m (a div GUEST_PAGE_SIZE) (a mod GUEST_PAGE_SIZE) bs = Some m' \<and> paged_wf m' \<and>
    paged_bytes m' = ring_put (paged_bytes m) a bs \<and> paged_words m' = paged_words m"
proof -
  let ?P = GUEST_PAGE_SIZE and ?n = "length (paged_bytes m)" and ?k = "a mod length (paged_bytes m) div GUEST_PAGE_SIZE"
  let ?g = "data_gpns m ! ?k"
  note page = paged_data_page[OF assms(1,2)]
  have sizes: "length (pg_store m g) = ?P" if "g \<in> set (data_gpns m)" for g using that assms(1) by (simp add: paged_wf_def)
  have g: "?g \<in> set (data_gpns m)" using page(2) by simp
  define m' where "m' = m\<lparr>pg_store := (pg_store m)(?g := splice (a mod ?P) bs (pg_store m ?g))\<rparr>"
  have gpns: "data_gpns m' = data_gpns m" "pg_pages m' = pg_pages m" by (simp_all add: m'_def data_gpns_def)
  have step: "paged_write_page m (a div ?P) (a mod ?P) bs = Some m'"
    using page(1) sizes[OF g] assms(3)
    by (simp add: paged_write_page_def paged_page_def splice_ck_def set_paged_page_def m'_def)
  have wf: "paged_wf m'"
    using assms(1,3) g unfolding paged_wf_def gpns by (auto simp: m'_def)
  have "hd (pg_pages m) \<noteq> ?g" using assms(1) g by (auto simp: paged_wf_def)
  then have words: "paged_words m' = paged_words m" by (simp add: paged_words_def gpns) (simp add: m'_def)
  have fits: "a mod ?n + length bs \<le> ?n"
    using page(2,3) assms(3) mult_le_mono1[of "Suc ?k" "length (data_gpns m)" ?P] length_paged_bytes[OF assms(1)]
    by simp
  have "paged_bytes m' = splice (a mod ?n) bs (paged_bytes m)"
  proof (rule nth_equalityI)
    show len: "length (paged_bytes m') = length (splice (a mod ?n) bs (paged_bytes m))"
      using fits length_paged_bytes[OF assms(1)] length_paged_bytes[OF wf] gpns by simp
    fix j assume "j < length (paged_bytes m')"
    then have j: "j < ?n" "j < length (data_gpns m) * ?P"
      using len fits length_paged_bytes[OF wf] gpns by simp_all
    define q r where "q = j div ?P" and "r = j mod ?P"
    have qr: "j = q * ?P + r" "r < ?P" "q < length (data_gpns m)"
      using j(2) by (simp_all add: q_def r_def less_mult_imp_div_less)
    have old: "paged_bytes m ! j = pg_store m (data_gpns m ! q) ! r"
      unfolding paged_bytes_def qr(1) using sizes qr(2,3) by (intro nth_concat_pages) auto
    have "paged_bytes m' ! j = pg_store m' (data_gpns m ! q) ! r"
      unfolding paged_bytes_def gpns qr(1) using wf gpns qr(2,3) by (intro nth_concat_pages) (auto simp: paged_wf_def)
    moreover have "data_gpns m ! q = ?g \<longleftrightarrow> q = ?k"
      using assms(1) qr(3) page(2) by (simp add: paged_wf_def nth_eq_iff_index_eq)
    moreover have "a mod ?n \<le> j \<and> j < a mod ?n + length bs \<longleftrightarrow>
        q = ?k \<and> a mod ?P \<le> r \<and> r < a mod ?P + length bs"
      using page_window[of r ?P "a mod ?P" "length bs" ?k q] qr(1,2) page(3) assms(3) by metis
    moreover have "j - a mod ?n = r - a mod ?P" if "q = ?k" using qr(1)[unfolded that] page(3) by linarith
    ultimately show "paged_bytes m' ! j = splice (a mod ?n) bs (paged_bytes m) ! j"
      using old fits j(1) qr(2) assms(3) sizes[OF g] by (auto simp: nth_splice m'_def)
  qed
  moreover have "ring_put (paged_bytes m) a bs = splice (a mod ?n) bs (paged_bytes m)"
    using splice_ck_ring[OF fits] fits by (simp add: splice_ck_def ring_put_mod)
  ultimately show ?thesis using step wf words by simp
qed

lemma paged_read_ring:
  "paged_wf m \<Longrightarrow> a + n \<le> 2 * length (paged_bytes m) \<Longrightarrow> paged_read_at m a n = Some (ring_get (paged_bytes m) a n)"
proof (induction m a n rule: paged_read_at.induct)
  case (1 m a n)
  show ?case
  proof (cases "n = 0")
    case True
    then show ?thesis by (subst paged_read_at.simps) simp
  next
    case False
    define k where "k = min GUEST_PAGE_SIZE (a mod GUEST_PAGE_SIZE + n) - a mod GUEST_PAGE_SIZE"
    have am: "a mod GUEST_PAGE_SIZE < GUEST_PAGE_SIZE" by simp
    then have k: "k \<le> n" "a mod GUEST_PAGE_SIZE + k \<le> GUEST_PAGE_SIZE" by (auto simp: k_def)
    then have rd: "paged_read_page m (a div GUEST_PAGE_SIZE) (a mod GUEST_PAGE_SIZE) k = Some (ring_get (paged_bytes m) a k)"
      using "1.prems" False by (intro paged_read_page_ring) auto
    moreover have "paged_read_at m (a + k) (n - k) = Some (ring_get (paged_bytes m) (a + k) (n - k))"
      using "1.IH"[OF False refl refl refl refl, folded k_def, OF rd] "1.prems" k(1) by simp
    ultimately show ?thesis
      using False rd k(1) ring_get_add[of "paged_bytes m" a k "n - k"]
      by (subst paged_read_at.simps) (simp add: Let_def flip: k_def)
  qed
qed

lemma paged_write_ring:
  assumes "paged_wf m" "a + length bs \<le> 2 * length (paged_bytes m)" "length bs \<le> length (paged_bytes m)"
  shows "\<exists>m'. paged_write_at m a bs = Some m' \<and> paged_wf m' \<and> paged_bytes m' = ring_put (paged_bytes m) a bs \<and>
    paged_words m' = paged_words m"
  using assms
proof (induction m a bs rule: paged_write_at.induct)
  case (1 m a bs)
  show ?case
  proof (cases "bs = []")
    case True
    then show ?thesis using "1.prems" by (subst paged_write_at.simps) simp
  next
    case False
    define k where "k = min GUEST_PAGE_SIZE (a mod GUEST_PAGE_SIZE + length bs) - a mod GUEST_PAGE_SIZE"
    have am: "a mod GUEST_PAGE_SIZE < GUEST_PAGE_SIZE" by simp
    then have k: "k \<le> length bs" "a mod GUEST_PAGE_SIZE + k \<le> GUEST_PAGE_SIZE" by (auto simp: k_def)
    have "a < 2 * length (paged_bytes m)" using "1.prems"(2) False by (cases bs) auto
    then obtain m1 where m1: "paged_write_page m (a div GUEST_PAGE_SIZE) (a mod GUEST_PAGE_SIZE) (take k bs) = Some m1"
      "paged_wf m1" "paged_bytes m1 = ring_put (paged_bytes m) a (take k bs)" "paged_words m1 = paged_words m"
      using paged_write_page_ring[OF "1.prems"(1), of a "take k bs"] k by auto
    have small: "length bs - k \<le> length (paged_bytes m)" using "1.prems"(3) by linarith
    obtain m2 where m2: "paged_write_at m1 (a + k) (drop k bs) = Some m2" "paged_wf m2"
      "paged_bytes m2 = ring_put (paged_bytes m1) (a + k) (drop k bs)" "paged_words m2 = paged_words m1"
      using "1.IH"[OF False refl refl refl refl m1(1)[unfolded k_def]] m1 "1.prems"(2) k(1) small
      by (auto simp flip: k_def)
    have "paged_write_at m a bs = Some m2"
      using False m1(1) m2(1) by (subst paged_write_at.simps) (simp add: Let_def flip: k_def)
    moreover have "paged_bytes m2 = ring_put (paged_bytes m) a bs"
      using m1(3) m2(3) k(1) "1.prems"(3) ring_put_append[of "take k bs" "drop k bs" "paged_bytes m" a] by simp
    ultimately show ?thesis using m2 m1(4) by simp
  qed
qed

lemma aligned_chunk: "a mod 8 = 0 \<Longrightarrow> (a + i * 8) mod GUEST_PAGE_SIZE + 8 \<le> GUEST_PAGE_SIZE"
proof -
  assume "a mod 8 = 0"
  then obtain b where b: "a = 8 * b" by auto
  have "(a + i * 8) mod GUEST_PAGE_SIZE = 8 * ((b + i) mod 512)"
    using mult_mod_right[of 8 "b + i" 512] by (simp add: b GUEST_PAGE_SIZE_def distrib_left mult.commute)
  moreover have "(b + i) mod 512 < 512" by simp
  ultimately show ?thesis unfolding GUEST_PAGE_SIZE_def by linarith
qed

lemma read_chunks_ring:
  "paged_wf m \<Longrightarrow> a mod 8 = 0 \<Longrightarrow> a + i * 8 + k * 8 \<le> 2 * length (paged_bytes m) \<Longrightarrow>
   read_chunks m a i k = Some (ring_get (paged_bytes m) (a + i * 8) (k * 8))"
proof (induction k arbitrary: i)
  case (Suc k)
  have "paged_read_page m ((a + i * 8) div GUEST_PAGE_SIZE) ((a + i * 8) mod GUEST_PAGE_SIZE) 8 =
      Some (ring_get (paged_bytes m) (a + i * 8) 8)"
    using Suc.prems aligned_chunk[of a i] by (intro paged_read_page_ring) auto
  moreover have "a div 8 * 8 = a" using Suc.prems(2) by auto
  moreover have "read_chunks m a (i + 1) k = Some (ring_get (paged_bytes m) (a + (i + 1) * 8) (k * 8))"
    using Suc.prems by (intro Suc.IH) auto
  ultimately show ?case using ring_get_add[of "paged_bytes m" "a + i * 8" 8 "k * 8"] by (simp add: add_ac)
qed simp

lemma write_chunks_ring:
  "paged_wf m \<Longrightarrow> a mod 8 = 0 \<Longrightarrow> a + i * 8 + k * 8 \<le> 2 * length (paged_bytes m) \<Longrightarrow>
   length bs = k * 8 \<Longrightarrow> length bs \<le> length (paged_bytes m) \<Longrightarrow>
   \<exists>m'. write_chunks m a i k bs = Some m' \<and> paged_wf m' \<and>
     paged_bytes m' = ring_put (paged_bytes m) (a + i * 8) bs \<and> paged_words m' = paged_words m"
proof (induction k arbitrary: m i bs)
  case (Suc k)
  have t8: "length (take 8 bs) = 8" "length (drop 8 bs) = k * 8" using Suc.prems(4) by simp_all
  have "a + i * 8 < 2 * length (paged_bytes m)" using Suc.prems(3) by simp
  then obtain m1 where m1: "paged_write_page m ((a + i * 8) div GUEST_PAGE_SIZE) ((a + i * 8) mod GUEST_PAGE_SIZE) (take 8 bs) = Some m1"
      "paged_wf m1" "paged_bytes m1 = ring_put (paged_bytes m) (a + i * 8) (take 8 bs)" "paged_words m1 = paged_words m"
    using paged_write_page_ring[OF Suc.prems(1), of "a + i * 8" "take 8 bs"] aligned_chunk[OF Suc.prems(2), of i] t8
    by auto
  obtain m2 where m2: "write_chunks m1 a (i + 1) k (drop 8 bs) = Some m2" "paged_wf m2"
      "paged_bytes m2 = ring_put (paged_bytes m1) (a + (i + 1) * 8) (drop 8 bs)" "paged_words m2 = paged_words m1"
    using Suc.IH[OF m1(2) Suc.prems(2), of "i + 1" "drop 8 bs"] Suc.prems m1(3) by auto
  have "a div 8 * 8 = a" using Suc.prems(2) by auto
  then have "write_chunks m a i (Suc k) bs = Some m2" using m1(1) m2(1) by simp
  moreover have "paged_bytes m2 = ring_put (paged_bytes m) (a + i * 8) bs"
    using m1(3) m2(3) Suc.prems(4,5) t8(1) ring_put_append[of "take 8 bs" "drop 8 bs" "paged_bytes m" "a + i * 8"]
    by (simp add: add_ac)
  ultimately show ?case using m2 m1(4) by simp
qed simp

lemma paged_store_effect:
  assumes "paged_wf m" "i < 32"
  shows "\<exists>m'. paged_store m i v = Some m' \<and> paged_wf m' \<and> paged_bytes m' = paged_bytes m \<and>
    paged_words m' = (paged_words m)[i := v]"
proof -
  let ?c = "hd (pg_pages m)"
  define m' where "m' = m\<lparr>pg_store := (pg_store m)(?c := store_word i v (pg_store m ?c))\<rparr>"
  have gpns: "data_gpns m' = data_gpns m" "pg_pages m' = pg_pages m" by (simp_all add: m'_def data_gpns_def)
  have c: "index_ck (pg_pages m) 0 = Some ?c" "length (pg_store m ?c) = GUEST_PAGE_SIZE" "?c \<notin> set (data_gpns m)"
    using assms(1) by (auto simp: paged_wf_def index_ck_def hd_conv_nth)
  have "paged_store m i v = Some m'"
    using c(1) by (simp add: paged_store_def paged_page_def set_paged_page_def m'_def)
  moreover have "paged_wf m'"
    using assms(1) length_store_word[OF c(2) assms(2)] unfolding paged_wf_def gpns by (auto simp: m'_def)
  moreover have "paged_bytes m' = paged_bytes m"
    using c(3) by (simp add: paged_bytes_def gpns) (auto simp: m'_def intro!: arg_cong[of _ _ concat])
  moreover have "paged_words m' = (paged_words m)[i := v]"
    using control_words_store[OF c(2) assms(2), of v] by (simp add: paged_words_def gpns) (simp add: m'_def)
  ultimately show ?thesis by blast
qed

lemma paged_facts:
  assumes "paged_wf m"
  shows "paged_len m = Some (length (paged_bytes m))" "paged_control m = Some (paged_words m)"
proof -
  have p: "pg_pages m = hd (pg_pages m) # data_gpns m @ data_gpns m" using assms by (simp add: paged_wf_def)
  then have "length (pg_pages m) = 1 + 2 * length (data_gpns m)" by (metis length_Cons length_append mult_2 plus_1_eq_Suc)
  then show "paged_len m = Some (length (paged_bytes m))"
    using length_paged_bytes[OF assms] by (simp add: paged_len_def data_page_count_def)
  have "index_ck (pg_pages m) 0 = Some (hd (pg_pages m))" using p by (metis index_ck_simps length_greater_0_conv list.distinct(1) hd_conv_nth)
  then show "paged_control m = Some (paged_words m)" by (simp add: paged_control_def paged_page_def paged_words_def)
qed

interpretation paged: ring_mem paged_ops paged_wf paged_bytes paged_words
proof
  fix m :: paged_ring and a n :: nat and i v bs
  assume wf: "paged_wf m"
  show "rm_len paged_ops m = Some (length (paged_bytes m))" "rm_control paged_ops m = Some (paged_words m)"
    "length (paged_words m) = 32"
    using paged_facts[OF wf] by (simp_all add: paged_ops_def paged_words_def)
  show "\<exists>m'. rm_store paged_ops m i v = Some m' \<and> paged_wf m' \<and> paged_bytes m' = paged_bytes m \<and>
      paged_words m' = (paged_words m)[i := v]" if "i < 32"
    using paged_store_effect[OF wf that] by (simp add: paged_ops_def)
  show "rm_read_at paged_ops m a n = Some (ring_get (paged_bytes m) a n)" if "a + n \<le> 2 * length (paged_bytes m)"
    using paged_read_ring[OF wf that] by (simp add: paged_ops_def)
  show "rm_read_aligned paged_ops m a n = Some (ring_get (paged_bytes m) a n)"
    if "a + n \<le> 2 * length (paged_bytes m)" "a mod 8 = 0" "n mod 8 = 0"
    using read_chunks_ring[OF wf that(2), of 0 "n div 8"] that by (auto simp: paged_ops_def paged_read_aligned_def)
  show "\<exists>m'. rm_write_at paged_ops m a bs = Some m' \<and> paged_wf m' \<and>
      paged_bytes m' = ring_put (paged_bytes m) a bs \<and> paged_words m' = paged_words m"
    if "a + length bs \<le> 2 * length (paged_bytes m)" "length bs \<le> length (paged_bytes m)"
    using paged_write_ring[OF wf that] by (simp add: paged_ops_def)
  show "\<exists>m'. rm_write_aligned paged_ops m a bs = Some m' \<and> paged_wf m' \<and>
      paged_bytes m' = ring_put (paged_bytes m) a bs \<and> paged_words m' = paged_words m"
    if "a + length bs \<le> 2 * length (paged_bytes m)" "length bs \<le> length (paged_bytes m)"
      "a mod 8 = 0" "length bs mod 8 = 0"
    using write_chunks_ring[OF wf that(3), of 0 "length bs div 8" bs] that by (auto simp: paged_ops_def paged_write_aligned_def)
qed

lemma gpadl_paged_wf:
  assumes "distinct gpns" "gpns \<noteq> []" "\<forall>g\<in>set gpns. length (store g) = GUEST_PAGE_SIZE"
  shows "paged_wf (gpadl_paged_new gpns store)" "data_gpns (gpadl_paged_new gpns store) = tl gpns"
  using assms by (auto simp: gpadl_paged_new_def paged_wf_def data_gpns_def neq_Nil_conv)

subsection \<open>Properties\<close>

definition same_ring :: "paged_ring \<Rightarrow> single_mapped \<Rightarrow> bool" where
  "same_ring m s \<longleftrightarrow> paged_wf m \<and> single_wf s \<and> paged_bytes m = drop GUEST_PAGE_SIZE s \<and> paged_words m = page_words s"

text \<open>C11. Ring memory scattered over guest pages behaves as the same ring in one contiguous
  mapping: with equal contents, reads that wrap at most once return the same bytes from both, plain
  or aligned, and writes and control-word stores succeed on both and leave them equal. The guest
  pages must be distinct.\<close>

theorem paged_single_equivalent:
  assumes "same_ring m s" "a + n \<le> 2 * length (paged_bytes m)" "a + length bs \<le> 2 * length (paged_bytes m)"
    "length bs \<le> length (paged_bytes m)" "i < 32"
  shows "paged_read_at m a n = single_read_at s a n \<and>
    (a mod 8 = 0 \<and> n mod 8 = 0 \<longrightarrow> paged_read_aligned m a n = paged_read_at m a n) \<and>
    (\<exists>m' s'. paged_write_at m a bs = Some m' \<and> single_write_at s a bs = Some s' \<and> same_ring m' s') \<and>
    (a mod 8 = 0 \<and> length bs mod 8 = 0 \<longrightarrow>
      (\<exists>m' s'. paged_write_aligned m a bs = Some m' \<and> single_write_at s a bs = Some s' \<and> same_ring m' s')) \<and>
    (\<exists>m' s'. paged_store m i v = Some m' \<and> single_store s i v = Some s' \<and> same_ring m' s')"
proof -
  have wf: "paged_wf m" "single_wf s" and eq: "drop GUEST_PAGE_SIZE s = paged_bytes m" "page_words s = paged_words m"
    using assms(1) by (simp_all add: same_ring_def)
  have ops: "rm_read_at paged_ops = paged_read_at" "rm_read_aligned paged_ops = paged_read_aligned"
    "rm_write_at paged_ops = paged_write_at" "rm_write_aligned paged_ops = paged_write_aligned"
    "rm_store paged_ops = paged_store" "rm_read_at single_mapped_ops = single_read_at"
    "rm_write_at single_mapped_ops = single_write_at" "rm_store single_mapped_ops = single_store"
    by (simp_all add: paged_ops_def single_mapped_ops_def)
  note p = paged.mem_read_at[OF wf(1)] paged.mem_read_aligned[OF wf(1)] paged.mem_write_at[OF wf(1)]
    paged.mem_write_aligned[OF wf(1)] paged.mem_store[OF wf(1)]
  note q = single.mem_read_at[OF wf(2)] single.mem_write_at[OF wf(2)] single.mem_store[OF wf(2)]
  obtain s1 where s1: "single_write_at s a bs = Some s1" "single_wf s1"
    "drop GUEST_PAGE_SIZE s1 = ring_put (paged_bytes m) a bs" "page_words s1 = paged_words m"
    using q(2)[unfolded ops eq, OF assms(3,4)] by blast
  show ?thesis
  proof (intro conjI impI)
    show "paged_read_at m a n = single_read_at s a n"
      using p(1)[unfolded ops, OF assms(2)] q(1)[unfolded ops eq, OF assms(2)] by simp
    show "paged_read_aligned m a n = paged_read_at m a n" if "a mod 8 = 0 \<and> n mod 8 = 0"
      using p(1,2)[unfolded ops, OF assms(2)] that by simp
    show "\<exists>m' s'. paged_write_at m a bs = Some m' \<and> single_write_at s a bs = Some s' \<and> same_ring m' s'"
      using p(3)[unfolded ops, OF assms(3,4)] s1 by (auto simp: same_ring_def)
    show "\<exists>m' s'. paged_write_aligned m a bs = Some m' \<and> single_write_at s a bs = Some s' \<and> same_ring m' s'"
      if "a mod 8 = 0 \<and> length bs mod 8 = 0"
      using p(4)[unfolded ops, OF assms(3,4)] that s1 by (auto simp: same_ring_def)
    show "\<exists>m' s'. paged_store m i v = Some m' \<and> single_store s i v = Some s' \<and> same_ring m' s'"
      using p(5)[unfolded ops, OF assms(5), of v] q(3)[unfolded ops eq, OF assms(5), of v] by (auto simp: same_ring_def)
  qed
qed

lemma zero_rings:
  "same_ring (gpadl_paged_new [5, 9] (\<lambda>_. replicate 4096 0)) (replicate 8192 0)"
  "length (paged_bytes (gpadl_paged_new [5, 9] (\<lambda>_. replicate 4096 0))) = 4096"
proof -
  have "paged_wf (gpadl_paged_new [5, 9] (\<lambda>_. replicate 4096 0))" "data_gpns (gpadl_paged_new [5, 9] (\<lambda>_. replicate 4096 0)) = [9]"
    using gpadl_paged_wf[of "[5, 9]" "\<lambda>_. replicate 4096 0"] by (simp_all add: GUEST_PAGE_SIZE_def)
  then show "same_ring (gpadl_paged_new [5, 9] (\<lambda>_. replicate 4096 0)) (replicate 8192 0)"
    "length (paged_bytes (gpadl_paged_new [5, 9] (\<lambda>_. replicate 4096 0))) = 4096"
    by (simp_all add: same_ring_def paged_bytes_def paged_words_def single_wf_def page_words_def GUEST_PAGE_SIZE_def)
      (simp_all add: gpadl_paged_new_def)
qed

theorem paged_single_equivalent_witness:
  "paged_read_at (gpadl_paged_new [5, 9] (\<lambda>_. replicate 4096 0)) 4090 16 = single_read_at (replicate 8192 0) 4090 16 \<and>
   (\<exists>m' s'. paged_write_at (gpadl_paged_new [5, 9] (\<lambda>_. replicate 4096 0)) 4090 [1, 2, 3, 4, 5, 6, 7, 8] = Some m' \<and>
     single_write_at (replicate 8192 0) 4090 [1, 2, 3, 4, 5, 6, 7, 8] = Some s' \<and> same_ring m' s')"
  using paged_single_equivalent[OF zero_rings(1), of 4090 16 "[1, 2, 3, 4, 5, 6, 7, 8]" 0] zero_rings(2) by simp

lemma multi_buf_first_pages:
  assumes "multi_buf_first b = Some (Some r)"
  shows "length (pr_pages r) < 2 ^ 32"
proof -
  define h where "h = gpa_range_of_u64 (mb_buf b ! 0)"
  from assms obtain total this where "add_ck (gr_offset h) (gr_len h) = Some total"
      and r: "paged_range_new (unat (gr_offset h)) (unat (gr_len h)) this = Some r"
    by (auto simp: multi_buf_first_def multi_buf_iter_def multi_iter_next_def Let_def index_ck_def h_def
        split: if_splits bind_splits)
  then have h: "unat (gr_offset h) + unat (gr_len h) < 2 ^ 32" by (simp add: add_ck_eq_Some_iff)
  have ok: "paged_range_ok r" using r by (auto simp: paged_range_new_def paged_range_ok_def Let_def split: if_splits)
  have "pr_start r = unat (gr_offset h)" "pr_len r = unat (gr_len h)"
    using r by (auto simp: paged_range_new_def pr_len_def Let_def split: if_splits)
  then have "pr_offset r + pr_len r \<le> unat (gr_offset h) + unat (gr_len h)" by (simp add: pr_offset_def)
  also have "\<dots> < 2 ^ 32" by (rule h)
  finally have "pr_offset r + pr_len r \<le> (2 ^ 32 - 1) * GUEST_PAGE_SIZE" by (simp add: GUEST_PAGE_SIZE_def)
  then have "div_ceil (pr_offset r + pr_len r) GUEST_PAGE_SIZE \<le> 2 ^ 32 - 1" by (simp only: div_ceil_page)
  then show ?thesis using length_pr_pages(1)[OF ok] by simp
qed

text \<open>Splitting a page-aligned GPADL at a page number divides its pages: \<open>split\<close> succeeds
  exactly for a page number strictly inside the GPADL, the left part gets the pages before it and
  the right part the pages from it on, and together they are all pages of the GPADL.\<close>

theorem aligned_split_partitions:
  assumes "aligned_new gpadl = Some (Inr v)"
  shows "\<exists>gpns. aligned_gpns v = Some gpns \<and>
    (if 0 < k \<and> unat k < length gpns
     then \<exists>l r. aligned_split v k = Inr (l, r) \<and> aligned_gpns l = Some (take (unat k) gpns) \<and>
       aligned_gpns r = Some (drop (unat k) gpns)
     else aligned_split v k = Inl v)"
proof -
  from assms obtain r where r: "multi_buf_first gpadl = Some (Some r)"
      and v: "v = \<lparr>av_gpadl = gpadl, av_offset = 0, av_len = of_nat (length (pr_pages r))\<rparr>"
    by (auto simp: aligned_new_def split: if_splits bind_splits)
  have n: "unat (of_nat (length (pr_pages r)) :: u32) = length (pr_pages r)"
    using multi_buf_first_pages[OF r] by (simp add: unat_of_nat)
  have "aligned_gpns v = Some (pr_pages r)"
    by (simp add: aligned_gpns_def v r n slice_ck_def slice_def)
  moreover have "unat k < length (pr_pages r) \<longleftrightarrow> k < of_nat (length (pr_pages r))"
    by (simp add: word_less_nat_alt n)
  moreover have "unat (of_nat (length (pr_pages r)) - k) = length (pr_pages r) - unat k" if "k < of_nat (length (pr_pages r))"
    using that by (simp add: unat_sub less_imp_le n)
  ultimately show ?thesis
    by (auto simp: aligned_split_def v aligned_gpns_def r slice_ck_def slice_def not_less word_gt_0 n word_le_nat_alt)
qed






end
