(* ===== verification/VmbusRing.thy ===== *)
theory VmbusRing
  imports RingMem
begin

text \<open>
  The vmbus ring buffer of \<open>vmbus_ring\<close>: packet descriptors, \<open>IncomingRing\<close> and \<open>OutgoingRing\<close>.

  A ring is the record \<open>inner_ring\<close> of its memory methods and its size; the memory contents are
  passed and returned separately, because the two ends of a channel share them. Ring pointers and
  packet sizes are \<open>u32\<close> words with checked arithmetic. Every method is one step: the interleaving
  of the other end inside a method is not modelled, and neither are the memory orderings.
\<close>

subsection \<open>Packets\<close>

record packet_descriptor =
  pd_packet_type :: u16
  pd_data_offset8 :: u16
  pd_length8 :: u16
  pd_flags :: u16
  pd_transaction_id :: u64

text \<open>The \<open>repr(C)\<close> layouts of the packet structures: bytes of the fields in order.\<close>

definition desc_bytes :: "packet_descriptor \<Rightarrow> u8 list" where
  "desc_bytes d = le_bytes 2 (pd_packet_type d) @ le_bytes 2 (pd_data_offset8 d) @ le_bytes 2 (pd_length8 d) @
     le_bytes 2 (pd_flags d) @ le_bytes 8 (pd_transaction_id d)"

definition desc_of_bytes :: "u8 list \<Rightarrow> packet_descriptor" where
  "desc_of_bytes bs =
     \<lparr>pd_packet_type = of_le_bytes (slice 0 2 bs), pd_data_offset8 = of_le_bytes (slice 2 2 bs),
      pd_length8 = of_le_bytes (slice 4 2 bs), pd_flags = of_le_bytes (slice 6 2 bs),
      pd_transaction_id = of_le_bytes (slice 8 8 bs)\<rparr>"

record transfer_page_range =
  tr_byte_count :: u32
  tr_byte_offset :: u32

definition tp_range_bytes :: "transfer_page_range \<Rightarrow> u8 list" where
  "tp_range_bytes r = le_bytes 4 (tr_byte_count r) @ le_bytes 4 (tr_byte_offset r)"

record transfer_page_header =
  th_transfer_page_set_id :: u16
  th_reserved :: u16
  th_range_count :: u32

definition tp_header_bytes :: "transfer_page_header \<Rightarrow> u8 list" where
  "tp_header_bytes h = le_bytes 2 (th_transfer_page_set_id h) @ le_bytes 2 (th_reserved h) @ le_bytes 4 (th_range_count h)"

definition tp_header_of_bytes :: "u8 list \<Rightarrow> transfer_page_header" where
  "tp_header_of_bytes bs =
     \<lparr>th_transfer_page_set_id = of_le_bytes (slice 0 2 bs), th_reserved = of_le_bytes (slice 2 2 bs),
      th_range_count = of_le_bytes (slice 4 4 bs)\<rparr>"

record gpa_direct_header =
  gh_reserved :: u32
  gh_range_count :: u32

definition gpa_header_bytes :: "gpa_direct_header \<Rightarrow> u8 list" where
  "gpa_header_bytes h = le_bytes 4 (gh_reserved h) @ le_bytes 4 (gh_range_count h)"

definition gpa_header_of_bytes :: "u8 list \<Rightarrow> gpa_direct_header" where
  "gpa_header_of_bytes bs = \<lparr>gh_reserved = of_le_bytes (slice 0 4 bs), gh_range_count = of_le_bytes (slice 4 4 bs)\<rparr>"

record packet_footer =
  ft_reserved :: u32
  ft_offset :: u32

definition footer_bytes :: "packet_footer \<Rightarrow> u8 list" where
  "footer_bytes f = le_bytes 4 (ft_reserved f) @ le_bytes 4 (ft_offset f)"

text \<open>\<open>GpaRange::as_bytes\<close> and the bytes of a slice of page numbers.\<close>

definition gpa_range_bytes :: "gpa_range \<Rightarrow> u8 list" where
  "gpa_range_bytes r = le_bytes 4 (gr_len r) @ le_bytes 4 (gr_offset r)"

definition gpns_bytes :: "u64 list \<Rightarrow> u8 list" where
  "gpns_bytes gpns = concat (map (le_bytes 8) gpns)"

definition PACKET_FLAG_COMPLETION_REQUESTED :: u16 where
  "PACKET_FLAG_COMPLETION_REQUESTED = 1"

definition FEATURE_SUPPORTS_PENDING_SEND_SIZE :: u32 where
  "FEATURE_SUPPORTS_PENDING_SEND_SIZE = 1"

definition PACKET_TYPE_IN_BAND :: u16 where
  "PACKET_TYPE_IN_BAND = 6"

definition PACKET_TYPE_TRANSFER_PAGES :: u16 where
  "PACKET_TYPE_TRANSFER_PAGES = 7"

definition PACKET_TYPE_GPA_DIRECT :: u16 where
  "PACKET_TYPE_GPA_DIRECT = 9"

definition PACKET_TYPE_COMPLETION :: u16 where
  "PACKET_TYPE_COMPLETION = 0xb"

datatype ring_error =
    InvalidRingPointer
  | InvalidMessageLength
  | InvalidDataAvailable
  | RingTooLarge
  | InvalidRingMemory
  | InvalidDescriptorLengths
  | InvalidDescriptorFlags
  | InvalidDescriptorType
  | InvalidDescriptorGpaDirectRangeCount
  | InterruptsExternallyMasked

datatype read_error = ReadEmpty | ReadCorrupt ring_error
datatype write_error = WriteFull nat | WriteCorrupt ring_error

record ring_range =
  rg_off :: u32
  rg_size :: u32

datatype incoming_packet_type =
    InBand
  | Completion
  | GpaDirect u32 ring_range
  | TransferPages u16 u32 ring_range

record incoming_packet =
  ip_transaction_id :: "u64 option"
  ip_typ :: incoming_packet_type
  ip_payload :: ring_range

datatype outgoing_packet_type =
    OutInBandNoCompletion
  | OutInBandWithCompletion
  | OutCompletion
  | OutGpaDirect "paged_range list"
  | OutTransferPages u16 "transfer_page_range list"

record outgoing_packet =
  op_transaction_id :: u64
  op_size :: nat
  op_typ :: outgoing_packet_type

subsection \<open>The common part of both ends\<close>

text \<open>The words of the control page.\<close>

definition CTL_INP :: nat where
  "CTL_INP = 0"

definition CTL_OUTP :: nat where
  "CTL_OUTP = 1"

definition CTL_INTERRUPT_MASK :: nat where
  "CTL_INTERRUPT_MASK = 2"

definition CTL_PENDING_SEND_SIZE :: nat where
  "CTL_PENDING_SEND_SIZE = 3"

definition CTL_FEATURE_BITS :: nat where
  "CTL_FEATURE_BITS = 16"

record 'm inner_ring =
  ir_mem :: "'m ring_mem_ops"
  ir_size :: u32

definition inner_ring_new :: "'m ring_mem_ops \<Rightarrow> 'm \<Rightarrow> (ring_error + 'm inner_ring) option" where
  "inner_ring_new ops m = do {
     len \<leftarrow> rm_len ops m;
     if len \<ge> 2 ^ 32 then Some (Inl InvalidRingMemory)
     else
       let ring_size = of_nat len :: u32 in
       if ring_size mod 4096 \<noteq> 0 then Some (Inl InvalidRingMemory)
       else Some (Inr \<lparr>ir_mem = ops, ir_size = ring_size\<rparr>)
   }"

definition control_load :: "'m inner_ring \<Rightarrow> 'm \<Rightarrow> nat \<Rightarrow> u32 option" where
  "control_load r m i = do {
     c \<leftarrow> rm_control (ir_mem r) m;
     index_ck c i
   }"

definition control_store :: "'m inner_ring \<Rightarrow> 'm \<Rightarrow> nat \<Rightarrow> u32 \<Rightarrow> 'm option" where
  "control_store r m i v = rm_store (ir_mem r) m i v"

definition validate :: "'m inner_ring \<Rightarrow> u32 \<Rightarrow> ring_error + u32" where
  "validate r p = (if p \<ge> ir_size r \<or> p mod 8 \<noteq> 0 then Inl InvalidRingPointer else Inr p)"

definition add_pointer :: "'m inner_ring \<Rightarrow> u32 \<Rightarrow> u32 \<Rightarrow> u32 option" where
  "add_pointer r p off = do {
     np \<leftarrow> add_ck p off;
     if np \<ge> ir_size r then do {
       size2 \<leftarrow> mul_ck (ir_size r) 2;
       assert_that (np < size2);
       sub_ck np (ir_size r)
     } else Some np
   }"

definition available :: "'m inner_ring \<Rightarrow> u32 \<Rightarrow> u32 \<Rightarrow> u32 option" where
  "available r inp outp =
     (if inp > outp then sub_ck inp outp
      else do {
        e \<leftarrow> add_ck (ir_size r) inp;
        sub_ck e outp
      })"

definition ring_free :: "u32 \<Rightarrow> u32 \<Rightarrow> u32 \<Rightarrow> u32 option" where
  "ring_free ring_size inp outp =
     (if outp > inp then do {
        d \<leftarrow> sub_ck outp inp;
        sub_ck d 8
      } else do {
        d \<leftarrow> sub_ck inp outp;
        e \<leftarrow> sub_ck ring_size d;
        sub_ck e 8
      })"

definition inner_free :: "'m inner_ring \<Rightarrow> u32 \<Rightarrow> u32 \<Rightarrow> u32 option" where
  "inner_free r inp outp = ring_free (ir_size r) inp outp"

text \<open>\<open>control_page\<close> is the list of control words, or \<open>None\<close> where the page is not aligned.\<close>

definition reader_needs_signal :: "u32 list option \<Rightarrow> bool" where
  "reader_needs_signal control_page =
     (case control_page of
        None \<Rightarrow> False
      | Some c \<Rightarrow> c ! CTL_INTERRUPT_MASK = 0 \<and> c ! CTL_INP \<noteq> c ! CTL_OUTP)"

definition writer_needs_signal :: "u32 list option \<Rightarrow> u32 \<Rightarrow> bool option" where
  "writer_needs_signal control_page ring_size =
     (case control_page of
        None \<Rightarrow> Some False
      | Some c \<Rightarrow>
          (let pending_size = c ! CTL_PENDING_SEND_SIZE in
           if pending_size \<noteq> 0 then do {
             free \<leftarrow> ring_free ring_size (c ! CTL_INP) (c ! CTL_OUTP);
             Some (free \<ge> pending_size)
           } else Some False))"

subsection \<open>Ranges within a ring\<close>

definition ring_range_empty :: ring_range where
  "ring_range_empty = \<lparr>rg_off = 0, rg_size = 0\<rparr>"

definition ring_range_len :: "ring_range \<Rightarrow> nat" where
  "ring_range_len g = unat (rg_size g)"

definition ring_range_is_empty :: "ring_range \<Rightarrow> bool" where
  "ring_range_is_empty g \<longleftrightarrow> rg_size g = 0"

text \<open>A reader or writer of a range; the error of an access that is too long.\<close>

record ring_cursor =
  rc_start :: u32
  rc_end :: u32

datatype access_error = OutOfRange nat nat

definition range_reader :: "ring_range \<Rightarrow> ring_cursor option" where
  "range_reader g = do {
     e \<leftarrow> add_ck (rg_off g) (rg_size g);
     Some \<lparr>rc_start = rg_off g, rc_end = e\<rparr>
   }"

definition range_writer :: "ring_range \<Rightarrow> ring_cursor option" where
  "range_writer g = do {
     e \<leftarrow> add_ck (rg_off g) (rg_size g);
     Some \<lparr>rc_start = rg_off g, rc_end = e\<rparr>
   }"

definition cursor_len :: "ring_cursor \<Rightarrow> nat option" where
  "cursor_len c = map_option unat (sub_ck (rc_end c) (rc_start c))"

definition reader_read ::
  "'m inner_ring \<Rightarrow> 'm \<Rightarrow> ring_cursor \<Rightarrow> nat \<Rightarrow> (ring_cursor \<times> (access_error + u8 list)) option" where
  "reader_read r m c n = do {
     len \<leftarrow> cursor_len c;
     if len < n then Some (c, Inl (OutOfRange len n))
     else do {
       bytes \<leftarrow> rm_read_at (ir_mem r) m (unat (rc_start c)) n;
       start \<leftarrow> add_ck (rc_start c) (of_nat n);
       Some (c\<lparr>rc_start := start\<rparr>, Inr bytes)
     }
   }"

definition reader_skip :: "ring_cursor \<Rightarrow> nat \<Rightarrow> (ring_cursor \<times> (access_error + unit)) option" where
  "reader_skip c n = do {
     len \<leftarrow> cursor_len c;
     if len < n then Some (c, Inl (OutOfRange len n))
     else do {
       start \<leftarrow> add_ck (rc_start c) (of_nat n);
       Some (c\<lparr>rc_start := start\<rparr>, Inr ())
     }
   }"

definition writer_write ::
  "'m inner_ring \<Rightarrow> 'm \<Rightarrow> ring_cursor \<Rightarrow> u8 list \<Rightarrow> ('m \<times> ring_cursor \<times> (access_error + unit)) option" where
  "writer_write r m c bs = do {
     len \<leftarrow> cursor_len c;
     if len < length bs then Some (m, c, Inl (OutOfRange len (length bs)))
     else do {
       m \<leftarrow> rm_write_at (ir_mem r) m (unat (rc_start c)) bs;
       start \<leftarrow> add_ck (rc_start c) (of_nat (length bs));
       Some (m, c\<lparr>rc_start := start\<rparr>, Inr ())
     }
   }"

definition write_aligned_full :: "'m inner_ring \<Rightarrow> 'm \<Rightarrow> ring_range \<Rightarrow> u64 list \<Rightarrow> 'm option" where
  "write_aligned_full r m g words = do {
     assert_that (unat (rg_size g) = length words * 8);
     rm_write_aligned (ir_mem r) m (unat (rg_off g)) (gpns_bytes words)
   }"

subsection \<open>Parsing a packet\<close>

definition DESCRIPTOR_SIZE8 :: u16 where
  "DESCRIPTOR_SIZE8 = 2"

definition TRANSFER_PAGE_HEADER_SIZE8 :: u16 where
  "TRANSFER_PAGE_HEADER_SIZE8 = DESCRIPTOR_SIZE8 + 1"

definition GPA_DIRECT_HEADER_SIZE8 :: u16 where
  "GPA_DIRECT_HEADER_SIZE8 = DESCRIPTOR_SIZE8 + 1"

text \<open>The range that starts \<open>from8\<close> words into the packet and ends \<open>to8\<close> words into it.\<close>

definition packet_range :: "u32 \<Rightarrow> u16 \<Rightarrow> u16 \<Rightarrow> ring_range option" where
  "packet_range ring_off from8 to8 = do {
     from \<leftarrow> mul_ck (ucast from8) 8;
     off \<leftarrow> add_ck ring_off from;
     d \<leftarrow> sub_ck to8 from8;
     n \<leftarrow> mul_ck (ucast d) 8;
     Some \<lparr>rg_off = off, rg_size = n\<rparr>
   }"

definition parse_transfer_pages ::
  "'m ring_mem_ops \<Rightarrow> 'm \<Rightarrow> u32 \<Rightarrow> packet_descriptor \<Rightarrow> (read_error + incoming_packet_type) option" where
  "parse_transfer_pages ops m ring_off desc =
     (if pd_data_offset8 desc < TRANSFER_PAGE_HEADER_SIZE8 then Some (Inl (ReadCorrupt InvalidDescriptorLengths))
      else do {
        bytes \<leftarrow> rm_read_aligned ops m (unat ring_off + 16) 8;
        let tph = tp_header_of_bytes bytes;
        g \<leftarrow> packet_range ring_off TRANSFER_PAGE_HEADER_SIZE8 (pd_data_offset8 desc);
        Some (Inr (TransferPages (th_transfer_page_set_id tph) (th_range_count tph) g))
      })"

definition parse_gpa_direct ::
  "'m ring_mem_ops \<Rightarrow> 'm \<Rightarrow> u32 \<Rightarrow> packet_descriptor \<Rightarrow> (read_error + incoming_packet_type) option" where
  "parse_gpa_direct ops m ring_off desc =
     (if pd_data_offset8 desc < GPA_DIRECT_HEADER_SIZE8 then Some (Inl (ReadCorrupt InvalidDescriptorLengths))
      else do {
        bytes \<leftarrow> rm_read_aligned ops m (unat ring_off + 16) 8;
        let gph = gpa_header_of_bytes bytes;
        if gh_range_count gph = 0 then Some (Inl (ReadCorrupt InvalidDescriptorGpaDirectRangeCount))
        else do {
          g \<leftarrow> packet_range ring_off GPA_DIRECT_HEADER_SIZE8 (pd_data_offset8 desc);
          Some (Inr (GpaDirect (gh_range_count gph) g))
        }
      })"

definition parse_packet ::
  "'m ring_mem_ops \<Rightarrow> 'm \<Rightarrow> u32 \<Rightarrow> u32 \<Rightarrow> (read_error + u32 \<times> incoming_packet) option" where
  "parse_packet ops m ring_off avail = do {
     bytes \<leftarrow> rm_read_aligned ops m (unat ring_off) 16;
     let desc = desc_of_bytes bytes;
     len \<leftarrow> mul_ck (ucast (pd_length8 desc)) 8;
     if pd_length8 desc < pd_data_offset8 desc \<or> pd_data_offset8 desc < DESCRIPTOR_SIZE8 \<or> avail < len
     then Some (Inl (ReadCorrupt InvalidDescriptorLengths))
     else if pd_flags desc AND NOT PACKET_FLAG_COMPLETION_REQUESTED \<noteq> 0
     then Some (Inl (ReadCorrupt InvalidDescriptorFlags))
     else do {
       let transaction_id =
         (if pd_flags desc AND PACKET_FLAG_COMPLETION_REQUESTED \<noteq> 0 \<or> pd_packet_type desc = PACKET_TYPE_COMPLETION
          then Some (pd_transaction_id desc) else None);
       typ \<leftarrow>
         (if pd_packet_type desc = PACKET_TYPE_IN_BAND then Some (Inr InBand)
          else if pd_packet_type desc = PACKET_TYPE_COMPLETION then Some (Inr Completion)
          else if pd_packet_type desc = PACKET_TYPE_TRANSFER_PAGES then parse_transfer_pages ops m ring_off desc
          else if pd_packet_type desc = PACKET_TYPE_GPA_DIRECT then parse_gpa_direct ops m ring_off desc
          else Some (Inl (ReadCorrupt InvalidDescriptorType)));
       case typ of
         Inl e \<Rightarrow> Some (Inl e)
       | Inr typ \<Rightarrow> do {
           payload \<leftarrow> packet_range ring_off (pd_data_offset8 desc) (pd_length8 desc);
           Some (Inr (len, \<lparr>ip_transaction_id = transaction_id, ip_typ = typ, ip_payload = payload\<rparr>))
         }
     }
   }"

subsection \<open>The incoming ring\<close>

record incoming_offset =
  io_cached_in :: u32
  io_committed_out :: u32
  io_next_out :: u32

definition incoming_revert :: "incoming_offset \<Rightarrow> incoming_offset" where
  "incoming_revert p = p\<lparr>io_next_out := io_committed_out p\<rparr>"

definition incoming_ring_new :: "'m ring_mem_ops \<Rightarrow> 'm \<Rightarrow> ('m \<times> (ring_error + 'm inner_ring)) option" where
  "incoming_ring_new ops m = do {
     inner \<leftarrow> inner_ring_new ops m;
     case inner of
       Inl e \<Rightarrow> Some (m, Inl e)
     | Inr r \<Rightarrow> do {
         m \<leftarrow> control_store r m CTL_INTERRUPT_MASK 1;
         Some (m, Inr r)
       }
   }"

definition supports_pending_send_size :: "'m inner_ring \<Rightarrow> 'm \<Rightarrow> bool option" where
  "supports_pending_send_size r m = do {
     feature_bits \<leftarrow> control_load r m CTL_FEATURE_BITS;
     Some (feature_bits AND FEATURE_SUPPORTS_PENDING_SEND_SIZE \<noteq> 0)
   }"

definition set_interrupt_mask :: "'m inner_ring \<Rightarrow> 'm \<Rightarrow> bool \<Rightarrow> 'm option" where
  "set_interrupt_mask r m state = control_store r m CTL_INTERRUPT_MASK (if state then 1 else 0)"

definition verify_interrupts_unmasked :: "'m inner_ring \<Rightarrow> 'm \<Rightarrow> (ring_error + unit) option" where
  "verify_interrupts_unmasked r m = do {
     v \<leftarrow> control_load r m CTL_INTERRUPT_MASK;
     Some (if v = 0 then Inr () else Inl InterruptsExternallyMasked)
   }"

definition incoming :: "'m inner_ring \<Rightarrow> 'm \<Rightarrow> (ring_error + incoming_offset) option" where
  "incoming r m = do {
     outp \<leftarrow> control_load r m CTL_OUTP;
     case validate r outp of
       Inl e \<Rightarrow> Some (Inl e)
     | Inr next_out \<Rightarrow> do {
         inp \<leftarrow> control_load r m CTL_INP;
         case validate r inp of
           Inl e \<Rightarrow> Some (Inl e)
         | Inr cached_in \<Rightarrow>
             Some (Inr \<lparr>io_cached_in = cached_in, io_committed_out = next_out, io_next_out = next_out\<rparr>)
       }
   }"

definition can_read :: "'m inner_ring \<Rightarrow> 'm \<Rightarrow> incoming_offset \<Rightarrow> (incoming_offset \<times> (ring_error + bool)) option" where
  "can_read r m p =
     (if io_next_out p \<noteq> io_cached_in p then Some (p, Inr True)
      else do {
        inp \<leftarrow> control_load r m CTL_INP;
        case validate r inp of
          Inl e \<Rightarrow> Some (p, Inl e)
        | Inr inp \<Rightarrow> Some (p\<lparr>io_cached_in := inp\<rparr>, Inr (io_next_out p \<noteq> inp))
      })"

definition commit_read :: "'m inner_ring \<Rightarrow> 'm \<Rightarrow> incoming_offset \<Rightarrow> ('m \<times> incoming_offset \<times> bool) option" where
  "commit_read r m p =
     (if io_committed_out p = io_next_out p then Some (m, p, False)
      else do {
        m \<leftarrow> control_store r m CTL_OUTP (io_next_out p);
        pending_send_size \<leftarrow> control_load r m CTL_PENDING_SEND_SIZE;
        let pending_send_size = pending_send_size AND NOT 7;
        signal \<leftarrow>
          (if pending_send_size \<noteq> 0 then do {
             inp \<leftarrow> control_load r m CTL_INP;
             case validate r inp of
               Inl e \<Rightarrow> Some False
             | Inr inp \<Rightarrow> do {
                 old_free \<leftarrow> inner_free r inp (io_committed_out p);
                 new_free \<leftarrow> inner_free r inp (io_next_out p);
                 Some (old_free < pending_send_size \<and> new_free \<ge> pending_send_size)
               }
           } else Some False);
        Some (m, p\<lparr>io_committed_out := io_next_out p\<rparr>, signal)
      })"

text \<open>\<open>read\<close>, first from where the incoming pointer \<open>inp\<close> is known, then as a whole.\<close>

definition read_next ::
  "'m inner_ring \<Rightarrow> 'm \<Rightarrow> incoming_offset \<Rightarrow> u32 \<Rightarrow> (incoming_offset \<times> (read_error + incoming_packet)) option" where
  "read_next r m p inp = do {
     let outp = io_next_out p;
     let p = p\<lparr>io_cached_in := inp\<rparr>;
     avail \<leftarrow> available r inp outp;
     if avail < 16 then Some (p, Inl (ReadCorrupt InvalidDataAvailable))
     else do {
       parsed \<leftarrow> parse_packet (ir_mem r) m outp avail;
       case parsed of
         Inl e \<Rightarrow> Some (p, Inl e)
       | Inr (len, packet) \<Rightarrow> do {
           total \<leftarrow> add_ck len 8;
           next_out \<leftarrow> add_pointer r outp total;
           Some (p\<lparr>io_next_out := next_out\<rparr>, Inr packet)
         }
     }
   }"

definition read_packet ::
  "'m inner_ring \<Rightarrow> 'm \<Rightarrow> incoming_offset \<Rightarrow> (incoming_offset \<times> (read_error + incoming_packet)) option" where
  "read_packet r m p =
     (if io_cached_in p = io_next_out p then do {
        inp \<leftarrow> control_load r m CTL_INP;
        case validate r inp of
          Inl e \<Rightarrow> Some (p, Inl (ReadCorrupt e))
        | Inr inp \<Rightarrow>
            if inp = io_next_out p then Some (p, Inl ReadEmpty) else read_next r m p inp
      } else read_next r m p (io_cached_in p))"

subsection \<open>The outgoing ring\<close>

definition packet_size_in_band :: "nat \<Rightarrow> nat" where
  "packet_size_in_band payload_len = 16 + (payload_len + 7) div 8 * 8 + 8"

definition packet_size_completion :: "nat \<Rightarrow> nat" where
  "packet_size_completion payload_len = packet_size_in_band payload_len"

definition packet_size_transfer_pages :: "nat \<Rightarrow> nat \<Rightarrow> nat" where
  "packet_size_transfer_pages count payload_len = packet_size_in_band payload_len + 8 + count * 8"

record outgoing_offset =
  oo_cached_out :: u32
  oo_committed_in :: u32
  oo_next_in :: u32

definition outgoing_revert :: "outgoing_offset \<Rightarrow> outgoing_offset" where
  "outgoing_revert p = p\<lparr>oo_next_in := oo_committed_in p\<rparr>"

definition outgoing_ring_new :: "'m ring_mem_ops \<Rightarrow> 'm \<Rightarrow> ('m \<times> (ring_error + 'm inner_ring)) option" where
  "outgoing_ring_new ops m = do {
     inner \<leftarrow> inner_ring_new ops m;
     case inner of
       Inl e \<Rightarrow> Some (m, Inl e)
     | Inr r \<Rightarrow> do {
         m \<leftarrow> control_store r m CTL_FEATURE_BITS FEATURE_SUPPORTS_PENDING_SEND_SIZE;
         m \<leftarrow> control_store r m CTL_PENDING_SEND_SIZE 0;
         Some (m, Inr r)
       }
   }"

definition outgoing :: "'m inner_ring \<Rightarrow> 'm \<Rightarrow> (ring_error + outgoing_offset) option" where
  "outgoing r m = do {
     inp \<leftarrow> control_load r m CTL_INP;
     case validate r inp of
       Inl e \<Rightarrow> Some (Inl e)
     | Inr next_in \<Rightarrow> do {
         outp \<leftarrow> control_load r m CTL_OUTP;
         case validate r outp of
           Inl e \<Rightarrow> Some (Inl e)
         | Inr cached_out \<Rightarrow>
             Some (Inr \<lparr>oo_cached_out = cached_out, oo_committed_in = next_in, oo_next_in = next_in\<rparr>)
       }
   }"

definition maximum_packet_size :: "'m inner_ring \<Rightarrow> nat option" where
  "maximum_packet_size r = nat_sub_ck (unat (ir_size r)) 8"

definition set_pending_send_size :: "'m inner_ring \<Rightarrow> 'm \<Rightarrow> nat \<Rightarrow> ('m \<times> (ring_error + unit)) option" where
  "set_pending_send_size r m len = do {
     max_len \<leftarrow> maximum_packet_size r;
     if len > max_len then Some (m, Inl InvalidMessageLength)
     else do {
       v \<leftarrow> add_ck (of_nat len) 7;
       m \<leftarrow> control_store r m CTL_PENDING_SEND_SIZE (v AND NOT 7);
       Some (m, Inr ())
     }
   }"

definition can_write ::
  "'m inner_ring \<Rightarrow> 'm \<Rightarrow> outgoing_offset \<Rightarrow> nat \<Rightarrow> (outgoing_offset \<times> (ring_error + bool)) option" where
  "can_write r m p len = do {
     free \<leftarrow> inner_free r (oo_next_in p) (oo_cached_out p);
     if unat free \<ge> len then Some (p, Inr True)
     else do {
       outp \<leftarrow> control_load r m CTL_OUTP;
       case validate r outp of
         Inl e \<Rightarrow> Some (p, Inl e)
       | Inr outp \<Rightarrow> do {
           free \<leftarrow> inner_free r (oo_next_in p) outp;
           Some (p\<lparr>oo_cached_out := outp\<rparr>, Inr (unat free \<ge> len))
         }
     }
   }"

definition commit_write :: "'m inner_ring \<Rightarrow> 'm \<Rightarrow> outgoing_offset \<Rightarrow> ('m \<times> outgoing_offset \<times> bool) option" where
  "commit_write r m p =
     (if oo_committed_in p = oo_next_in p then Some (m, p, False)
      else do {
        let inp = oo_next_in p;
        m \<leftarrow> control_store r m CTL_INP inp;
        interrupt_mask \<leftarrow> control_load r m CTL_INTERRUPT_MASK;
        outp \<leftarrow> control_load r m CTL_OUTP;
        let needs_interrupt = (interrupt_mask = 0 \<and> outp = oo_committed_in p);
        Some (m, p\<lparr>oo_committed_in := inp\<rparr>, needs_interrupt)
      })"

text \<open>Packet type, header size and flags of an outgoing packet.\<close>

definition packet_header :: "outgoing_packet_type \<Rightarrow> u16 \<times> nat \<times> u16" where
  "packet_header typ =
     (case typ of
        OutInBandNoCompletion \<Rightarrow> (PACKET_TYPE_IN_BAND, 16, 0)
      | OutInBandWithCompletion \<Rightarrow> (PACKET_TYPE_IN_BAND, 16, PACKET_FLAG_COMPLETION_REQUESTED)
      | OutCompletion \<Rightarrow> (PACKET_TYPE_COMPLETION, 16, 0)
      | OutGpaDirect ranges \<Rightarrow>
          (PACKET_TYPE_GPA_DIRECT, 16 + 8 + fold (\<lambda>range a. a + 8 + length (pr_pages range) * 8) ranges 0,
           PACKET_FLAG_COMPLETION_REQUESTED)
      | OutTransferPages _ ranges \<Rightarrow>
          (PACKET_TYPE_TRANSFER_PAGES, 16 + 8 + length ranges * 8, PACKET_FLAG_COMPLETION_REQUESTED))"

text \<open>One write of the header writer, an error of which becomes \<open>InvalidMessageLength\<close>.\<close>

definition write_or_corrupt ::
  "'m inner_ring \<Rightarrow> 'm \<Rightarrow> ring_cursor \<Rightarrow> u8 list \<Rightarrow> ('m \<times> (write_error + ring_cursor)) option" where
  "write_or_corrupt r m c bs = do {
     (m, c, res) \<leftarrow> writer_write r m c bs;
     case res of
       Inl _ \<Rightarrow> Some (m, Inl (WriteCorrupt InvalidMessageLength))
     | Inr _ \<Rightarrow> Some (m, Inr c)
   }"

fun write_gpa_ranges ::
  "'m inner_ring \<Rightarrow> 'm \<Rightarrow> ring_cursor \<Rightarrow> paged_range list \<Rightarrow> ('m \<times> (write_error + unit)) option" where
  "write_gpa_ranges r m c [] = Some (m, Inr ())"
| "write_gpa_ranges r m c (rng # ranges) = do {
     let gpa_rng = \<lparr>gr_len = of_nat (pr_len rng), gr_offset = of_nat (pr_offset rng)\<rparr>;
     (m, res) \<leftarrow> write_or_corrupt r m c (gpa_range_bytes gpa_rng);
     case res of
       Inl e \<Rightarrow> Some (m, Inl e)
     | Inr c \<Rightarrow> do {
         (m, res) \<leftarrow> write_or_corrupt r m c (gpns_bytes (pr_pages rng));
         case res of
           Inl e \<Rightarrow> Some (m, Inl e)
         | Inr c \<Rightarrow> write_gpa_ranges r m c ranges
       }
   }"

definition write_gpa_direct ::
  "'m inner_ring \<Rightarrow> 'm \<Rightarrow> nat \<Rightarrow> nat \<Rightarrow> paged_range list \<Rightarrow> ('m \<times> (write_error + unit)) option" where
  "write_gpa_direct r m off header_size ranges = do {
     c \<leftarrow> range_writer \<lparr>rg_off = of_nat (off + 16), rg_size = of_nat header_size\<rparr>;
     let gpa_header = \<lparr>gh_reserved = 0, gh_range_count = of_nat (length ranges)\<rparr>;
     (m, res) \<leftarrow> write_or_corrupt r m c (gpa_header_bytes gpa_header);
     case res of
       Inl e \<Rightarrow> Some (m, Inl e)
     | Inr c \<Rightarrow> write_gpa_ranges r m c ranges
   }"

fun write_tp_ranges :: "'m inner_ring \<Rightarrow> 'm \<Rightarrow> nat \<Rightarrow> nat \<Rightarrow> transfer_page_range list \<Rightarrow> 'm option" where
  "write_tp_ranges r m off i [] = Some m"
| "write_tp_ranges r m off i (rng # ranges) = do {
     m \<leftarrow> rm_write_aligned (ir_mem r) m (off + 16 + 8 + i * 8) (tp_range_bytes rng);
     write_tp_ranges r m off (i + 1) ranges
   }"

definition write_transfer_pages ::
  "'m inner_ring \<Rightarrow> 'm \<Rightarrow> nat \<Rightarrow> u16 \<Rightarrow> transfer_page_range list \<Rightarrow> 'm option" where
  "write_transfer_pages r m off tp_id ranges = do {
     let tp_header = \<lparr>th_transfer_page_set_id = tp_id, th_reserved = 0, th_range_count = of_nat (length ranges)\<rparr>;
     m \<leftarrow> rm_write_aligned (ir_mem r) m (off + 16) (tp_header_bytes tp_header);
     write_tp_ranges r m off 0 ranges
   }"

text \<open>The rest of the header, after the descriptor.\<close>

definition write_extension ::
  "'m inner_ring \<Rightarrow> 'm \<Rightarrow> nat \<Rightarrow> nat \<Rightarrow> outgoing_packet_type \<Rightarrow> ('m \<times> (write_error + unit)) option" where
  "write_extension r m off header_size typ =
     (case typ of
        OutGpaDirect ranges \<Rightarrow> write_gpa_direct r m off header_size ranges
      | OutTransferPages tp_id ranges \<Rightarrow> do {
          m \<leftarrow> write_transfer_pages r m off tp_id ranges;
          Some (m, Inr ())
        }
      | _ \<Rightarrow> Some (m, Inr ()))"

text \<open>The check for space: the pointer to cache, or the error.\<close>

definition find_space ::
  "'m inner_ring \<Rightarrow> 'm \<Rightarrow> outgoing_offset \<Rightarrow> u32 \<Rightarrow> (write_error + u32) option" where
  "find_space r m p total_msg_len = do {
     free \<leftarrow> inner_free r (oo_next_in p) (oo_cached_out p);
     if free < total_msg_len then do {
       outp \<leftarrow> control_load r m CTL_OUTP;
       case validate r outp of
         Inl e \<Rightarrow> Some (Inl (WriteCorrupt e))
       | Inr outp \<Rightarrow> do {
           free \<leftarrow> inner_free r (oo_next_in p) outp;
           Some (if free < total_msg_len then Inl (WriteFull (unat total_msg_len)) else Inr outp)
         }
     } else Some (Inr (oo_cached_out p))
   }"

definition write_packet ::
  "'m inner_ring \<Rightarrow> 'm \<Rightarrow> outgoing_offset \<Rightarrow> outgoing_packet \<Rightarrow>
   ('m \<times> outgoing_offset \<times> (write_error + ring_range)) option" where
  "write_packet r m p packet = do {
     let (packet_type, header_size, flags) = packet_header (op_typ packet);
     total \<leftarrow> nat_add_ck (op_size packet) header_size;
     let msg_len = div_ceil total 8 * 8;
     assert_that (msg_len < 2 ^ 64);
     total_msg_len \<leftarrow> map_option of_nat (nat_add_ck msg_len 8);
     max_len \<leftarrow> sub_ck (ir_size r) 8;
     if (total_msg_len :: u32) \<ge> max_len then Some (m, p, Inl (WriteCorrupt InvalidMessageLength))
     else do {
       let inp = oo_next_in p;
       space \<leftarrow> find_space r m p total_msg_len;
       case space of
         Inl e \<Rightarrow> Some (m, p, Inl e)
       | Inr outp \<Rightarrow> do {
           let p = p\<lparr>oo_cached_out := outp\<rparr>;
           let desc = \<lparr>pd_packet_type = packet_type, pd_data_offset8 = of_nat header_size div 8,
                       pd_length8 = of_nat (msg_len div 8), pd_flags = flags,
                       pd_transaction_id = op_transaction_id packet\<rparr>;
           let footer = \<lparr>ft_reserved = 0, ft_offset = inp\<rparr>;
           let off = unat inp;
           m \<leftarrow> rm_write_aligned (ir_mem r) m off (desc_bytes desc);
           (m, res) \<leftarrow> write_extension r m off header_size (op_typ packet);
           case res of
             Inl e \<Rightarrow> Some (m, p, Inl e)
           | Inr _ \<Rightarrow> do {
               m \<leftarrow> rm_write_aligned (ir_mem r) m (off + msg_len) (footer_bytes footer);
               next_in \<leftarrow> add_pointer r inp total_msg_len;
               payload_off \<leftarrow> add_ck inp (of_nat header_size);
               Some (m, p\<lparr>oo_next_in := next_in\<rparr>, Inr \<lparr>rg_off = payload_off, rg_size = of_nat (op_size packet)\<rparr>)
             }
         }
     }
   }"

subsection \<open>Ring pointers\<close>

text \<open>\<open>ring_for ops n r\<close>: the ring \<open>r\<close> over memory with \<open>n\<close> data bytes, less than 2 GiB of them.
  A valid pointer is a multiple of 8 below \<open>n\<close>.\<close>

definition ring_for :: "'m ring_mem_ops \<Rightarrow> nat \<Rightarrow> 'm inner_ring \<Rightarrow> bool" where
  "ring_for ops n r \<longleftrightarrow> ir_mem r = ops \<and> unat (ir_size r) = n \<and> n mod 8 = 0 \<and> 0 < n \<and> n < 2 ^ 31"

definition valid_ptr :: "nat \<Rightarrow> u32 \<Rightarrow> bool" where
  "valid_ptr n p \<longleftrightarrow> unat p < n \<and> unat p mod 8 = 0"

lemma word_mod8: "p mod 8 = 0 \<longleftrightarrow> unat p mod 8 = 0" for p :: u32
  by (simp add: word_unat_eq_iff unat_mod)

lemma validate_iff:
  "ring_for ops n r \<Longrightarrow> validate r p = (if valid_ptr n p then Inr p else Inl InvalidRingPointer)"
  by (auto simp: validate_def valid_ptr_def ring_for_def word_mod8 word_le_nat_alt)

lemma add_ck_nat:
  fixes a b :: "'a::len word"
  assumes "unat a + unat b < 2 ^ LENGTH('a)"
  shows "add_ck a b = Some (a + b)" "unat (a + b) = unat a + unat b"
  using assms by (simp_all add: add_ck_def unat_word_ariths)

lemma sub_ck_nat:
  assumes "unat b \<le> unat a"
  shows "sub_ck a b = Some (a - b)" "unat (a - b) = unat a - unat b"
  using assms by (simp_all add: sub_ck_def word_le_nat_alt unat_sub)

lemma mul_ck_nat:
  fixes a b :: "'a::len word"
  assumes "unat a * unat b < 2 ^ LENGTH('a)"
  shows "mul_ck a b = Some (a * b)" "unat (a * b) = unat a * unat b"
  using assms by (simp_all add: mul_ck_def unat_word_ariths)

text \<open>The bytes between two pointers, and the free space of a ring.\<close>

definition ring_used :: "nat \<Rightarrow> u32 \<Rightarrow> u32 \<Rightarrow> nat" where
  "ring_used n inp outp = (unat inp + (n - unat outp)) mod n"

lemma ring_used_alt:
  assumes "valid_ptr n inp" "valid_ptr n outp"
  shows "ring_used n inp outp = (if outp \<le> inp then unat inp - unat outp else n + unat inp - unat outp)"
  using assms by (auto simp: ring_used_def valid_ptr_def word_le_nat_alt le_mod_geq mod_less_eq_dividend)

lemma available_ok:
  assumes r: "ring_for ops n r" and "valid_ptr n inp" "valid_ptr n outp" "inp \<noteq> outp"
  obtains a where "available r inp outp = Some a" "unat a = ring_used n inp outp"
proof (cases "outp < inp")
  case True
  then show thesis
    using that[of "inp - outp"] assms(2,3)
    by (simp add: available_def sub_ck_def ring_used_alt less_imp_le unat_sub)
next
  case False
  have "unat (ir_size r) + unat inp < 2 ^ LENGTH(32)" using assms(1,2) by (simp add: ring_for_def valid_ptr_def)
  note e = add_ck_nat[OF this]
  have "unat outp \<le> unat (ir_size r + inp)" using e(2) assms(1,3) by (simp add: ring_for_def valid_ptr_def)
  note d = sub_ck_nat[OF this]
  show thesis
    using that[of "ir_size r + inp - outp"] False e d r assms(2-4) ring_used_alt[OF assms(2,3)]
    by (auto simp: available_def ring_for_def not_less le_less)
qed

lemma ring_free_ok:
  assumes r: "ring_for ops n r" and "valid_ptr n inp" "valid_ptr n outp"
  obtains f where "inner_free r inp outp = Some f" "unat f = n - 8 - ring_used n inp outp" "ring_used n inp outp \<le> n - 8"
proof (cases "inp < outp")
  case True
  then have lt: "unat inp < unat outp" by (simp add: word_less_nat_alt)
  have "unat outp - unat inp \<ge> 8"
  proof -
    have "(unat outp - unat inp) mod 8 = 0" using assms(2,3) lt by (auto simp: valid_ptr_def mod_eq_0_iff_dvd dvd_diff_nat)
    then show ?thesis using lt by (cases "unat outp - unat inp < 8") auto
  qed
  moreover have "unat (outp - inp) = unat outp - unat inp" using lt by (simp add: unat_sub word_le_nat_alt)
  ultimately have "unat (8 :: u32) \<le> unat (outp - inp)" by simp
  note d = sub_ck_nat[OF this]
  have used: "ring_used n inp outp = n + unat inp - unat outp"
    using ring_used_alt[OF assms(2,3)] True by (simp add: not_le)
  have "unat outp < n" using assms(3) by (simp add: valid_ptr_def)
  then show thesis
    using that[of "outp - inp - 8"] True d lt used \<open>unat outp - unat inp \<ge> 8\<close>
      \<open>unat (outp - inp) = unat outp - unat inp\<close>
    by (simp add: inner_free_def ring_free_def sub_ck_def[of outp] less_imp_le)
next
  case False
  then have le: "unat outp \<le> unat inp" by (simp add: word_less_nat_alt)
  note d1 = sub_ck_nat[OF le]
  have n: "unat (ir_size r) = n" using r by (simp add: ring_for_def)
  have gap: "unat inp - unat outp \<le> n - 8"
  proof -
    have "n mod 8 = 0" "unat inp mod 8 = 0" "unat inp < n" using r assms(2) by (auto simp: ring_for_def valid_ptr_def)
    then have "unat inp + 8 \<le> n" by presburger
    then show ?thesis by simp
  qed
  have n8: "8 \<le> n" using r by (cases "n < 8") (auto simp: ring_for_def)
  have "unat (inp - outp) \<le> unat (ir_size r)" using d1(2) gap n by simp
  note d2 = sub_ck_nat[OF this]
  have "unat (8 :: u32) \<le> unat (ir_size r - (inp - outp))" using d1(2) d2(2) gap n n8 by simp
  note d3 = sub_ck_nat[OF this]
  have "unat (8 :: u32) = 8" by simp
  then have "unat (ir_size r - (inp - outp) - 8) = n - 8 - (unat inp - unat outp)"
    using d1(2) d2(2) d3(2) n by linarith
  then show thesis
    using that[of "ir_size r - (inp - outp) - 8"] False d1(1) d2(1) d3(1) gap ring_used_alt[OF assms(2,3)]
    by (simp add: inner_free_def ring_free_def not_less)
qed

lemma add_pointer_ok:
  assumes r: "ring_for ops n r" and p: "valid_ptr n p" and off: "unat off mod 8 = 0" "unat off \<le> n"
  obtains q where "add_pointer r p off = Some q" "unat q = (unat p + unat off) mod n" "valid_ptr n q"
proof -
  have n: "unat (ir_size r) = n" "n < 2 ^ 31" "0 < n" "n mod 8 = 0" using r by (auto simp: ring_for_def)
  have "unat p + unat off < 2 ^ LENGTH(32)" using p off(2) n(2) by (simp add: valid_ptr_def)
  note a = add_ck_nat[OF this]
  have "unat (ir_size r) * unat (2 :: u32) < 2 ^ LENGTH(32)" using n by simp
  note s2 = mul_ck_nat[OF this]
  have lt: "unat (p + off) < 2 * n" using a(2) p off(2) by (simp add: valid_ptr_def)
  have m8: "(unat p + unat off) mod 8 = 0" using p off(1) by (auto simp: valid_ptr_def mod_eq_0_iff_dvd)
  show thesis
  proof (cases "n \<le> unat (p + off)")
    case True
    then have "unat (ir_size r) \<le> unat (p + off)" using n by simp
    note d = sub_ck_nat[OF this]
    have q: "unat (p + off - ir_size r) = (unat p + unat off) mod n"
      using d(2) a(2) n(1) True lt by (simp add: le_mod_geq)
    have "unat p + unat off - n < n" "(unat p + unat off - n) mod 8 = 0"
      using lt True a(2) m8 n(4) by (auto simp: mod_eq_0_iff_dvd dvd_diff_nat)
    then have "valid_ptr n (p + off - ir_size r)" using d(2) a(2) n(1) by (simp add: valid_ptr_def)
    then show thesis
      using that[of "p + off - ir_size r"] True a(1) s2 d(1) q lt n(1)
      by (simp add: add_pointer_def word_le_nat_alt word_less_nat_alt)
  next
    case False
    then show thesis
      using that[of "p + off"] a n(1) m8 by (simp add: add_pointer_def word_le_nat_alt valid_ptr_def)
  qed
qed

lemma packet_range_ok:
  assumes "unat ring_off + 8 * unat to8 < 2 ^ 32" "from8 \<le> to8"
  obtains g where "packet_range ring_off from8 to8 = Some g" "unat (rg_off g) = unat ring_off + 8 * unat from8"
    "unat (rg_size g) = 8 * (unat to8 - unat from8)"
proof -
  have le: "unat from8 \<le> unat to8" using assms(2) by (simp add: word_le_nat_alt)
  have u: "unat (ucast w :: u32) = unat w" for w :: u16 by (simp add: unat_ucast_up)
  have "unat (ucast from8 :: u32) * unat (8 :: u32) < 2 ^ LENGTH(32)" using assms(1) le u by simp
  note f = mul_ck_nat[OF this]
  have "unat ring_off + unat (ucast from8 * (8 :: u32)) < 2 ^ LENGTH(32)" using f(2) assms(1) le u by simp
  note off = add_ck_nat[OF this]
  note d = sub_ck_nat[OF le]
  have "unat (ucast (to8 - from8) :: u32) * unat (8 :: u32) < 2 ^ LENGTH(32)" using assms(1) u d(2) by simp
  note sz = mul_ck_nat[OF this]
  show thesis
    using that[of "\<lparr>rg_off = ring_off + ucast from8 * 8, rg_size = ucast (to8 - from8) * 8\<rparr>"] f off d sz u
    by (simp add: packet_range_def)
qed

subsection \<open>Reading untrusted memory\<close>

text \<open>\<open>packet_within lo hi pkt\<close>: the ranges of the packet lie between the positions \<open>lo\<close> and \<open>hi\<close>,
  and a GPA-direct packet announces at least one range.\<close>

definition range_within :: "nat \<Rightarrow> nat \<Rightarrow> ring_range \<Rightarrow> bool" where
  "range_within lo hi g \<longleftrightarrow> lo \<le> unat (rg_off g) \<and> unat (rg_off g) + unat (rg_size g) \<le> hi"

definition packet_within :: "nat \<Rightarrow> nat \<Rightarrow> incoming_packet \<Rightarrow> bool" where
  "packet_within lo hi pkt \<longleftrightarrow> range_within lo hi (ip_payload pkt) \<and>
     (case ip_typ pkt of
        GpaDirect count g \<Rightarrow> count \<noteq> 0 \<and> range_within lo hi g
      | TransferPages _ _ g \<Rightarrow> range_within lo hi g
      | _ \<Rightarrow> True)"

text \<open>Reading a whole range through its reader; a packet read together with its bytes.\<close>

definition read_range :: "'m inner_ring \<Rightarrow> 'm \<Rightarrow> ring_range \<Rightarrow> u8 list option" where
  "read_range r m g = do {
     c \<leftarrow> range_reader g;
     (c, res) \<leftarrow> reader_read r m c (ring_range_len g);
     ok_value res
   }"

definition receive ::
  "'m inner_ring \<Rightarrow> 'm \<Rightarrow> incoming_offset \<Rightarrow>
   (incoming_offset \<times> (read_error + incoming_packet \<times> u8 list \<times> u8 list)) option" where
  "receive r m p = do {
     (p, res) \<leftarrow> read_packet r m p;
     case res of
       Inl e \<Rightarrow> Some (p, Inl e)
     | Inr pkt \<Rightarrow> do {
         ext \<leftarrow> (case ip_typ pkt of
                  GpaDirect _ g \<Rightarrow> read_range r m g
                | TransferPages _ _ g \<Rightarrow> read_range r m g
                | _ \<Rightarrow> Some []);
         payload \<leftarrow> read_range r m (ip_payload pkt);
         Some (p, Inr (pkt, ext, payload))
       }
   }"

definition incoming_ok :: "nat \<Rightarrow> incoming_offset \<Rightarrow> bool" where
  "incoming_ok n p \<longleftrightarrow> valid_ptr n (io_cached_in p) \<and> valid_ptr n (io_committed_out p) \<and> valid_ptr n (io_next_out p)"

context ring_mem
begin

lemma load_ok: "ring_for ops n r \<Longrightarrow> wf m \<Longrightarrow> i < 32 \<Longrightarrow> control_load r m i = Some (ctl m ! i)"
  by (simp add: control_load_def ring_for_def mem_control mem_control_len)

lemma store_ok:
  assumes "ring_for ops n r" "wf m" "i < 32"
  obtains m' where "control_store r m i v = Some m'" "wf m'" "dat m' = dat m" "ctl m' = (ctl m)[i := v]"
  using assms mem_store[of m i v] by (auto simp: control_store_def ring_for_def)

lemma read_range_ok:
  assumes r: "ring_for ops n r" and m: "wf m" "length (dat m) = n" and g: "range_within lo hi g" "hi \<le> 2 * n"
  shows "read_range r m g = Some (ring_get (dat m) (unat (rg_off g)) (unat (rg_size g)))"
proof -
  have le: "unat (rg_off g) + unat (rg_size g) \<le> 2 * n" using g by (simp add: range_within_def)
  then have "unat (rg_off g) + unat (rg_size g) < 2 ^ LENGTH(32)" using r by (simp add: ring_for_def)
  note e = add_ck_nat[OF this]
  have "cursor_len \<lparr>rc_start = rg_off g, rc_end = rg_off g + rg_size g\<rparr> = Some (unat (rg_size g))"
    using sub_ck_nat[of "rg_off g" "rg_off g + rg_size g"] e(2) by (simp add: cursor_len_def)
  moreover have "rm_read_at (ir_mem r) m (unat (rg_off g)) (unat (rg_size g)) =
      Some (ring_get (dat m) (unat (rg_off g)) (unat (rg_size g)))"
    using mem_read_at[OF m(1), of "unat (rg_off g)" "unat (rg_size g)"] le m(2) r by (simp add: ring_for_def)
  ultimately show ?thesis
    using e(1) by (simp add: read_range_def range_reader_def reader_read_def ring_range_len_def)
qed

lemma parse_extension_ok:
  assumes m: "wf m" "length (dat m) = n" and off: "valid_ptr n ring_off" "n < 2 ^ 31"
    and d: "3 \<le> pd_data_offset8 d \<longrightarrow> 8 * unat (pd_data_offset8 d) \<le> n"
  shows "(\<exists>res. parse_transfer_pages ops m ring_off d = Some res \<and>
      (\<forall>t. res = Inr t \<longrightarrow> (\<exists>i c g. t = TransferPages i c g \<and>
        range_within (unat ring_off) (unat ring_off + 8 * unat (pd_data_offset8 d)) g))) \<and>
    (\<exists>res. parse_gpa_direct ops m ring_off d = Some res \<and>
      (\<forall>t. res = Inr t \<longrightarrow> (\<exists>c g. t = GpaDirect c g \<and> c \<noteq> 0 \<and>
        range_within (unat ring_off) (unat ring_off + 8 * unat (pd_data_offset8 d)) g)))"
proof (cases "pd_data_offset8 d < 3")
  case True
  then show ?thesis
    by (simp add: parse_transfer_pages_def parse_gpa_direct_def TRANSFER_PAGE_HEADER_SIZE8_def
        GPA_DIRECT_HEADER_SIZE8_def DESCRIPTOR_SIZE8_def)
next
  case False
  then have ge: "3 \<le> pd_data_offset8 d" "3 \<le> unat (pd_data_offset8 d)" by (simp_all add: word_le_nat_alt not_less)
  with d have le: "8 * unat (pd_data_offset8 d) \<le> n" by simp
  have o: "unat ring_off < n" "unat ring_off mod 8 = 0" using off by (simp_all add: valid_ptr_def)
  have rd: "rm_read_aligned ops m (unat ring_off + 16) 8 = Some (ring_get (dat m) (unat ring_off + 16) 8)"
    using o le ge(2) m by (intro mem_read_aligned) auto
  have "unat ring_off + 8 * unat (pd_data_offset8 d) < 2 ^ 32" using o le off(2) by simp
  from packet_range_ok[OF this ge(1)] obtain g where g: "packet_range ring_off 3 (pd_data_offset8 d) = Some g"
      "unat (rg_off g) = unat ring_off + 8 * unat (3 :: u16)" "unat (rg_size g) = 8 * (unat (pd_data_offset8 d) - unat (3 :: u16))" .
  have w: "range_within (unat ring_off) (unat ring_off + 8 * unat (pd_data_offset8 d)) g"
    using g(2,3) ge(2) by (simp add: range_within_def)
  show ?thesis
    using False rd g(1) w
    by (simp add: parse_transfer_pages_def parse_gpa_direct_def TRANSFER_PAGE_HEADER_SIZE8_def
        GPA_DIRECT_HEADER_SIZE8_def DESCRIPTOR_SIZE8_def Let_def)
qed

end

lemma range_within_mono: "range_within lo hi g \<Longrightarrow> hi \<le> hi' \<Longrightarrow> range_within lo hi' g"
  by (simp add: range_within_def)

context ring_mem
begin

lemma parse_packet_ok:
  assumes m: "wf m" "length (dat m) = n" and off: "valid_ptr n ring_off" "n < 2 ^ 31" "n mod 8 = 0"
    and avail: "unat avail \<le> n"
  shows "\<exists>res. parse_packet ops m ring_off avail = Some res \<and>
    (\<forall>len pkt. res = Inr (len, pkt) \<longrightarrow> 16 \<le> unat len \<and> unat len \<le> unat avail \<and> unat len mod 8 = 0 \<and>
      packet_within (unat ring_off) (unat ring_off + unat len) pkt)"
proof -
  define d where "d = desc_of_bytes (ring_get (dat m) (unat ring_off) 16)"
  have o: "unat ring_off < n" "unat ring_off mod 8 = 0" using off by (simp_all add: valid_ptr_def)
  then have "unat ring_off + 8 \<le> n" using off(3) by presburger
  then have rd: "rm_read_aligned ops m (unat ring_off) 16 = Some (ring_get (dat m) (unat ring_off) 16)"
    using o m by (intro mem_read_aligned) auto
  define l where "l = (ucast (pd_length8 d) * 8 :: u32)"
  have "unat (pd_length8 d) < 2 ^ 16" using unsigned_less[of "pd_length8 d"] by simp
  then have "unat (ucast (pd_length8 d) :: u32) * unat (8 :: u32) < 2 ^ LENGTH(32)" by (simp add: unat_ucast_up)
  note len = mul_ck_nat[OF this, folded l_def]
  have ul: "unat l = 8 * unat (pd_length8 d)" using len(2) by (simp add: unat_ucast_up)
  show ?thesis
  proof (cases "pd_length8 d < pd_data_offset8 d \<or> pd_data_offset8 d < 2 \<or> avail < l \<or>
      pd_flags d AND NOT PACKET_FLAG_COMPLETION_REQUESTED \<noteq> 0")
    case True
    then show ?thesis
      by (auto simp: parse_packet_def rd Let_def DESCRIPTOR_SIZE8_def len(1) simp flip: d_def)
  next
    case False
    then have le: "unat (pd_data_offset8 d) \<le> unat (pd_length8 d)" "2 \<le> unat (pd_data_offset8 d)" "unat l \<le> unat avail"
      by (simp_all add: word_le_nat_alt not_less)
    then have fits: "8 * unat (pd_data_offset8 d) \<le> n" "unat ring_off + 8 * unat (pd_length8 d) < 2 ^ 32"
      using ul avail o off(2) by simp_all
    note ext = parse_extension_ok[OF m off(1,2), of d]
    have doff: "pd_data_offset8 d \<le> pd_length8 d" using False by (simp add: not_less)
    from packet_range_ok[OF fits(2) this] obtain g where
      g: "packet_range ring_off (pd_data_offset8 d) (pd_length8 d) = Some g" and
      gv: "unat (rg_off g) = unat ring_off + 8 * unat (pd_data_offset8 d)"
      "unat (rg_size g) = 8 * (unat (pd_length8 d) - unat (pd_data_offset8 d))" .
    have gw: "range_within (unat ring_off) (unat ring_off + unat l) g"
      using gv le(1) ul by (simp add: range_within_def)
    have mono: "range_within (unat ring_off) (unat ring_off + unat l) h"
      if "range_within (unat ring_off) (unat ring_off + 8 * unat (pd_data_offset8 d)) h" for h
      using that le(1) ul by (auto intro: range_within_mono)
    have facts: "16 \<le> unat l" "unat l mod 8 = 0" using ul le by simp_all
    obtain tp gd where tp: "parse_transfer_pages ops m ring_off d = Some tp"
        "\<forall>t. tp = Inr t \<longrightarrow> (\<exists>i c h. t = TransferPages i c h \<and> range_within (unat ring_off) (unat ring_off + unat l) h)"
      and gd: "parse_gpa_direct ops m ring_off d = Some gd"
        "\<forall>t. gd = Inr t \<longrightarrow> (\<exists>c h. t = GpaDirect c h \<and> c \<noteq> 0 \<and> range_within (unat ring_off) (unat ring_off + unat l) h)"
      using ext fits(1) mono by meson
    show ?thesis
      using False le(3) facts gw g tp gd
      by (auto simp: parse_packet_def rd Let_def DESCRIPTOR_SIZE8_def len(1) packet_within_def
          split: sum.splits simp flip: d_def)
  qed
qed

lemma read_next_ok:
  assumes r: "ring_for ops n r" and m: "wf m" "length (dat m) = n" and p: "incoming_ok n p"
    and inp: "valid_ptr n inp" "inp \<noteq> io_next_out p"
  shows "\<exists>p' res. read_next r m p inp = Some (p', res) \<and> incoming_ok n p' \<and>
    (\<forall>pkt. res = Inr pkt \<longrightarrow> packet_within (unat (io_next_out p)) (2 * n) pkt)"
proof -
  have n: "n < 2 ^ 31" "n mod 8 = 0" and ops: "ir_mem r = ops" using r by (auto simp: ring_for_def)
  have out: "valid_ptr n (io_next_out p)" using p by (auto simp: incoming_ok_def)
  obtain a where a: "available r inp (io_next_out p) = Some a" "unat a = ring_used n inp (io_next_out p)"
    using available_ok[OF r inp(1) out inp(2)] .
  have used: "ring_used n inp (io_next_out p) \<le> n - 8" using ring_free_ok[OF r inp(1) out] by blast
  then have "unat a \<le> n" using a(2) by simp
  from parse_packet_ok[OF m out n this] obtain parsed where
    parsed: "parse_packet ops m (io_next_out p) a = Some parsed" and
    ok: "\<forall>len pkt. parsed = Inr (len, pkt) \<longrightarrow> 16 \<le> unat len \<and> unat len \<le> unat a \<and> unat len mod 8 = 0 \<and>
      packet_within (unat (io_next_out p)) (unat (io_next_out p) + unat len) pkt" by blast
  have okp: "incoming_ok n (p\<lparr>io_cached_in := inp\<rparr>)" using p inp(1) by (simp add: incoming_ok_def)
  show ?thesis
  proof (cases parsed)
    case (Inl e)
    then show ?thesis using a(1) parsed okp ops by (simp add: read_next_def Let_def)
  next
    case (Inr q)
    then obtain len pkt where q: "parsed = Inr (len, pkt)" by (cases q) auto
    with ok have l: "16 \<le> unat len" "unat len \<le> unat a" "unat len mod 8 = 0"
      "packet_within (unat (io_next_out p)) (unat (io_next_out p) + unat len) pkt" by auto
    have "unat len + 8 \<le> n" using l(1,2) a(2) used by simp
    moreover from this have "unat len + unat (8 :: u32) < 2 ^ LENGTH(32)" using n(1) by simp
    note t = add_ck_nat[OF this]
    ultimately have tt: "unat (len + 8) mod 8 = 0" "unat (len + 8) \<le> n" using l(3) by auto
    obtain nx where nx: "add_pointer r (io_next_out p) (len + 8) = Some nx" "valid_ptr n nx"
      using add_pointer_ok[OF r out tt] by blast
    have "unat (io_next_out p) + unat len \<le> 2 * n" using out l(2) \<open>unat a \<le> n\<close> by (simp add: valid_ptr_def)
    then have "packet_within (unat (io_next_out p)) (2 * n) pkt"
      using l(4) by (auto simp: packet_within_def intro: range_within_mono split: incoming_packet_type.splits)
    then show ?thesis using a(1) parsed q okp ops t(1) nx by (auto simp: read_next_def Let_def incoming_ok_def)
  qed
qed

lemma read_packet_ok:
  assumes r: "ring_for ops n r" and m: "wf m" "length (dat m) = n" and p: "incoming_ok n p"
  shows "\<exists>p' res. read_packet r m p = Some (p', res) \<and> incoming_ok n p' \<and>
    (\<forall>pkt. res = Inr pkt \<longrightarrow> packet_within (unat (io_next_out p)) (2 * n) pkt)"
proof -
  have load: "control_load r m CTL_INP = Some (ctl m ! CTL_INP)"
    using load_ok[OF r m(1)] by (simp add: CTL_INP_def)
  have cached: "valid_ptr n (io_cached_in p)" using p by (simp add: incoming_ok_def)
  consider "io_cached_in p \<noteq> io_next_out p"
    | "io_cached_in p = io_next_out p" "valid_ptr n (ctl m ! CTL_INP) \<and> ctl m ! CTL_INP \<noteq> io_next_out p"
    | "io_cached_in p = io_next_out p" "\<not> (valid_ptr n (ctl m ! CTL_INP) \<and> ctl m ! CTL_INP \<noteq> io_next_out p)"
    by blast
  then show ?thesis
  proof cases
    case 1
    then show ?thesis using read_next_ok[OF r m p cached] by (simp add: read_packet_def)
  next
    case 2
    then show ?thesis
      using read_next_ok[OF r m p, of "ctl m ! CTL_INP"] load by (simp add: read_packet_def validate_iff[OF r])
  next
    case 3
    then show ?thesis using load p by (auto simp: read_packet_def validate_iff[OF r])
  qed
qed

lemma receive_ok:
  assumes r: "ring_for ops n r" and m: "wf m" "length (dat m) = n" and p: "incoming_ok n p"
  shows "\<exists>p' res. receive r m p = Some (p', res) \<and> incoming_ok n p'"
proof -
  from read_packet_ok[OF assms] obtain p' res where rd: "read_packet r m p = Some (p', res)" "incoming_ok n p'"
    and w: "\<forall>pkt. res = Inr pkt \<longrightarrow> packet_within (unat (io_next_out p)) (2 * n) pkt" by blast
  show ?thesis
  proof (cases res)
    case (Inl e)
    then show ?thesis using rd by (simp add: receive_def)
  next
    case (Inr pkt)
    with w have w: "packet_within (unat (io_next_out p)) (2 * n) pkt" by simp
    note rr = read_range_ok[OF r m, of "unat (io_next_out p)" "2 * n"]
    from w have "\<exists>ext. (case ip_typ pkt of GpaDirect _ g \<Rightarrow> read_range r m g | TransferPages _ _ g \<Rightarrow> read_range r m g
        | _ \<Rightarrow> Some []) = Some ext"
      by (cases "ip_typ pkt") (auto simp: packet_within_def rr)
    then show ?thesis using rd Inr w by (auto simp: receive_def packet_within_def rr)
  qed
qed

lemma commit_read_ok:
  assumes r: "ring_for ops n r" and m: "wf m" "length (dat m) = n" and p: "incoming_ok n p"
  shows "\<exists>m' p' s. commit_read r m p = Some (m', p', s) \<and> wf m' \<and> dat m' = dat m \<and> incoming_ok n p'"
proof (cases "io_committed_out p = io_next_out p")
  case True
  then show ?thesis using m(1) p by (auto simp: commit_read_def)
next
  case False
  obtain m' where st: "control_store r m CTL_OUTP (io_next_out p) = Some m'" "wf m'" "dat m' = dat m"
    using store_ok[OF r m(1), of CTL_OUTP "io_next_out p"] by (auto simp: CTL_OUTP_def)
  have ld: "control_load r m' CTL_PENDING_SEND_SIZE = Some (ctl m' ! CTL_PENDING_SEND_SIZE)"
    "control_load r m' CTL_INP = Some (ctl m' ! CTL_INP)"
    using load_ok[OF r st(2)] by (simp_all add: CTL_PENDING_SEND_SIZE_def CTL_INP_def)
  have fr: "\<exists>f. inner_free r inp out = Some f" if "valid_ptr n inp" "valid_ptr n out" for inp out
    using ring_free_ok[OF r that] by blast
  let ?inp = "ctl m' ! CTL_INP" and ?q = "p\<lparr>io_committed_out := io_next_out p\<rparr>"
  have ok: "incoming_ok n ?q" "valid_ptr n (io_committed_out p)" "valid_ptr n (io_next_out p)"
    using p by (simp_all add: incoming_ok_def)
  have "\<exists>s. commit_read r m p = Some (m', ?q, s)"
  proof (cases "valid_ptr n ?inp")
    case True
    from fr[OF True ok(2)] fr[OF True ok(3)] obtain f f' where
      "inner_free r ?inp (io_committed_out p) = Some f" "inner_free r ?inp (io_next_out p) = Some f'" by blast
    then show ?thesis using False st(1) ld True by (auto simp: commit_read_def Let_def validate_iff[OF r])
  next
    case inv: False
    then show ?thesis using False st(1) ld by (auto simp: commit_read_def Let_def validate_iff[OF r])
  qed
  then show ?thesis using st(2,3) ok(1) by blast
qed

lemma can_read_ok:
  assumes r: "ring_for ops n r" and m: "wf m" and p: "incoming_ok n p"
  shows "\<exists>p' res. can_read r m p = Some (p', res) \<and> incoming_ok n p'"
  using load_ok[OF r m, of CTL_INP] p
  by (auto simp: can_read_def validate_iff[OF r] incoming_ok_def CTL_INP_def)

end

subsection \<open>An incoming ring over guest pages\<close>

text \<open>The host uses the ring while the guest, at any time, writes anything to its pages.\<close>

datatype guest_event =
    GuestWrites "u64 \<Rightarrow> u8 list"
  | HostReceive
  | HostCanRead
  | HostCommitRead
  | HostRevertRead
  | HostSetMask bool

fun guest_allowed :: "guest_event \<Rightarrow> bool" where
  "guest_allowed (GuestWrites store) \<longleftrightarrow> (\<forall>g. length (store g) = GUEST_PAGE_SIZE)"
| "guest_allowed _ \<longleftrightarrow> True"

fun incoming_step ::
  "paged_ring inner_ring \<Rightarrow> paged_ring \<times> incoming_offset \<Rightarrow> guest_event \<Rightarrow> (paged_ring \<times> incoming_offset) option" where
  "incoming_step r (m, p) (GuestWrites store) = Some (m\<lparr>pg_store := store\<rparr>, p)"
| "incoming_step r (m, p) HostReceive = map_option (\<lambda>(p, _). (m, p)) (receive r m p)"
| "incoming_step r (m, p) HostCanRead = map_option (\<lambda>(p, _). (m, p)) (can_read r m p)"
| "incoming_step r (m, p) HostCommitRead = map_option (\<lambda>(m, p, _). (m, p)) (commit_read r m p)"
| "incoming_step r (m, p) HostRevertRead = Some (m, incoming_revert p)"
| "incoming_step r (m, p) (HostSetMask b) = map_option (\<lambda>m. (m, p)) (set_interrupt_mask r m b)"

definition incoming_inv :: "paged_ring inner_ring \<Rightarrow> paged_ring \<times> incoming_offset \<Rightarrow> bool" where
  "incoming_inv r s \<longleftrightarrow> ring_for paged_ops (length (paged_bytes (fst s))) r \<and> paged_wf (fst s) \<and>
     incoming_ok (length (paged_bytes (fst s))) (snd s)"

lemma guest_writes_wf:
  assumes "paged_wf m" "\<forall>g. length (store g) = GUEST_PAGE_SIZE"
  shows "paged_wf (m\<lparr>pg_store := store\<rparr>)" "length (paged_bytes (m\<lparr>pg_store := store\<rparr>)) = length (paged_bytes m)"
proof -
  have g: "data_gpns (m\<lparr>pg_store := store\<rparr>) = data_gpns m" by (simp add: data_gpns_def)
  show wf: "paged_wf (m\<lparr>pg_store := store\<rparr>)" using assms by (simp add: paged_wf_def g)
  show "length (paged_bytes (m\<lparr>pg_store := store\<rparr>)) = length (paged_bytes m)"
    using length_paged_bytes[OF wf] length_paged_bytes[OF assms(1)] g by simp
qed

interpretation incoming: invariant_machine "incoming_step r" guest_allowed "incoming_inv r" for r
proof
  fix s e assume inv: "incoming_inv r s" and ok: "guest_allowed e"
  obtain m p where s: "s = (m, p)" by fastforce
  let ?n = "length (paged_bytes m)"
  have r: "ring_for paged_ops ?n r" and m: "paged_wf m" and p: "incoming_ok ?n p"
    using inv by (simp_all add: incoming_inv_def s)
  show "\<exists>t. incoming_step r s e = Some t \<and> incoming_inv r t"
  proof (cases e)
    case (GuestWrites store)
    then show ?thesis using guest_writes_wf[OF m] ok r p by (simp add: s incoming_inv_def)
  next
    case HostReceive
    then show ?thesis using paged.receive_ok[OF r m refl p] r m by (auto simp: s incoming_inv_def)
  next
    case HostCanRead
    then show ?thesis using paged.can_read_ok[OF r m p] r m by (auto simp: s incoming_inv_def)
  next
    case HostCommitRead
    obtain m' p' b where c: "commit_read r m p = Some (m', p', b)" "paged_wf m'" "paged_bytes m' = paged_bytes m"
      "incoming_ok ?n p'" using paged.commit_read_ok[OF r m refl p] by blast
    then show ?thesis using HostCommitRead r by (simp add: s incoming_inv_def)
  next
    case HostRevertRead
    then show ?thesis using r m p by (simp add: s incoming_inv_def incoming_revert_def incoming_ok_def)
  next
    case (HostSetMask b)
    obtain m' where "set_interrupt_mask r m b = Some m'" "paged_wf m'" "paged_bytes m' = paged_bytes m"
      using paged.store_ok[OF r m, of CTL_INTERRUPT_MASK "if b then 1 else 0"]
      by (auto simp: set_interrupt_mask_def CTL_INTERRUPT_MASK_def)
    then show ?thesis using HostSetMask r p by (simp add: s incoming_inv_def)
  qed
qed

lemma paged_ring_for:
  assumes "paged_wf m" "0 < length (paged_bytes m)" "length (paged_bytes m) < 2 ^ 31"
  obtains r where "inner_ring_new paged_ops m = Some (Inr r)" "ring_for paged_ops (length (paged_bytes m)) r"
proof -
  let ?n = "length (paged_bytes m)"
  have n: "?n = length (data_gpns m) * 4096" using length_paged_bytes[OF assms(1)] by (simp add: GUEST_PAGE_SIZE_def)
  have u: "unat (of_nat ?n :: u32) = ?n" using assms(3) by (simp add: unat_of_nat)
  have "of_nat ?n mod (4096 :: u32) = 0" using u n by (simp add: word_unat_eq_iff unat_mod)
  then have "inner_ring_new paged_ops m = Some (Inr \<lparr>ir_mem = paged_ops, ir_size = of_nat ?n\<rparr>)"
    using paged.mem_len[OF assms(1)] assms(3) by (simp add: inner_ring_new_def)
  moreover have "ring_for paged_ops ?n \<lparr>ir_mem = paged_ops, ir_size = of_nat ?n\<rparr>"
    using u assms(2,3) n by (simp add: ring_for_def)
  ultimately show thesis by (rule that)
qed

subsection \<open>Properties\<close>

text \<open>C6. A guest cannot crash the host through an incoming ring: over a set of guest pages with
  less than 2 GiB of data, creating the ring and reading its pointers succeed or report an error,
  and no sequence of host operations panics, whatever the guest writes to the ring between any two of
  them, control page included. Receiving covers reading the payload and the external ranges of every
  packet that the ring hands out.\<close>

theorem incoming_ring_never_panics:
  assumes "paged_wf m" "0 < length (paged_bytes m)" "length (paged_bytes m) < 2 ^ 31" "list_all guest_allowed es"
  shows "\<exists>m' r res. incoming_ring_new paged_ops m = Some (m', Inr r) \<and> incoming r m' = Some res \<and>
    (case res of Inl e \<Rightarrow> e = InvalidRingPointer
     | Inr p \<Rightarrow> \<exists>s. run_steps (incoming_step r) (m', p) es = Some s)"
proof -
  let ?n = "length (paged_bytes m)"
  obtain r where new: "inner_ring_new paged_ops m = Some (Inr r)" and r: "ring_for paged_ops ?n r"
    using paged_ring_for[OF assms(1-3)] .
  obtain m' where m': "control_store r m CTL_INTERRUPT_MASK 1 = Some m'" "paged_wf m'" "paged_bytes m' = paged_bytes m"
    using paged.store_ok[OF r assms(1), of CTL_INTERRUPT_MASK 1] by (auto simp: CTL_INTERRUPT_MASK_def)
  let ?out = "paged_words m' ! CTL_OUTP" and ?in = "paged_words m' ! CTL_INP"
  have ld: "control_load r m' CTL_OUTP = Some ?out" "control_load r m' CTL_INP = Some ?in"
    using paged.load_ok[OF r m'(2)] by (simp_all add: CTL_OUTP_def CTL_INP_def)
  have inc: "incoming r m' = Some (if valid_ptr ?n ?out \<and> valid_ptr ?n ?in
      then Inr \<lparr>io_cached_in = ?in, io_committed_out = ?out, io_next_out = ?out\<rparr> else Inl InvalidRingPointer)"
    by (simp add: incoming_def ld validate_iff[OF r])
  have "\<exists>s. run_steps (incoming_step r) (m', \<lparr>io_cached_in = ?in, io_committed_out = ?out, io_next_out = ?out\<rparr>) es = Some s"
    if "valid_ptr ?n ?out" "valid_ptr ?n ?in"
    using incoming.run_inv[OF _ assms(4), of r "(m', \<lparr>io_cached_in = ?in, io_committed_out = ?out, io_next_out = ?out\<rparr>)"]
      r m'(2,3) that by (auto simp: incoming_inv_def incoming_ok_def)
  then show ?thesis using new m'(1) inc by (auto simp: incoming_ring_new_def)
qed

theorem incoming_ring_never_panics_witness:
  "\<exists>m' r res. incoming_ring_new paged_ops (gpadl_paged_new [5, 9] (\<lambda>_. replicate 4096 0)) = Some (m', Inr r) \<and>
    incoming r m' = Some res \<and>
    (case res of Inl e \<Rightarrow> e = InvalidRingPointer
     | Inr p \<Rightarrow> \<exists>s. run_steps (incoming_step r) (m', p)
         [HostReceive, GuestWrites (\<lambda>_. replicate 4096 0xff), HostReceive, HostCommitRead] = Some s)"
  by (rule incoming_ring_never_panics)
    (use zero_rings in \<open>simp_all add: same_ring_def GUEST_PAGE_SIZE_def\<close>)

text \<open>C37. \<open>InnerRing::new\<close> accepts memory of any size that fits in 32 bits, but the bound check of
  \<open>add_pointer\<close> computes twice the size: on a ring of 2 GiB every packet that ends at or beyond the
  end of the ring makes \<open>read\<close> and \<open>write\<close> panic. The error \<open>RingTooLarge\<close> exists, but no
  operation returns it.\<close>

theorem two_gib_ring_panics:
  "\<exists>r. inner_ring_new flat_ops (flat_new (2 ^ 31)) = Some (Inr r) \<and> unat (ir_size r) = 2 ^ 31 \<and>
     (\<forall>p off. 2 ^ 31 \<le> unat p + unat off \<longrightarrow> add_pointer r p off = None)"
proof (intro exI conjI allI impI)
  let ?r = "\<lparr>ir_mem = flat_ops, ir_size = 0x80000000 :: u32\<rparr>"
  have len: "rm_len flat_ops (flat_new (2 ^ 31)) = Some 2147483648" by (simp add: flat_ops_def flat_new_def)
  show "inner_ring_new flat_ops (flat_new (2 ^ 31)) = Some (Inr ?r)"
    unfolding inner_ring_new_def len by simp
  show "unat (ir_size ?r) = 2 ^ 31" by simp
  fix p off :: u32 assume big: "2 ^ 31 \<le> unat p + unat off"
  show "add_pointer ?r p off = None"
  proof (cases "unat p + unat off < 2 ^ 32")
    case True
    then have "unat (p + off) = unat p + unat off" by (simp add: unat_word_ariths)
    then have "0x80000000 \<le> p + off" using big by (simp add: word_le_nat_alt)
    then show ?thesis by (simp add: add_pointer_def add_ck_def mul_ck_def)
  qed (simp add: add_pointer_def add_ck_def)
qed

theorem two_gib_ring_panics_witness:
  "\<exists>r. inner_ring_new flat_ops (flat_new (2 ^ 31)) = Some (Inr r) \<and> add_pointer r 0x7ffffff8 8 = None"
proof -
  obtain r where r: "inner_ring_new flat_ops (flat_new (2 ^ 31)) = Some (Inr r)"
    "\<forall>p off. 2 ^ 31 \<le> unat p + unat off \<longrightarrow> add_pointer r p off = None"
    using two_gib_ring_panics by blast
  from r(2)[rule_format, of "0x7ffffff8" 8] have "add_pointer r 0x7ffffff8 8 = None" by simp
  with r(1) show ?thesis by blast
qed

text \<open>C38. \<open>writer_needs_signal\<close>, which vmbus_server calls on the control page of a guest ring when
  it restores a channel, does not validate the pointers: where the outgoing pointer lies less than 8
  bytes above the incoming one, the subtraction of the free space underflows and panics.\<close>

theorem writer_needs_signal_panics:
  assumes "length c = CONTROL_WORD_COUNT" "c ! CTL_PENDING_SEND_SIZE \<noteq> 0"
    "c ! CTL_INP < c ! CTL_OUTP" "unat (c ! CTL_OUTP) < unat (c ! CTL_INP) + 8"
  shows "writer_needs_signal (Some c) ring_size = None"
proof -
  let ?i = "c ! CTL_INP" and ?o = "c ! CTL_OUTP"
  have "unat (?o - ?i) = unat ?o - unat ?i" using assms(3) by (simp add: unat_sub less_imp_le)
  then have "\<not> 8 \<le> ?o - ?i" using assms(4) by (simp add: word_le_nat_alt)
  then show ?thesis
    using assms(2,3) by (simp add: writer_needs_signal_def ring_free_def sub_ck_def Let_def less_imp_le)
qed

theorem writer_needs_signal_panics_witness:
  "writer_needs_signal (Some ((replicate CONTROL_WORD_COUNT 0)[CTL_OUTP := 4, CTL_PENDING_SEND_SIZE := 8])) 4096 = None"
  by (rule writer_needs_signal_panics)
    (simp_all add: CONTROL_WORD_COUNT_def CTL_OUTP_def CTL_INP_def CTL_PENDING_SEND_SIZE_def)

end
