(* ===== verification/RingRefinement.thy ===== *)
theory RingRefinement
  imports VmbusRing
begin

text \<open>
  A pair of ring ends that share their memory implements a queue of packets. The specification
  \<open>chan\<close> keeps lists of packets (read but not committed, available, written but not committed);
  the refinement relates ring pointers to unbounded positions that only grow, so that a pointer is
  a position modulo the size of the ring, and the bytes between two positions to packets.
\<close>

subsection \<open>The bytes of a packet\<close>

lemma slice_append_skip: "off = length xs + k \<Longrightarrow> slice off n (xs @ ys) = slice k n ys"
  by (simp add: slice_def)

lemma slice_append_take: "n = length xs \<Longrightarrow> slice 0 n (xs @ ys) = xs"
  by (simp add: slice_def)

lemma slice_all: "n = length xs \<Longrightarrow> slice 0 n xs = xs"
  by (simp add: slice_def)

lemmas slice_fields = slice_append_skip[of _ "le_bytes _ _"] slice_append_take slice_all

lemma of_le_bytes_word:
  "of_le_bytes (le_bytes 2 (a :: u16)) = a" "of_le_bytes (le_bytes 4 (b :: u32)) = b" "of_le_bytes (le_bytes 8 (c :: u64)) = c"
  by (simp_all add: of_le_bytes_le_bytes take_bit_word_eq_self)

lemma desc_bytes_roundtrip [simp]: "desc_of_bytes (desc_bytes d) = d" "length (desc_bytes d) = 16"
  by (simp_all add: desc_of_bytes_def desc_bytes_def slice_fields of_le_bytes_word)

lemma tp_header_roundtrip [simp]: "tp_header_of_bytes (tp_header_bytes h) = h" "length (tp_header_bytes h) = 8"
  by (simp_all add: tp_header_of_bytes_def tp_header_bytes_def slice_fields of_le_bytes_word)

lemma gpa_header_roundtrip [simp]: "gpa_header_of_bytes (gpa_header_bytes h) = h" "length (gpa_header_bytes h) = 8"
  by (simp_all add: gpa_header_of_bytes_def gpa_header_bytes_def slice_fields of_le_bytes_word)

lemma length_small_bytes [simp]:
  "length (tp_range_bytes t) = 8" "length (footer_bytes f) = 8" "length (gpa_range_bytes g) = 8"
  by (simp_all add: tp_range_bytes_def footer_bytes_def gpa_range_bytes_def)

lemma length_gpns_bytes [simp]: "length (gpns_bytes gs) = 8 * length gs"
  by (induction gs) (simp_all add: gpns_bytes_def)

definition paged_range_bytes :: "paged_range \<Rightarrow> u8 list" where
  "paged_range_bytes g = gpa_range_bytes \<lparr>gr_len = of_nat (pr_len g), gr_offset = of_nat (pr_offset g)\<rparr> @ gpns_bytes (pr_pages g)"

text \<open>The header after the descriptor: its first word and the variable part that describes the
  external data.\<close>

definition extension_word :: "outgoing_packet_type \<Rightarrow> u8 list" where
  "extension_word typ =
     (case typ of
        OutGpaDirect rs \<Rightarrow> gpa_header_bytes \<lparr>gh_reserved = 0, gh_range_count = of_nat (length rs)\<rparr>
      | OutTransferPages i rs \<Rightarrow>
          tp_header_bytes \<lparr>th_transfer_page_set_id = i, th_reserved = 0, th_range_count = of_nat (length rs)\<rparr>
      | _ \<Rightarrow> [])"

definition extension_ranges :: "outgoing_packet_type \<Rightarrow> u8 list" where
  "extension_ranges typ =
     (case typ of
        OutGpaDirect rs \<Rightarrow> concat (map paged_range_bytes rs)
      | OutTransferPages i rs \<Rightarrow> concat (map tp_range_bytes rs)
      | _ \<Rightarrow> [])"

definition header_size :: "outgoing_packet \<Rightarrow> nat" where
  "header_size pkt = fst (snd (packet_header (op_typ pkt)))"

definition message_len :: "outgoing_packet \<Rightarrow> nat" where
  "message_len pkt = div_ceil (op_size pkt + header_size pkt) 8 * 8"

definition packet_desc :: "outgoing_packet \<Rightarrow> packet_descriptor" where
  "packet_desc pkt =
     \<lparr>pd_packet_type = fst (packet_header (op_typ pkt)), pd_data_offset8 = of_nat (header_size pkt) div 8,
      pd_length8 = of_nat (message_len pkt div 8), pd_flags = snd (snd (packet_header (op_typ pkt))),
      pd_transaction_id = op_transaction_id pkt\<rparr>"

definition header_bytes :: "outgoing_packet \<Rightarrow> u8 list" where
  "header_bytes pkt = desc_bytes (packet_desc pkt) @ extension_word (op_typ pkt) @ extension_ranges (op_typ pkt)"

lemma fold_range_sizes:
  "fold (\<lambda>g a. a + 8 + length (pr_pages g) * 8) rs k = k + length (concat (map paged_range_bytes rs))"
  by (induction rs arbitrary: k) (simp_all add: paged_range_bytes_def)

lemma length_concat_tp: "length (concat (map tp_range_bytes rs)) = 8 * length rs"
  by (induction rs) simp_all

lemma length_extension_word: "length (extension_word t) mod 8 = 0" "length (extension_word t) \<le> 8"
  by (cases t; simp add: extension_word_def)+

lemma length_extension_ranges: "length (extension_ranges t) mod 8 = 0"
proof (cases t)
  case (OutGpaDirect rs)
  have "length (concat (map paged_range_bytes rs)) mod 8 = 0"
    by (induction rs) (simp_all add: paged_range_bytes_def mod_add_eq[symmetric])
  then show ?thesis by (simp add: OutGpaDirect extension_ranges_def)
qed (simp_all add: extension_ranges_def length_concat_tp)

lemma header_size_eq: "header_size pkt = 16 + length (extension_word (op_typ pkt)) + length (extension_ranges (op_typ pkt))"
  by (cases "op_typ pkt")
    (simp_all add: header_size_def packet_header_def extension_word_def extension_ranges_def fold_range_sizes length_concat_tp)

lemma length_header_bytes [simp]: "length (header_bytes pkt) = header_size pkt"
  by (simp add: header_bytes_def header_size_eq)

lemma header_size_mod: "header_size pkt mod 8 = 0"
proof -
  have "8 dvd length (extension_word (op_typ pkt))" "8 dvd length (extension_ranges (op_typ pkt))"
    using length_extension_word(1) length_extension_ranges by (auto simp: mod_eq_0_iff_dvd)
  then have "8 dvd header_size pkt" by (simp add: header_size_eq)
  then show ?thesis by (simp add: mod_eq_0_iff_dvd)
qed

lemma message_len_bounds:
  "message_len pkt mod 8 = 0" "op_size pkt + header_size pkt \<le> message_len pkt" "16 \<le> message_len pkt"
  "message_len pkt < op_size pkt + header_size pkt + 8"
proof -
  let ?t = "op_size pkt + header_size pkt"
  show "message_len pkt mod 8 = 0" by (simp add: message_len_def)
  show ge: "?t \<le> message_len pkt"
    unfolding message_len_def by (simp flip: div_ceil_le_iff)
  show "16 \<le> message_len pkt" using ge by (simp add: header_size_eq)
  have "div_ceil ?t 8 * 8 = (?t + 7) div 8 * 8" by (simp add: div_ceil_alt)
  also have "\<dots> < ?t + 8" using div_mult_mod_eq[of "?t + 7" 8] by linarith
  finally show "message_len pkt < ?t + 8" by (simp add: message_len_def)
qed

text \<open>What can be sent: the payload has the announced size, the packet's lengths fit the 16-bit
  fields of the descriptor, and a GPA-direct packet has a range.\<close>

definition sendable :: "outgoing_packet \<Rightarrow> u8 list \<Rightarrow> bool" where
  "sendable pkt payload \<longleftrightarrow> length payload = op_size pkt \<and> message_len pkt div 8 < 2 ^ 16 \<and>
     header_size pkt < 2 ^ 16 \<and> op_typ pkt \<noteq> OutGpaDirect []"

lemma sendable_desc:
  assumes "sendable pkt payload"
  shows "8 * unat (pd_data_offset8 (packet_desc pkt)) = header_size pkt" "8 * unat (pd_length8 (packet_desc pkt)) = message_len pkt"
proof -
  have h: "header_size pkt < 2 ^ 16" "message_len pkt div 8 < 2 ^ 16" using assms by (auto simp: sendable_def)
  have "unat (of_nat (header_size pkt) div 8 :: u16) = header_size pkt div 8"
    using h(1) by (simp add: unat_div unat_of_nat)
  then show "8 * unat (pd_data_offset8 (packet_desc pkt)) = header_size pkt"
    using header_size_mod[of pkt] by (auto simp: packet_desc_def)
  have "unat (of_nat (message_len pkt div 8) :: u16) = message_len pkt div 8" using h(2) by (simp add: unat_of_nat)
  then show "8 * unat (pd_length8 (packet_desc pkt)) = message_len pkt"
    using message_len_bounds(1)[of pkt] by (auto simp: packet_desc_def)
qed

subsection \<open>Writing a packet\<close>

context ring_mem
begin

lemma write_or_corrupt_ok:
  assumes r: "ring_for ops n r" and m: "wf m" "length (dat m) = n"
    and c: "unat (rc_start c) + length bs \<le> unat (rc_end c)" "unat (rc_start c) + length bs \<le> 2 * n" "length bs \<le> n"
  shows "\<exists>m' c'. write_or_corrupt r m c bs = Some (m', Inr c') \<and> wf m' \<and> ctl m' = ctl m \<and>
    dat m' = ring_put (dat m) (unat (rc_start c)) bs \<and> unat (rc_start c') = unat (rc_start c) + length bs \<and> rc_end c' = rc_end c"
proof -
  obtain m' where m': "rm_write_at ops m (unat (rc_start c)) bs = Some m'" "wf m'" "ctl m' = ctl m"
      "dat m' = ring_put (dat m) (unat (rc_start c)) bs"
    using mem_write_at[OF m(1), of "unat (rc_start c)" bs] c(2,3) m(2) by blast
  have "unat (rc_start c) \<le> unat (rc_end c)" using c(1) by simp
  note l = sub_ck_nat[OF this]
  have "n < 2 ^ 31" "ir_mem r = ops" using r by (auto simp: ring_for_def)
  then have "unat (rc_start c) + length bs < 2 ^ LENGTH(32)" using c(2) by simp
  note a = add_of_nat[OF this]
  have "write_or_corrupt r m c bs = Some (m', Inr (c\<lparr>rc_start := rc_start c + of_nat (length bs)\<rparr>))"
    using l c(1) m'(1) a(1) \<open>ir_mem r = ops\<close> by (simp add: write_or_corrupt_def writer_write_def cursor_len_def)
  then show ?thesis using m' a(2) by auto
qed

lemma write_gpa_ranges_ok:
  assumes r: "ring_for ops n r" and m: "wf m" "length (dat m) = n"
    and c: "unat (rc_start c) + length (concat (map paged_range_bytes gs)) \<le> unat (rc_end c)"
      "unat (rc_start c) + length (concat (map paged_range_bytes gs)) \<le> 2 * n"
      "length (concat (map paged_range_bytes gs)) \<le> n"
  shows "\<exists>m'. write_gpa_ranges r m c gs = Some (m', Inr ()) \<and> wf m' \<and> ctl m' = ctl m \<and>
    dat m' = ring_put (dat m) (unat (rc_start c)) (concat (map paged_range_bytes gs))"
  using m c
proof (induction gs arbitrary: m c)
  case Nil
  then show ?case by simp
next
  case (Cons g gs)
  let ?h = "gpa_range_bytes \<lparr>gr_len = of_nat (pr_len g), gr_offset = of_nat (pr_offset g)\<rparr>" and ?g = "gpns_bytes (pr_pages g)"
  let ?rest = "concat (map paged_range_bytes gs)"
  have len: "length (concat (map paged_range_bytes (g # gs))) = length ?h + length ?g + length ?rest"
    by (simp add: paged_range_bytes_def)
  note b = Cons.prems(3-5)[unfolded len]
  obtain m1 c1 where 1: "write_or_corrupt r m c ?h = Some (m1, Inr c1)" "wf m1" "ctl m1 = ctl m"
      "dat m1 = ring_put (dat m) (unat (rc_start c)) ?h" "unat (rc_start c1) = unat (rc_start c) + length ?h" "rc_end c1 = rc_end c"
    using write_or_corrupt_ok[OF r Cons.prems(1,2), of c ?h] b by fastforce
  have d1: "length (dat m1) = n" using 1(4) Cons.prems(2) by simp
  obtain m2 c2 where 2: "write_or_corrupt r m1 c1 ?g = Some (m2, Inr c2)" "wf m2" "ctl m2 = ctl m1"
      "dat m2 = ring_put (dat m1) (unat (rc_start c1)) ?g" "unat (rc_start c2) = unat (rc_start c1) + length ?g" "rc_end c2 = rc_end c1"
    using write_or_corrupt_ok[OF r 1(2) d1, of c1 ?g] b 1(5,6) by fastforce
  have d2: "length (dat m2) = n" using 2(4) d1 by simp
  have "unat (rc_end c2) = unat (rc_end c)" using 1(6) 2(6) by simp
  then have "unat (rc_start c2) + length ?rest \<le> unat (rc_end c2)" "unat (rc_start c2) + length ?rest \<le> 2 * n" "length ?rest \<le> n"
    using b 1(5) 2(5) by linarith+
  from Cons.IH[OF 2(2) d2 this] obtain m3 where 3: "write_gpa_ranges r m2 c2 gs = Some (m3, Inr ())" "wf m3" "ctl m3 = ctl m2"
      "dat m3 = ring_put (dat m2) (unat (rc_start c2)) ?rest" by blast
  have "dat m2 = ring_put (dat m) (unat (rc_start c)) (?h @ ?g)"
    using 1(4,5) 2(4) b(3) Cons.prems(2) ring_put_append[of ?h ?g "dat m" "unat (rc_start c)"] by simp
  then have "dat m3 = ring_put (dat m) (unat (rc_start c)) ((?h @ ?g) @ ?rest)"
    using 3(4) 1(5) 2(5) b(3) Cons.prems(2) ring_put_append[of "?h @ ?g" ?rest "dat m" "unat (rc_start c)"]
    by (simp add: add.assoc)
  moreover have "concat (map paged_range_bytes (g # gs)) = (?h @ ?g) @ ?rest" by (simp add: paged_range_bytes_def)
  ultimately have "dat m3 = ring_put (dat m) (unat (rc_start c)) (concat (map paged_range_bytes (g # gs)))"
    by (simp only:)
  then show ?case using 1(1,3) 2(1,3) 3(1-3) by (simp del: list.map concat.simps)
qed

lemma write_tp_ranges_ok:
  assumes r: "ring_for ops n r" and m: "wf m" "length (dat m) = n" and "off mod 8 = 0"
    and "off + 24 + i * 8 + 8 * length gs \<le> 2 * n" "8 * length gs \<le> n"
  shows "\<exists>m'. write_tp_ranges r m off i gs = Some m' \<and> wf m' \<and> ctl m' = ctl m \<and>
    dat m' = ring_put (dat m) (off + 24 + i * 8) (concat (map tp_range_bytes gs))"
  using m assms(5,6)
proof (induction gs arbitrary: m i)
  case Nil
  then show ?case by simp
next
  case (Cons g gs)
  have ops: "ir_mem r = ops" using r by (simp add: ring_for_def)
  obtain m1 where 1: "rm_write_aligned ops m (off + 24 + i * 8) (tp_range_bytes g) = Some m1" "wf m1" "ctl m1 = ctl m"
      "dat m1 = ring_put (dat m) (off + 24 + i * 8) (tp_range_bytes g)"
    using mem_write_aligned[OF Cons.prems(1), of "off + 24 + i * 8" "tp_range_bytes g"] Cons.prems(2-4) assms(4)
    by (auto simp: mod_add_eq[symmetric])
  have d1: "length (dat m1) = n" using 1(4) Cons.prems(2) by simp
  obtain m2 where 2: "write_tp_ranges r m1 off (i + 1) gs = Some m2" "wf m2" "ctl m2 = ctl m1"
      "dat m2 = ring_put (dat m1) (off + 24 + (i + 1) * 8) (concat (map tp_range_bytes gs))"
    using Cons.IH[OF 1(2) d1, of "i + 1"] Cons.prems(3,4) by auto
  have "dat m2 = ring_put (dat m) (off + 24 + i * 8) (concat (map tp_range_bytes (g # gs)))"
    using 1(4) 2(4) Cons.prems(2,4) ring_put_append[of "tp_range_bytes g" "concat (map tp_range_bytes gs)" "dat m" "off + 24 + i * 8"]
    by (simp add: length_concat_tp add_ac)
  then show ?case using 1 2 ops by (simp add: add_ac)
qed

lemma write_gpa_direct_ok:
  assumes r: "ring_for ops n r" and m: "wf m" "length (dat m) = n" and off: "off < n" "off mod 8 = 0"
    and h: "hs = 24 + length (concat (map paged_range_bytes gs))" "hs \<le> n"
  shows "\<exists>m'. write_gpa_direct r m off hs gs = Some (m', Inr ()) \<and> wf m' \<and> ctl m' = ctl m \<and>
    dat m' = ring_put (dat m) (off + 16)
      (gpa_header_bytes \<lparr>gh_reserved = 0, gh_range_count = of_nat (length gs)\<rparr> @ concat (map paged_range_bytes gs))"
proof -
  let ?w = "gpa_header_bytes \<lparr>gh_reserved = 0, gh_range_count = of_nat (length gs)\<rparr>"
  let ?rest = "concat (map paged_range_bytes gs)"
  have n: "n < 2147483648" "n mod 8 = 0" using r by (simp_all add: ring_for_def)
  then have n8: "off + 8 \<le> n" "n + 8 \<le> 2147483648" using off by presburger+
  have u: "unat (of_nat (off + 16) :: u32) = off + 16" "unat (of_nat hs :: u32) = hs"
    using off h(2) n by (simp_all add: unat_of_nat del: of_nat_add)
  have "unat (of_nat (off + 16) :: u32) + hs < 2 ^ LENGTH(32)" using u(1) h(2) n8 by simp
  note e = add_of_nat[OF this, unfolded u(1)]
  define c where "c = \<lparr>rc_start = of_nat (off + 16) :: u32, rc_end = of_nat (off + 16) + of_nat hs\<rparr>"
  have c: "range_writer \<lparr>rg_off = of_nat (off + 16), rg_size = of_nat hs\<rparr> = Some c"
    using e(1) by (simp add: range_writer_def c_def del: of_nat_add)
  have cs: "unat (rc_start c) = off + 16" "unat (rc_end c) = off + 16 + hs"
    using u(1) e(2) by (simp_all add: c_def del: of_nat_add)
  obtain m1 c1 where 1: "write_or_corrupt r m c ?w = Some (m1, Inr c1)" "wf m1" "ctl m1 = ctl m"
      "dat m1 = ring_put (dat m) (off + 16) ?w" "unat (rc_start c1) = off + 16 + 8" "rc_end c1 = rc_end c"
    using write_or_corrupt_ok[OF r m, of c ?w] cs h off(1) by auto
  have d1: "length (dat m1) = n" using 1(4) m(2) by simp
  obtain m2 where 2: "write_gpa_ranges r m1 c1 gs = Some (m2, Inr ())" "wf m2" "ctl m2 = ctl m1"
      "dat m2 = ring_put (dat m1) (off + 16 + 8) ?rest"
    using write_gpa_ranges_ok[OF r 1(2) d1, of c1 gs] cs 1(5,6) h off(1) by auto
  have "dat m2 = ring_put (dat m) (off + 16) (?w @ ?rest)"
    using 1(4) 2(4) h m(2) ring_put_append[of ?w ?rest "dat m" "off + 16"] by simp
  then show ?thesis using c 1 2 by (simp add: write_gpa_direct_def Let_def del: of_nat_add)
qed

lemma write_transfer_pages_ok:
  assumes r: "ring_for ops n r" and m: "wf m" "length (dat m) = n" and off: "off < n" "off mod 8 = 0"
    and h: "24 + 8 * length gs \<le> n"
  shows "\<exists>m'. write_transfer_pages r m off i gs = Some m' \<and> wf m' \<and> ctl m' = ctl m \<and>
    dat m' = ring_put (dat m) (off + 16)
      (tp_header_bytes \<lparr>th_transfer_page_set_id = i, th_reserved = 0, th_range_count = of_nat (length gs)\<rparr> @
       concat (map tp_range_bytes gs))"
proof -
  let ?w = "tp_header_bytes \<lparr>th_transfer_page_set_id = i, th_reserved = 0, th_range_count = of_nat (length gs)\<rparr>"
  have ops: "ir_mem r = ops" using r by (simp add: ring_for_def)
  obtain m1 where 1: "rm_write_aligned ops m (off + 16) ?w = Some m1" "wf m1" "ctl m1 = ctl m"
      "dat m1 = ring_put (dat m) (off + 16) ?w"
    using mem_write_aligned[OF m(1), of "off + 16" ?w] m(2) off h by (auto simp: mod_add_eq[symmetric])
  have d1: "length (dat m1) = n" using 1(4) m(2) by simp
  obtain m2 where 2: "write_tp_ranges r m1 off 0 gs = Some m2" "wf m2" "ctl m2 = ctl m1"
      "dat m2 = ring_put (dat m1) (off + 24) (concat (map tp_range_bytes gs))"
    using write_tp_ranges_ok[OF r 1(2) d1 off(2), of 0 gs] h off(1) by auto
  have "dat m2 = ring_put (dat m) (off + 16) (?w @ concat (map tp_range_bytes gs))"
    using 1(4) 2(4) h m(2) ring_put_append[of ?w "concat (map tp_range_bytes gs)" "dat m" "off + 16"]
    by (simp add: length_concat_tp add.commute)
  then show ?thesis using 1 2 ops by (simp add: write_transfer_pages_def Let_def)
qed

lemma write_extension_ok:
  assumes r: "ring_for ops n r" and m: "wf m" "length (dat m) = n" and off: "off < n" "off mod 8 = 0"
    and h: "header_size pkt \<le> n"
  shows "\<exists>m'. write_extension r m off (header_size pkt) (op_typ pkt) = Some (m', Inr ()) \<and> wf m' \<and> ctl m' = ctl m \<and>
    dat m' = ring_put (dat m) (off + 16) (extension_word (op_typ pkt) @ extension_ranges (op_typ pkt))"
proof (cases "op_typ pkt")
  case (OutGpaDirect gs)
  have "header_size pkt = 24 + length (concat (map paged_range_bytes gs))"
    by (simp add: header_size_eq OutGpaDirect extension_word_def extension_ranges_def)
  from write_gpa_direct_ok[OF r m off this h] show ?thesis
    by (simp add: OutGpaDirect write_extension_def extension_word_def extension_ranges_def)
next
  case (OutTransferPages i gs)
  have "24 + 8 * length gs \<le> n"
    using h by (simp add: header_size_eq OutTransferPages extension_word_def extension_ranges_def length_concat_tp)
  from write_transfer_pages_ok[OF r m off this, of i] show ?thesis
    by (auto simp: OutTransferPages write_extension_def extension_word_def extension_ranges_def)
qed (use m in \<open>simp_all add: write_extension_def extension_word_def extension_ranges_def\<close>)

text \<open>The descriptor, the rest of the header and the footer of a packet at offset \<open>off\<close>.\<close>

lemma write_all_ok:
  assumes r: "ring_for ops n r" and m: "wf m" "length (dat m) = n" and off: "off < n" "off mod 8 = 0"
    and h: "message_len pkt + 8 \<le> n"
  shows "\<exists>m1 m2 m3. rm_write_aligned ops m off (desc_bytes (packet_desc pkt)) = Some m1 \<and>
    write_extension r m1 off (header_size pkt) (op_typ pkt) = Some (m2, Inr ()) \<and>
    rm_write_aligned ops m2 (off + message_len pkt) (footer_bytes f) = Some m3 \<and> wf m3 \<and> ctl m3 = ctl m \<and>
    dat m3 = ring_put (ring_put (dat m) off (header_bytes pkt)) (off + message_len pkt) (footer_bytes f)"
proof -
  note b = message_len_bounds[of pkt]
  have hs: "header_size pkt \<le> n" using b(2) h by simp
  obtain m1 where 1: "rm_write_aligned ops m off (desc_bytes (packet_desc pkt)) = Some m1" "wf m1" "ctl m1 = ctl m"
      "dat m1 = ring_put (dat m) off (desc_bytes (packet_desc pkt))"
    using mem_write_aligned[OF m(1), of off "desc_bytes (packet_desc pkt)"] m(2) off h b(3) by auto
  have d1: "length (dat m1) = n" using 1(4) m(2) by simp
  obtain m2 where 2: "write_extension r m1 off (header_size pkt) (op_typ pkt) = Some (m2, Inr ())" "wf m2" "ctl m2 = ctl m1"
      "dat m2 = ring_put (dat m1) (off + 16) (extension_word (op_typ pkt) @ extension_ranges (op_typ pkt))"
    using write_extension_ok[OF r 1(2) d1 off hs] by blast
  have d2: "length (dat m2) = n" using 2(4) d1 by simp
  have "length (extension_word (op_typ pkt) @ extension_ranges (op_typ pkt)) + 16 \<le> n"
    using hs by (simp add: header_size_eq)
  then have hdr: "dat m2 = ring_put (dat m) off (header_bytes pkt)"
    using 1(4) 2(4) m(2) ring_put_append[of "desc_bytes (packet_desc pkt)" _ "dat m" off] by (simp add: header_bytes_def)
  obtain m3 where 3: "rm_write_aligned ops m2 (off + message_len pkt) (footer_bytes f) = Some m3" "wf m3" "ctl m3 = ctl m2"
      "dat m3 = ring_put (dat m2) (off + message_len pkt) (footer_bytes f)"
    using mem_write_aligned[OF 2(2), of "off + message_len pkt" "footer_bytes f"] d2 off h b(1)
    by (auto simp: mod_add_eq[symmetric])
  show ?thesis using 1(1,3) 2(1,3) 3 hdr by auto
qed
end

subsection \<open>The specification: a queue of packets\<close>

type_synonym sent = "outgoing_packet \<times> u8 list"

definition total_len :: "sent \<Rightarrow> nat" where
  "total_len x = message_len (fst x) + 8"

definition tot :: "sent list \<Rightarrow> nat" where
  "tot xs = sum_list (map total_len xs)"

record chan =
  ch_read :: "sent list"
  ch_avail :: "sent list"
  ch_pending :: "sent list"
  ch_mask :: u32
  ch_pending_size :: u32

definition chan_used :: "chan \<Rightarrow> nat" where
  "chan_used c = tot (ch_read c) + tot (ch_avail c) + tot (ch_pending c)"

datatype ring_cmd =
    Send outgoing_packet "u8 list"
  | CommitWrite
  | RevertWrite
  | CanWrite nat
  | SetPendingSendSize nat
  | Receive
  | CommitRead
  | RevertRead
  | CanRead
  | SetMask bool

datatype 'd ring_out =
    SendOut "write_error + unit"
  | SignalOut bool
  | DoneOut
  | AnswerOut "ring_error + bool"
  | SetOut "ring_error + unit"
  | ReceiveOut "read_error + 'd"

text \<open>The behaviour of a channel over a ring of \<open>n\<close> bytes. A packet that does not fit now is
  refused with the space it needs, one that can never fit with an error. A commit of writes asks for
  an interrupt when the ring was empty and interrupts are unmasked; a commit of reads asks for one
  when the free space reaches the size the writer waits for.\<close>

fun chan_step :: "nat \<Rightarrow> chan \<Rightarrow> ring_cmd \<Rightarrow> chan \<times> sent ring_out" where
  "chan_step n c (Send pkt payload) =
     (if n - 8 \<le> total_len (pkt, payload) then (c, SendOut (Inl (WriteCorrupt InvalidMessageLength)))
      else if n - 8 - chan_used c < total_len (pkt, payload) then (c, SendOut (Inl (WriteFull (total_len (pkt, payload)))))
      else (c\<lparr>ch_pending := ch_pending c @ [(pkt, payload)]\<rparr>, SendOut (Inr ())))"
| "chan_step n c CommitWrite =
     (if ch_pending c = [] then (c, SignalOut False)
      else (c\<lparr>ch_avail := ch_avail c @ ch_pending c, ch_pending := []\<rparr>,
            SignalOut (ch_mask c = 0 \<and> ch_read c = [] \<and> ch_avail c = [])))"
| "chan_step n c RevertWrite = (c\<lparr>ch_pending := []\<rparr>, DoneOut)"
| "chan_step n c (CanWrite len) = (c, AnswerOut (Inr (len \<le> n - 8 - chan_used c)))"
| "chan_step n c (SetPendingSendSize len) =
     (if n - 8 < len then (c, SetOut (Inl InvalidMessageLength))
      else (c\<lparr>ch_pending_size := (of_nat len + 7) AND NOT 7\<rparr>, SetOut (Inr ())))"
| "chan_step n c Receive =
     (case ch_avail c of
        [] \<Rightarrow> (c, ReceiveOut (Inl ReadEmpty))
      | x # xs \<Rightarrow> (c\<lparr>ch_read := ch_read c @ [x], ch_avail := xs\<rparr>, ReceiveOut (Inr x)))"
| "chan_step n c CommitRead =
     (if ch_read c = [] then (c, SignalOut False)
      else (c\<lparr>ch_read := []\<rparr>,
            SignalOut (let size = unat (ch_pending_size c AND NOT 7) in
              size \<noteq> 0 \<and> n - 8 - (tot (ch_read c) + tot (ch_avail c)) < size \<and> size \<le> n - 8 - tot (ch_avail c))))"
| "chan_step n c RevertRead = (c\<lparr>ch_read := [], ch_avail := ch_read c @ ch_avail c\<rparr>, DoneOut)"
| "chan_step n c CanRead = (c, AnswerOut (Inr (ch_avail c \<noteq> [])))"
| "chan_step n c (SetMask b) = (c\<lparr>ch_mask := (if b then 1 else 0)\<rparr>, DoneOut)"

fun cmd_allowed :: "ring_cmd \<Rightarrow> bool" where
  "cmd_allowed (Send pkt payload) \<longleftrightarrow> sendable pkt payload"
| "cmd_allowed _ \<longleftrightarrow> True"

text \<open>A packet is delivered with its transaction id, its kind, its external ranges and its
  payload; the reader sees the payload rounded up to a multiple of 8 bytes.\<close>

definition expected_id :: "outgoing_packet \<Rightarrow> u64 option" where
  "expected_id pkt = (if op_typ pkt = OutInBandNoCompletion then None else Some (op_transaction_id pkt))"

definition same_kind :: "outgoing_packet_type \<Rightarrow> incoming_packet_type \<Rightarrow> bool" where
  "same_kind t u =
     (case t of
        OutInBandNoCompletion \<Rightarrow> u = InBand
      | OutInBandWithCompletion \<Rightarrow> u = InBand
      | OutCompletion \<Rightarrow> u = Completion
      | OutGpaDirect gs \<Rightarrow> (case u of GpaDirect k g \<Rightarrow> unat k = length gs | _ \<Rightarrow> False)
      | OutTransferPages i gs \<Rightarrow> (case u of TransferPages j k g \<Rightarrow> i = j \<and> unat k = length gs | _ \<Rightarrow> False))"

definition delivers :: "sent \<Rightarrow> incoming_packet \<times> u8 list \<times> u8 list \<Rightarrow> bool" where
  "delivers x y =
     (case (x, y) of ((pkt, payload), (inc, ext, bytes)) \<Rightarrow>
        ip_transaction_id inc = expected_id pkt \<and> same_kind (op_typ pkt) (ip_typ inc) \<and>
        ext = extension_ranges (op_typ pkt) \<and> take (length payload) bytes = payload \<and>
        length bytes = div_ceil (length payload) 8 * 8)"

fun out_matches :: "sent ring_out \<Rightarrow> (incoming_packet \<times> u8 list \<times> u8 list) ring_out \<Rightarrow> bool" where
  "out_matches (ReceiveOut (Inr x)) (ReceiveOut (Inr y)) \<longleftrightarrow> delivers x y"
| "out_matches (ReceiveOut (Inl e)) (ReceiveOut (Inl e')) \<longleftrightarrow> e = e'"
| "out_matches (SendOut a) (SendOut b) \<longleftrightarrow> a = b"
| "out_matches (SignalOut a) (SignalOut b) \<longleftrightarrow> a = b"
| "out_matches (AnswerOut a) (AnswerOut b) \<longleftrightarrow> a = b"
| "out_matches (SetOut a) (SetOut b) \<longleftrightarrow> a = b"
| "out_matches DoneOut DoneOut \<longleftrightarrow> True"
| "out_matches _ _ \<longleftrightarrow> False"

subsection \<open>The two ends of a ring\<close>

text \<open>Writing a packet together with its payload.\<close>

definition send ::
  "'m inner_ring \<Rightarrow> 'm \<Rightarrow> outgoing_offset \<Rightarrow> outgoing_packet \<Rightarrow> u8 list \<Rightarrow>
   ('m \<times> outgoing_offset \<times> (write_error + unit)) option" where
  "send r m p pkt payload = do {
     (m, p, res) \<leftarrow> write_packet r m p pkt;
     case res of
       Inl e \<Rightarrow> Some (m, p, Inl e)
     | Inr g \<Rightarrow> do {
         c \<leftarrow> range_writer g;
         (m, c, res) \<leftarrow> writer_write r m c payload;
         _ \<leftarrow> ok_value res;
         Some (m, p, Inr ())
       }
   }"

fun ring_step ::
  "'m inner_ring \<Rightarrow> 'm \<times> incoming_offset \<times> outgoing_offset \<Rightarrow> ring_cmd \<Rightarrow>
   (('m \<times> incoming_offset \<times> outgoing_offset) \<times> (incoming_packet \<times> u8 list \<times> u8 list) ring_out) option" where
  "ring_step r (m, ip, op) (Send pkt payload) =
     map_option (\<lambda>(m, op, res). ((m, ip, op), SendOut res)) (send r m op pkt payload)"
| "ring_step r (m, ip, op) CommitWrite = map_option (\<lambda>(m, op, s). ((m, ip, op), SignalOut s)) (commit_write r m op)"
| "ring_step r (m, ip, op) RevertWrite = Some ((m, ip, outgoing_revert op), DoneOut)"
| "ring_step r (m, ip, op) (CanWrite len) =
     map_option (\<lambda>(op, res). ((m, ip, op), AnswerOut res)) (can_write r m op len)"
| "ring_step r (m, ip, op) (SetPendingSendSize len) =
     map_option (\<lambda>(m, res). ((m, ip, op), SetOut res)) (set_pending_send_size r m len)"
| "ring_step r (m, ip, op) Receive = map_option (\<lambda>(ip, res). ((m, ip, op), ReceiveOut res)) (receive r m ip)"
| "ring_step r (m, ip, op) CommitRead = map_option (\<lambda>(m, ip, s). ((m, ip, op), SignalOut s)) (commit_read r m ip)"
| "ring_step r (m, ip, op) RevertRead = Some ((m, incoming_revert ip, op), DoneOut)"
| "ring_step r (m, ip, op) CanRead = map_option (\<lambda>(ip, res). ((m, ip, op), AnswerOut res)) (can_read r m ip)"
| "ring_step r (m, ip, op) (SetMask b) = map_option (\<lambda>m. ((m, ip, op), DoneOut)) (set_interrupt_mask r m b)"

subsection \<open>Positions\<close>

definition pos :: "nat \<Rightarrow> nat \<Rightarrow> u32 \<Rightarrow> bool" where
  "pos n v p \<longleftrightarrow> unat p = v mod n"

lemma pos_valid:
  assumes "pos n v p" "v mod 8 = 0" "n mod 8 = 0" "0 < n"
  shows "valid_ptr n p"
proof -
  have "8 dvd v mod n" using assms(2,3) by (auto simp: mod_eq_0_iff_dvd intro: dvd_mod)
  then show ?thesis using assms by (simp add: valid_ptr_def pos_def mod_eq_0_iff_dvd)
qed

lemma pos_used:
  assumes "pos n a inp" "pos n b outp" "b \<le> a" "a - b < n"
  shows "ring_used n inp outp = a - b"
  using assms ring_dist[of b "a - b" n "unat inp"] by (simp add: ring_used_def pos_def)

lemma pos_eq:
  assumes "pos n a p" "pos n b q" "b \<le> a" "a - b < n"
  shows "p = q \<longleftrightarrow> a = b"
proof
  assume "p = q"
  then have "(b + (a - b)) mod n = b mod n" using assms by (simp add: pos_def)
  with assms(4) have "a - b = 0" using ring_dist[of b "a - b" n "b mod n"] ring_dist[of b 0 n "b mod n"] by auto
  then show "a = b" using assms(3) by simp
next
  assume "a = b" then show "p = q" using assms(1,2) by (simp add: pos_def word_unat_eq_iff)
qed

lemma tot_simps [simp]: "tot [] = 0" "tot (x # xs) = total_len x + tot xs" "tot (xs @ ys) = tot xs + tot ys"
  by (simp_all add: tot_def)

lemma total_len_bounds: "total_len x mod 8 = 0" "24 \<le> total_len x"
  using message_len_bounds[of "fst x"] by (simp_all add: total_len_def)

lemma tot_mod: "tot xs mod 8 = 0"
  by (induction xs) (simp_all add: mod_add_eq[symmetric] total_len_bounds)

lemma tot_zero_iff [simp]: "tot xs = 0 \<longleftrightarrow> xs = []"
proof (cases xs)
  case (Cons x ys)
  then show ?thesis using total_len_bounds(2)[of x] by simp
qed simp

lemma tot_take_le: "tot (take k xs) \<le> tot xs"
  by (metis append_take_drop_id le_add1 tot_simps(3))

subsection \<open>Packets in ring memory\<close>

definition packet_at :: "u8 list \<Rightarrow> nat \<Rightarrow> sent \<Rightarrow> bool" where
  "packet_at d v x \<longleftrightarrow> ring_get d v (header_size (fst x)) = header_bytes (fst x) \<and>
     ring_get d (v + header_size (fst x)) (length (snd x)) = snd x"

fun packets_at :: "u8 list \<Rightarrow> nat \<Rightarrow> sent list \<Rightarrow> bool" where
  "packets_at d v [] \<longleftrightarrow> True"
| "packets_at d v (x # xs) \<longleftrightarrow> packet_at d v x \<and> packets_at d (v + total_len x) xs"

lemma packets_at_append [simp]:
  "packets_at d v (xs @ ys) \<longleftrightarrow> packets_at d v xs \<and> packets_at d (v + tot xs) ys"
  by (induction xs arbitrary: v) (simp_all add: add.assoc)

lemma packets_at_frame:
  assumes "\<And>c k. v \<le> c \<Longrightarrow> c + k \<le> v + tot xs \<Longrightarrow> ring_get d' c k = ring_get d c k"
    and "\<forall>x\<in>set xs. sendable (fst x) (snd x)" "packets_at d v xs"
  shows "packets_at d' v xs"
  using assms
proof (induction xs arbitrary: v)
  case (Cons x xs)
  note b = message_len_bounds(2)[of "fst x"]
  have len: "length (snd x) = op_size (fst x)" using Cons.prems(2) by (auto simp: sendable_def)
  have "packet_at d' v x"
    using Cons.prems(1)[of v "header_size (fst x)"] Cons.prems(1)[of "v + header_size (fst x)" "length (snd x)"]
      Cons.prems(3) b len by (simp add: packet_at_def total_len_def)
  moreover have "packets_at d' (v + total_len x) xs"
    using Cons.prems by (intro Cons.IH) auto
  ultimately show ?case by simp
qed simp

lemma ring_get_mod_add: "ring_get d (a mod length d + k) n = ring_get d (a + k) n"
  using ring_get_mod[of d "a mod length d + k"] ring_get_mod[of d "a + k"] by (simp add: mod_add_left_eq)

lemma ring_put_mod_add: "ring_put d (a mod length d + k) bs = ring_put d (a + k) bs"
  using ring_put_mod[of d "a mod length d + k"] ring_put_mod[of d "a + k"] by (simp add: mod_add_left_eq)

subsection \<open>Sending\<close>

lemma ring_for_size:
  assumes "ring_for ops n r"
  shows "n mod 8 = 0" "0 < n" "n < 2147483648" "unat (ir_size r) = n" "ir_mem r = ops" "8 \<le> n"
  using assms by (auto simp: ring_for_def)

lemma free_pos:
  assumes r: "ring_for ops n r" and "pos n a inp" "pos n b outp" "a mod 8 = 0" "b mod 8 = 0" "b \<le> a" "a - b < n"
  obtains f where "inner_free r inp outp = Some f" "unat f = n - 8 - (a - b)"
  using ring_free_ok[OF r pos_valid[OF assms(2,4)] pos_valid[OF assms(3,5)]] pos_used[OF assms(2,3,6,7)]
    ring_for_size[OF r] by metis

text \<open>The bytes of a packet once its header, its footer and its payload are written.\<close>

definition packet_put :: "u8 list \<Rightarrow> nat \<Rightarrow> sent \<Rightarrow> u8 list \<Rightarrow> u8 list" where
  "packet_put d v x foot =
     ring_put (ring_put (ring_put d v (header_bytes (fst x))) (v + message_len (fst x)) foot) (v + header_size (fst x)) (snd x)"

lemma packet_put_at:
  assumes "sendable (fst x) (snd x)" "total_len x \<le> length d" "length foot = 8"
  shows "packet_at (packet_put d v x foot) v x"
    and "length (packet_put d v x foot) = length d"
    and "c + k \<le> v \<Longrightarrow> v + total_len x \<le> c + length d \<Longrightarrow> ring_get (packet_put d v x foot) c k = ring_get d c k"
proof -
  note b = message_len_bounds[of "fst x"]
  have s: "length (snd x) = op_size (fst x)" using assms(1) by (simp add: sendable_def)
  have t: "message_len (fst x) + 8 \<le> length d" using assms(2) by (simp add: total_len_def)
  have h: "ring_get (ring_put d v (header_bytes (fst x))) v (header_size (fst x)) = header_bytes (fst x)"
    using ring_get_put[of "header_bytes (fst x)" d v] b(2) t by simp
  show "packet_at (packet_put d v x foot) v x"
    unfolding packet_at_def packet_put_def
    using h ring_get_put[of "snd x" _ "v + header_size (fst x)"] b(2) t s assms(3)
    by (simp add: ring_get_put_before)
  show "length (packet_put d v x foot) = length d" by (simp add: packet_put_def)
  show "ring_get (packet_put d v x foot) c k = ring_get d c k"
    if "c + k \<le> v" "v + total_len x \<le> c + length d"
    unfolding packet_put_def using that b(2) s assms(3) by (simp add: ring_get_put_before total_len_def)
qed

context ring_mem
begin

lemma find_space_ok:
  assumes r: "ring_for ops n r" and m: "wf m"
    and p: "pos n vi (oo_next_in p)" "pos n w (oo_cached_out p)" "pos n v0 (ctl m ! CTL_OUTP)"
    and v: "w \<le> v0" "v0 \<le> vi" "vi + 8 \<le> w + n" "vi mod 8 = 0" "w mod 8 = 0" "v0 mod 8 = 0"
  shows "if n - 8 - (vi - v0) < unat t then find_space r m p t = Some (Inl (WriteFull (unat t)))
    else \<exists>q w'. find_space r m p t = Some (Inr q) \<and> pos n w' q \<and> w' mod 8 = 0 \<and> w \<le> w' \<and> w' \<le> v0 \<and> vi + unat t + 8 \<le> w' + n"
proof -
  note n = ring_for_size[OF r]
  have ld: "control_load r m CTL_OUTP = Some (ctl m ! CTL_OUTP)" using load_ok[OF r m] by (simp add: CTL_OUTP_def)
  have vl: "validate r (ctl m ! CTL_OUTP) = Inr (ctl m ! CTL_OUTP)"
    using validate_iff[OF r] pos_valid[OF p(3) v(6)] n by simp
  have lt: "w \<le> vi" "vi - w < n" "vi - v0 < n" using v(1-3) by auto
  from free_pos[OF r p(1,2) v(4,5) lt(1,2)] obtain f where
    f: "inner_free r (oo_next_in p) (oo_cached_out p) = Some f" "unat f = n - 8 - (vi - w)" .
  from free_pos[OF r p(1,3) v(4,6,2) lt(3)] obtain g where
    g: "inner_free r (oo_next_in p) (ctl m ! CTL_OUTP) = Some g" "unat g = n - 8 - (vi - v0)" .
  consider "f < t" "g < t" | "f < t" "\<not> g < t" | "\<not> f < t" "\<not> g < t"
    using f(2) g(2) v(1) by (fastforce simp: word_less_nat_alt)
  then show ?thesis
  proof cases
    case 1
    then show ?thesis using f g ld vl by (auto simp: find_space_def word_less_nat_alt)
  next
    case 2
    then have "vi + unat t + 8 \<le> v0 + n" using g(2) v(1-3) n(6) by (simp add: word_less_nat_alt)
    then show ?thesis using 2 f g ld vl p(3) v by (auto simp: find_space_def word_less_nat_alt)
  next
    case 3
    then have "vi + unat t + 8 \<le> w + n" using f(2) v(1-3) n(6) by (simp add: word_less_nat_alt)
    then show ?thesis using 3 f g p(2) v by (auto simp: find_space_def word_less_nat_alt)
  qed
qed

end

context ring_mem
begin

lemma write_packet_ok:
  assumes r: "ring_for ops n r" and m: "wf m" "length (dat m) = n"
    and t: "message_len pkt + 16 < n"
    and p: "pos n vi (oo_next_in p)" "vi mod 8 = 0"
    and sp: "find_space r m p (of_nat (message_len pkt + 8)) = Some (Inr q)"
  shows "\<exists>m' p' g foot. write_packet r m p pkt = Some (m', p', Inr g) \<and> wf m' \<and> ctl m' = ctl m \<and> length foot = 8 \<and>
    dat m' = ring_put (ring_put (dat m) vi (header_bytes pkt)) (vi + message_len pkt) foot \<and>
    p' = p\<lparr>oo_cached_out := q, oo_next_in := oo_next_in p'\<rparr> \<and> pos n (vi + (message_len pkt + 8)) (oo_next_in p') \<and>
    unat (rg_off g) = vi mod n + header_size pkt \<and> unat (rg_size g) = op_size pkt"
proof -
  note n = ring_for_size[OF r] and b = message_len_bounds[of pkt]
  let ?off = "unat (oo_next_in p)" and ?t = "of_nat (message_len pkt + 8) :: u32"
  have vp: "valid_ptr n (oo_next_in p)" using pos_valid[OF p] n by simp
  have off: "?off < n" "?off mod 8 = 0" "?off = vi mod n" using vp p(1) by (auto simp: valid_ptr_def pos_def)
  have ut: "unat ?t = message_len pkt + 8" using t n(3) by (simp add: unat_of_nat del: of_nat_add)
  have hd: "packet_header (op_typ pkt) = (fst (packet_header (op_typ pkt)), header_size pkt, snd (snd (packet_header (op_typ pkt))))"
    by (simp add: header_size_def)
  have big: "op_size pkt + header_size pkt < 2 ^ 64" "message_len pkt + 8 < 2 ^ 64" using b t n(3) by simp_all
  have dc: "div_ceil (op_size pkt + header_size pkt) 8 < 2305843009213693951" using big(2) by (simp add: message_len_def)
  have mx: "sub_ck (ir_size r) 8 = Some (ir_size r - 8)" "unat (ir_size r - 8) = n - 8"
    using sub_ck_nat[of 8 "ir_size r"] n(4,6) by simp_all
  have fit: "\<not> ir_size r - 8 \<le> ?t" using mx(2) ut t by (simp add: word_le_nat_alt)
  define foot where "foot = footer_bytes \<lparr>ft_reserved = 0, ft_offset = oo_next_in p\<rparr>"
  have h: "message_len pkt + 8 \<le> n" using t by simp
  from write_all_ok[OF r m off(1,2) h, of "\<lparr>ft_reserved = 0, ft_offset = oo_next_in p\<rparr>", folded foot_def]
  obtain m1 m2 m3 where w: "rm_write_aligned ops m ?off (desc_bytes (packet_desc pkt)) = Some m1"
    "write_extension r m1 ?off (header_size pkt) (op_typ pkt) = Some (m2, Inr ())"
    "rm_write_aligned ops m2 (?off + message_len pkt) foot = Some m3" "wf m3" "ctl m3 = ctl m"
    "dat m3 = ring_put (ring_put (dat m) ?off (header_bytes pkt)) (?off + message_len pkt) foot" by blast
  have d3: "dat m3 = ring_put (ring_put (dat m) vi (header_bytes pkt)) (vi + message_len pkt) foot"
    using w(6) off(3) m(2) ring_put_mod_add[of "dat m" vi 0] ring_put_mod_add[of "ring_put (dat m) vi (header_bytes pkt)" vi]
    by simp
  obtain nx where nx: "add_pointer r (oo_next_in p) ?t = Some nx" "unat nx = (?off + (message_len pkt + 8)) mod n"
    using add_pointer_ok[OF r vp, of ?t] ut b(1) t by (metis h mod_add_self2)
  have hs: "unat (of_nat (header_size pkt) :: u32) = header_size pkt" "unat (of_nat (op_size pkt) :: u32) = op_size pkt"
    using b(2) t n(3) by (simp_all add: unat_of_nat)
  have "?off + unat (of_nat (header_size pkt) :: u32) < 2 ^ LENGTH(32)" using hs(1) off(1) b(2) t n(3) by simp
  note po = add_ck_nat[OF this]
  have desc: "packet_desc pkt = \<lparr>pd_packet_type = fst (packet_header (op_typ pkt)), pd_data_offset8 = of_nat (header_size pkt) div 8,
      pd_length8 = of_nat (message_len pkt div 8), pd_flags = snd (snd (packet_header (op_typ pkt))),
      pd_transaction_id = op_transaction_id pkt\<rparr>" by (simp add: packet_desc_def)
  have "write_packet r m p pkt = Some (m3, p\<lparr>oo_cached_out := q, oo_next_in := nx\<rparr>,
      Inr \<lparr>rg_off = oo_next_in p + of_nat (header_size pkt), rg_size = of_nat (op_size pkt)\<rparr>)"
    unfolding write_packet_def
    by (subst hd, use big dc fit mx(1) sp w(1-3) nx(1) po(1) n(5) in
        \<open>simp add: Let_def nat_add_ck_def assert_that_def flip: message_len_def desc foot_def\<close>)
  moreover have "pos n (vi + (message_len pkt + 8)) nx" using nx(2) off(3) by (simp add: pos_def mod_simps)
  moreover have "length foot = 8" by (simp add: foot_def)
  ultimately show ?thesis using w(4,5) d3 po(2) hs off(3) by auto
qed

lemma send_full:
  assumes r: "ring_for ops n r" and m: "wf m" and s: "sendable pkt payload"
  shows "n - 8 \<le> message_len pkt + 8 \<Longrightarrow> send r m p pkt payload = Some (m, p, Inl (WriteCorrupt InvalidMessageLength))"
    and "message_len pkt + 16 < n \<Longrightarrow> find_space r m p (of_nat (message_len pkt + 8)) = Some (Inl e) \<Longrightarrow>
      send r m p pkt payload = Some (m, p, Inl e)"
proof -
  note n = ring_for_size[OF r] and b = message_len_bounds[of pkt]
  let ?t = "of_nat (message_len pkt + 8) :: u32"
  have "message_len pkt < 8 * 2 ^ 16" using s by (simp add: sendable_def div_less_iff_less_mult)
  then have ut: "unat ?t = message_len pkt + 8" and big: "op_size pkt + header_size pkt < 2 ^ 64" "message_len pkt + 8 < 2 ^ 64"
    using b(2) by (simp_all add: unat_of_nat del: of_nat_add)
  have dc: "div_ceil (op_size pkt + header_size pkt) 8 < 2305843009213693951" using big(2) by (simp add: message_len_def)
  have mx: "sub_ck (ir_size r) 8 = Some (ir_size r - 8)" "unat (ir_size r - 8) = n - 8"
    using sub_ck_nat[of 8 "ir_size r"] n(4,6) by simp_all
  have hd: "packet_header (op_typ pkt) = (fst (packet_header (op_typ pkt)), header_size pkt, snd (snd (packet_header (op_typ pkt))))"
    by (simp add: header_size_def)
  have cmp: "ir_size r - 8 \<le> ?t \<longleftrightarrow> n - 8 \<le> message_len pkt + 8" using mx(2) ut by (simp add: word_le_nat_alt)
  show "send r m p pkt payload = Some (m, p, Inl (WriteCorrupt InvalidMessageLength))" if "n - 8 \<le> message_len pkt + 8"
    unfolding send_def write_packet_def
    by (subst hd, use big dc that cmp mx(1) in \<open>simp add: Let_def nat_add_ck_def assert_that_def flip: message_len_def\<close>)
  show "send r m p pkt payload = Some (m, p, Inl e)"
    if "message_len pkt + 16 < n" "find_space r m p ?t = Some (Inl e)"
  proof -
    have "\<not> ir_size r - 8 \<le> ?t" using that(1) cmp by simp
    then show ?thesis
      unfolding send_def write_packet_def
      by (subst hd, use big dc that(2) mx(1) in \<open>simp add: Let_def nat_add_ck_def assert_that_def flip: message_len_def\<close>)
  qed
qed

lemma send_fits:
  assumes r: "ring_for ops n r" and m: "wf m" "length (dat m) = n" and s: "sendable pkt payload"
    and t: "message_len pkt + 16 < n"
    and p: "pos n vi (oo_next_in p)" "vi mod 8 = 0"
    and sp: "find_space r m p (of_nat (message_len pkt + 8)) = Some (Inr q)"
  shows "\<exists>m' nx foot. send r m p pkt payload = Some (m', p\<lparr>oo_cached_out := q, oo_next_in := nx\<rparr>, Inr ()) \<and>
    wf m' \<and> ctl m' = ctl m \<and> length foot = 8 \<and> dat m' = packet_put (dat m) vi (pkt, payload) foot \<and>
    pos n (vi + total_len (pkt, payload)) nx"
proof -
  note n = ring_for_size[OF r] and b = message_len_bounds[of pkt]
  from write_packet_ok[OF r m t p sp] obtain m1 p1 g foot where
    w: "write_packet r m p pkt = Some (m1, p1, Inr g)" "wf m1" "ctl m1 = ctl m" "length foot = 8"
      "dat m1 = ring_put (ring_put (dat m) vi (header_bytes pkt)) (vi + message_len pkt) foot"
      "p1 = p\<lparr>oo_cached_out := q, oo_next_in := oo_next_in p1\<rparr>"
      "pos n (vi + (message_len pkt + 8)) (oo_next_in p1)"
    and g: "unat (rg_off g) = vi mod n + header_size pkt" "unat (rg_size g) = op_size pkt" by blast
  have len: "length payload = op_size pkt" using s by (simp add: sendable_def)
  have vi: "vi mod n < n" using n by simp
  have le: "unat (rg_off g) + length payload \<le> 2 * n" using g len b(2) t vi by linarith
  then have "unat (rg_off g) + unat (rg_size g) < 2 ^ LENGTH(32)" using g(2) len n(3) by simp
  note e = add_ck_nat[OF this]
  have cl: "cursor_len \<lparr>rc_start = rg_off g, rc_end = rg_off g + rg_size g\<rparr> = Some (length payload)"
    using sub_ck_nat[of "rg_off g" "rg_off g + rg_size g"] e(2) g(2) len by (simp add: cursor_len_def)
  have sz: "of_nat (length payload) = rg_size g" using g(2) len by (simp flip: g(2))
  have d1: "length (dat m1) = n" using w(5) m(2) by simp
  have "unat (rg_off g) + length payload \<le> 2 * length (dat m1)" "length payload \<le> length (dat m1)"
    using d1 le len b(2) t by simp_all
  from mem_write_at[OF w(2) this] obtain m' where
    m': "rm_write_at ops m1 (unat (rg_off g)) payload = Some m'" "wf m'" "ctl m' = ctl m1"
      "dat m' = ring_put (dat m1) (unat (rg_off g)) payload" by blast
  have "dat m' = packet_put (dat m) vi (pkt, payload) foot"
    using m'(4) g(1) d1 w(5) ring_put_mod_add[of "dat m1" vi "header_size pkt" payload] by (simp add: packet_put_def)
  moreover have "send r m p pkt payload = Some (m', p1, Inr ())"
    using w(1) e(1) cl m'(1) sz n(5) by (simp add: send_def range_writer_def writer_write_def)
  ultimately show ?thesis using w(3,4,6,7) m'(2,3) by (auto simp: total_len_def)
qed

end

subsection \<open>Receiving\<close>

lemma header_parts:
  assumes "packet_at d v x"
  shows "ring_get d v 16 = desc_bytes (packet_desc (fst x))"
    "ring_get d (v + 16) (length (extension_word (op_typ (fst x)))) = extension_word (op_typ (fst x))"
    "ring_get d (v + 16 + length (extension_word (op_typ (fst x)))) (length (extension_ranges (op_typ (fst x)))) =
       extension_ranges (op_typ (fst x))"
proof -
  have "ring_get d v (16 + (length (extension_word (op_typ (fst x))) + length (extension_ranges (op_typ (fst x))))) =
      desc_bytes (packet_desc (fst x)) @ extension_word (op_typ (fst x)) @ extension_ranges (op_typ (fst x))"
    using assms by (simp add: packet_at_def header_size_eq header_bytes_def add.assoc)
  then have "ring_get d v 16 = desc_bytes (packet_desc (fst x)) \<and>
     ring_get d (v + 16) (length (extension_word (op_typ (fst x)))) = extension_word (op_typ (fst x)) \<and>
     ring_get d (v + 16 + length (extension_word (op_typ (fst x)))) (length (extension_ranges (op_typ (fst x)))) =
       extension_ranges (op_typ (fst x))"
    by (simp add: ring_get_add)
  then show "ring_get d v 16 = desc_bytes (packet_desc (fst x))"
    "ring_get d (v + 16) (length (extension_word (op_typ (fst x)))) = extension_word (op_typ (fst x))"
    "ring_get d (v + 16 + length (extension_word (op_typ (fst x)))) (length (extension_ranges (op_typ (fst x)))) =
       extension_ranges (op_typ (fst x))" by simp_all
qed

lemma message_padding: "message_len pkt - header_size pkt = div_ceil (op_size pkt) 8 * 8"
proof -
  obtain k where k: "header_size pkt = k * 8" using header_size_mod[of pkt] by (metis mod_eq_0_iff_dvd dvd_def mult.commute)
  have "div_ceil (op_size pkt + k * 8) 8 = div_ceil (op_size pkt) 8 + k" using div_ceil_add_mult[of 8 k "op_size pkt"] by (simp add: ac_simps)
  then show ?thesis by (simp add: message_len_def k add_mult_distrib)
qed

text \<open>Where the external ranges of a received packet are.\<close>

definition ext_range :: "incoming_packet_type \<Rightarrow> ring_range option" where
  "ext_range t = (case t of GpaDirect _ g \<Rightarrow> Some g | TransferPages _ _ g \<Rightarrow> Some g | _ \<Rightarrow> None)"

definition ext_range_at :: "nat \<Rightarrow> outgoing_packet \<Rightarrow> incoming_packet_type \<Rightarrow> bool" where
  "ext_range_at off pkt t \<longleftrightarrow>
     (case ext_range t of
        None \<Rightarrow> extension_ranges (op_typ pkt) = []
      | Some g \<Rightarrow> length (extension_word (op_typ pkt)) = 8 \<and> unat (rg_off g) = off + 24 \<and>
          unat (rg_size g) = length (extension_ranges (op_typ pkt)))"

definition parsed_type :: "'m ring_mem_ops \<Rightarrow> 'm \<Rightarrow> u32 \<Rightarrow> packet_descriptor \<Rightarrow> (read_error + incoming_packet_type) option" where
  "parsed_type ops m ring_off desc =
     (if pd_packet_type desc = PACKET_TYPE_IN_BAND then Some (Inr InBand)
      else if pd_packet_type desc = PACKET_TYPE_COMPLETION then Some (Inr Completion)
      else if pd_packet_type desc = PACKET_TYPE_TRANSFER_PAGES then parse_transfer_pages ops m ring_off desc
      else if pd_packet_type desc = PACKET_TYPE_GPA_DIRECT then parse_gpa_direct ops m ring_off desc
      else Some (Inl (ReadCorrupt InvalidDescriptorType)))"

lemmas packet_types = PACKET_TYPE_IN_BAND_def PACKET_TYPE_COMPLETION_def PACKET_TYPE_TRANSFER_PAGES_def
  PACKET_TYPE_GPA_DIRECT_def PACKET_FLAG_COMPLETION_REQUESTED_def

context ring_mem
begin

lemma parsed_type_ok:
  assumes m: "wf m" "length (dat m) = n" and n: "n < 2147483648" "n mod 8 = 0"
    and off: "pos n v ring_off" "v mod 8 = 0" "valid_ptr n ring_off"
    and x: "packet_at (dat m) v x" "sendable (fst x) (snd x)" "message_len (fst x) + 8 \<le> n"
  shows "\<exists>t. parsed_type ops m ring_off (packet_desc (fst x)) = Some (Inr t) \<and> same_kind (op_typ (fst x)) t \<and>
    ext_range_at (v mod n) (fst x) t"
proof -
  let ?pkt = "fst x" and ?d = "packet_desc (fst x)"
  note h = header_parts[OF x(1)] and sd = sendable_desc[OF x(2)] and b = message_len_bounds[of "fst x"]
  have o: "unat ring_off = v mod n" "v mod n < n" "v mod n mod 8 = 0" using off by (auto simp: pos_def valid_ptr_def)
  have fits: "unat ring_off + 8 * unat (pd_data_offset8 ?d) < 2 ^ 32" using sd(1) b(2) x(3) off(3) n(1) by (simp add: valid_ptr_def)
  have ext: "\<exists>g. packet_range ring_off 3 (pd_data_offset8 ?d) = Some g \<and> unat (rg_off g) = v mod n + 24 \<and>
      unat (rg_size g) = length (extension_ranges (op_typ ?pkt)) \<and>
      rm_read_aligned ops m (unat ring_off + 16) 8 = Some (extension_word (op_typ ?pkt)) \<and> \<not> pd_data_offset8 ?d < 3"
    if w: "length (extension_word (op_typ ?pkt)) = 8"
  proof -
    have hs: "header_size ?pkt = 24 + length (extension_ranges (op_typ ?pkt))" using w by (simp add: header_size_eq)
    then have ge: "3 \<le> pd_data_offset8 ?d" using sd(1) by (simp add: word_le_nat_alt)
    obtain g where g: "packet_range ring_off 3 (pd_data_offset8 ?d) = Some g"
        "unat (rg_off g) = unat ring_off + 8 * unat (3 :: u16)" "unat (rg_size g) = 8 * (unat (pd_data_offset8 ?d) - unat (3 :: u16))"
      using packet_range_ok[OF fits ge] .
    have "rm_read_aligned ops m (unat ring_off + 16) 8 = Some (ring_get (dat m) (unat ring_off + 16) 8)"
      using off(3) m x(3) hs b(2) by (intro mem_read_aligned) (auto simp: valid_ptr_def)
    then show ?thesis using g ge o(1) h(2) w hs sd(1) m(2) ring_get_mod_add[of "dat m" v 16 8]
      by (auto simp: not_less diff_mult_distrib2)
  qed
  show ?thesis
  proof (cases "op_typ ?pkt")
    case (OutGpaDirect rs)
    have rs: "rs \<noteq> []" "8 * length rs < 2 ^ 16"
      using x(2) OutGpaDirect by (auto simp: sendable_def header_size_eq extension_ranges_def length_concat comp_def
          paged_range_bytes_def sum_list_triv sum_list_addf)
    then have cnt: "unat (of_nat (length rs) :: u32) = length rs" by (simp add: unat_of_nat)
    then have nz: "of_nat (length rs) \<noteq> (0 :: u32)" using rs(1) by (metis length_0_conv unat_0)
    from ext OutGpaDirect show ?thesis
      using cnt nz rs(1)
      by (auto simp: parsed_type_def packet_desc_def packet_header_def packet_types parse_gpa_direct_def extension_word_def
          GPA_DIRECT_HEADER_SIZE8_def DESCRIPTOR_SIZE8_def same_kind_def ext_range_at_def ext_range_def)
  next
    case (OutTransferPages i rs)
    have "8 * length rs < 2 ^ 16"
      using x(2) OutTransferPages by (auto simp: sendable_def header_size_eq extension_ranges_def length_concat_tp)
    then have cnt: "unat (of_nat (length rs) :: u32) = length rs" by (simp add: unat_of_nat)
    from ext OutTransferPages show ?thesis
      using cnt
      by (auto simp: parsed_type_def packet_desc_def packet_header_def packet_types parse_transfer_pages_def extension_word_def
          TRANSFER_PAGE_HEADER_SIZE8_def DESCRIPTOR_SIZE8_def same_kind_def ext_range_at_def ext_range_def)
  qed (auto simp: parsed_type_def packet_desc_def packet_header_def packet_types same_kind_def ext_range_at_def ext_range_def
      extension_ranges_def)
qed
end

context ring_mem
begin

lemma parse_sent:
  assumes m: "wf m" "length (dat m) = n" and n: "n < 2147483648" "n mod 8 = 0"
    and off: "pos n v ring_off" "v mod 8 = 0" "valid_ptr n ring_off"
    and x: "packet_at (dat m) v x" "sendable (fst x) (snd x)" "message_len (fst x) + 8 \<le> n" "message_len (fst x) \<le> unat avail"
  shows "\<exists>len inc. parse_packet ops m ring_off avail = Some (Inr (len, inc)) \<and> unat len = message_len (fst x) \<and>
    ip_transaction_id inc = expected_id (fst x) \<and> same_kind (op_typ (fst x)) (ip_typ inc) \<and>
    ext_range_at (v mod n) (fst x) (ip_typ inc) \<and>
    unat (rg_off (ip_payload inc)) = v mod n + header_size (fst x) \<and>
    unat (rg_size (ip_payload inc)) = message_len (fst x) - header_size (fst x)"
proof -
  let ?d = "packet_desc (fst x)"
  note sd = sendable_desc[OF x(2)] and b = message_len_bounds[of "fst x"]
  have o: "unat ring_off = v mod n" "unat ring_off < n" "unat ring_off mod 8 = 0" using off by (auto simp: pos_def valid_ptr_def)
  have rd: "rm_read_aligned ops m (unat ring_off) 16 = Some (desc_bytes ?d)"
    using mem_read_aligned[OF m(1), of "unat ring_off" 16] o m(2) x(3) b(3) ring_get_mod[of "dat m" v 16]
      header_parts(1)[OF x(1)] by simp
  from parsed_type_ok[OF m n off x(1-3)] obtain t where t: "parsed_type ops m ring_off ?d = Some (Inr t)"
    "same_kind (op_typ (fst x)) t" "ext_range_at (v mod n) (fst x) t" by blast
  define l where "l = (ucast (pd_length8 ?d) * 8 :: u32)"
  have "unat (pd_length8 ?d) < 2 ^ 16" using unsigned_less[of "pd_length8 ?d"] by simp
  then have "unat (ucast (pd_length8 ?d) :: u32) * unat (8 :: u32) < 2 ^ LENGTH(32)" by (simp add: unat_ucast_up)
  note len = mul_ck_nat[OF this, folded l_def]
  have ul: "unat l = message_len (fst x)" using len(2) sd(2) by (simp add: unat_ucast_up)
  have le: "pd_data_offset8 ?d \<le> pd_length8 ?d" "\<not> pd_data_offset8 ?d < 2" "\<not> avail < l"
    using sd b(2) x(4) ul by (simp_all add: word_le_nat_alt word_less_nat_alt not_less header_size_eq)
  have "unat ring_off + 8 * unat (pd_length8 ?d) < 2 ^ 32" using sd(2) x(3) o(2) n(1) by simp
  from packet_range_ok[OF this le(1)] obtain g where g: "packet_range ring_off (pd_data_offset8 ?d) (pd_length8 ?d) = Some g"
    "unat (rg_off g) = unat ring_off + 8 * unat (pd_data_offset8 ?d)"
    "unat (rg_size g) = 8 * (unat (pd_length8 ?d) - unat (pd_data_offset8 ?d))" .
  have fl: "pd_flags ?d AND NOT PACKET_FLAG_COMPLETION_REQUESTED = 0"
    by (cases "op_typ (fst x)") (simp_all add: packet_desc_def packet_header_def packet_types)
  have tid: "(if pd_flags ?d AND PACKET_FLAG_COMPLETION_REQUESTED \<noteq> 0 \<or> pd_packet_type ?d = PACKET_TYPE_COMPLETION
      then Some (pd_transaction_id ?d) else None) = expected_id (fst x)"
    by (cases "op_typ (fst x)") (simp_all add: packet_desc_def packet_header_def packet_types expected_id_def)
  have "parse_packet ops m ring_off avail = Some (Inr (l, \<lparr>ip_transaction_id = expected_id (fst x), ip_typ = t, ip_payload = g\<rparr>))"
    unfolding parse_packet_def parsed_type_def[symmetric] rd
    using len(1) le(2,3) leD[OF le(1)] fl g(1) t(1) tid by (simp add: Let_def DESCRIPTOR_SIZE8_def split del: if_split cong: if_cong)
  then show ?thesis using ul t(2,3) g(2,3) sd o(1) by (auto simp: diff_mult_distrib2)
qed

lemma read_delivers:
  assumes r: "ring_for ops n r" and m: "wf m" "length (dat m) = n" and v: "v mod 8 = 0"
    and x: "packet_at (dat m) v x" "sendable (fst x) (snd x)" "message_len (fst x) + 8 \<le> n"
    and inc: "ip_transaction_id inc = expected_id (fst x)" "same_kind (op_typ (fst x)) (ip_typ inc)"
      "ext_range_at (v mod n) (fst x) (ip_typ inc)"
      "unat (rg_off (ip_payload inc)) = v mod n + header_size (fst x)"
      "unat (rg_size (ip_payload inc)) = message_len (fst x) - header_size (fst x)"
  shows "\<exists>ext bytes. (case ip_typ inc of GpaDirect _ g \<Rightarrow> read_range r m g | TransferPages _ _ g \<Rightarrow> read_range r m g
      | _ \<Rightarrow> Some []) = Some ext \<and> read_range r m (ip_payload inc) = Some bytes \<and> delivers x (inc, ext, bytes)"
proof -
  let ?pkt = "fst x"
  note n = ring_for_size[OF r] and b = message_len_bounds[of ?pkt]
  have vn: "v mod n < n" using n(2) by simp
  have len: "length (snd x) = op_size ?pkt" using x(2) by (simp add: sendable_def)
  have "range_within 0 (2 * n) (ip_payload inc)" using inc(4,5) b(2) x(3) vn unfolding range_within_def by linarith
  from read_range_ok[OF r m this] have pay: "read_range r m (ip_payload inc) =
      Some (ring_get (dat m) (v + header_size ?pkt) (message_len ?pkt - header_size ?pkt))"
    using inc(4,5) m(2) ring_get_mod_add[of "dat m" v] by simp
  have "message_len ?pkt - header_size ?pkt = op_size ?pkt + (message_len ?pkt - header_size ?pkt - op_size ?pkt)"
    using b(2) by simp
  then have "take (op_size ?pkt) (ring_get (dat m) (v + header_size ?pkt) (message_len ?pkt - header_size ?pkt)) =
      ring_get (dat m) (v + header_size ?pkt) (op_size ?pkt)"
    by (metis append_eq_conv_conj length_ring_get ring_get_add)
  then have pre: "take (length (snd x)) (ring_get (dat m) (v + header_size ?pkt) (message_len ?pkt - header_size ?pkt)) = snd x"
    using x(1) len by (simp add: packet_at_def)
  have ext: "read_range r m g = Some (extension_ranges (op_typ ?pkt))" if "ext_range (ip_typ inc) = Some g" for g
  proof -
    have g: "length (extension_word (op_typ ?pkt)) = 8" "unat (rg_off g) = v mod n + 24"
      "unat (rg_size g) = length (extension_ranges (op_typ ?pkt))"
      using inc(3) that by (auto simp: ext_range_at_def)
    have "24 + length (extension_ranges (op_typ ?pkt)) \<le> n" using g(1) b(2) x(3) by (simp add: header_size_eq)
    then have "range_within 0 (2 * n) g" using g(2,3) vn unfolding range_within_def by linarith
    from read_range_ok[OF r m this] show ?thesis
      using g header_parts(3)[OF x(1)] m(2) ring_get_mod_add[of "dat m" v 24] by (simp add: add.commute)
  qed
  have "(case ip_typ inc of GpaDirect _ g \<Rightarrow> read_range r m g | TransferPages _ _ g \<Rightarrow> read_range r m g | _ \<Rightarrow> Some []) =
      Some (extension_ranges (op_typ ?pkt))"
    using ext inc(3) by (cases "ip_typ inc") (auto simp: ext_range_def ext_range_at_def)
  then show ?thesis
    using pay pre inc(1,2) len message_padding[of ?pkt] by (auto simp: delivers_def case_prod_beta)
qed

lemma receive_next:
  assumes r: "ring_for ops n r" and m: "wf m" "length (dat m) = n"
    and p: "pos n v (io_next_out p)" "v mod 8 = 0" and inp: "pos n vin inp" "vin mod 8 = 0"
    and x: "packet_at (dat m) v x" "sendable (fst x) (snd x)" "v + total_len x \<le> vin" "vin + 8 \<le> v + n"
  shows "\<exists>nx inc. read_next r m p inp = Some (p\<lparr>io_cached_in := inp, io_next_out := nx\<rparr>, Inr inc) \<and>
    pos n (v + total_len x) nx \<and>
    (\<exists>ext bytes. (case ip_typ inc of GpaDirect _ g \<Rightarrow> read_range r m g | TransferPages _ _ g \<Rightarrow> read_range r m g
      | _ \<Rightarrow> Some []) = Some ext \<and> read_range r m (ip_payload inc) = Some bytes \<and> delivers x (inc, ext, bytes))"
proof -
  note n = ring_for_size[OF r] and b = message_len_bounds[of "fst x"]
  have tl: "message_len (fst x) + 8 = total_len x" by (simp add: total_len_def)
  have vp: "valid_ptr n (io_next_out p)" "valid_ptr n inp" using pos_valid[OF p] pos_valid[OF inp] n(1,2) by blast+
  have ne: "inp \<noteq> io_next_out p" using pos_eq[OF inp(1) p(1)] x(3,4) total_len_bounds(2)[of x] by simp
  from available_ok[OF r vp(2,1) ne] obtain a where a: "available r inp (io_next_out p) = Some a"
    "unat a = ring_used n inp (io_next_out p)" .
  have ua: "unat a = vin - v" using a(2) pos_used[OF inp(1) p(1)] x(3,4) by simp
  have fit: "message_len (fst x) + 8 \<le> n" "message_len (fst x) \<le> unat a" "\<not> a < 16"
    using x(3,4) tl ua b(3) by (simp_all add: word_less_nat_alt)
  from parse_sent[OF m n(3,1) p vp(1) x(1,2) fit(1,2)] obtain len inc where
    ps: "parse_packet ops m (io_next_out p) a = Some (Inr (len, inc))" "unat len = message_len (fst x)" and
    inc: "ip_transaction_id inc = expected_id (fst x)" "same_kind (op_typ (fst x)) (ip_typ inc)"
      "ext_range_at (v mod n) (fst x) (ip_typ inc)"
      "unat (rg_off (ip_payload inc)) = v mod n + header_size (fst x)"
      "unat (rg_size (ip_payload inc)) = message_len (fst x) - header_size (fst x)" by blast
  have "unat len + unat (8 :: u32) < 2 ^ LENGTH(32)" using ps(2) fit(1) n(3) by simp
  note t = add_ck_nat[OF this]
  have ut: "unat (len + 8) = total_len x" using t(2) ps(2) tl by simp
  have "unat (len + 8) mod 8 = 0" "unat (len + 8) \<le> n" using ut total_len_bounds(1)[of x] tl fit(1) by simp_all
  from add_pointer_ok[OF r vp(1) this] obtain nx where nx: "add_pointer r (io_next_out p) (len + 8) = Some nx"
    "unat nx = (unat (io_next_out p) + unat (len + 8)) mod n" .
  have "pos n (v + total_len x) nx" using nx(2) ut p(1) by (simp add: pos_def mod_simps)
  moreover have "read_next r m p inp = Some (p\<lparr>io_cached_in := inp, io_next_out := nx\<rparr>, Inr inc)"
    using a(1) fit(3) ps(1) t(1) nx(1) n(5) by (simp add: read_next_def Let_def)
  ultimately show ?thesis using read_delivers[OF r m p(2) x(1,2) fit(1) inc] by blast
qed
end

subsection \<open>The simulation relation\<close>

text \<open>The packets of the channel lie one after the other from position \<open>v\<close>, where the reader has
  committed. The writer has last seen the reader at \<open>w\<close>, the reader has last seen \<open>k\<close> of the
  available packets.\<close>

definition pointers_at :: "nat \<Rightarrow> nat \<Rightarrow> nat \<Rightarrow> nat \<Rightarrow> u32 list \<Rightarrow> incoming_offset \<Rightarrow> outgoing_offset \<Rightarrow> chan \<Rightarrow> bool" where
  "pointers_at n v w k words ip op c \<longleftrightarrow>
     pos n v (words ! CTL_OUTP) \<and> io_committed_out ip = words ! CTL_OUTP \<and>
     pos n (v + tot (ch_read c)) (io_next_out ip) \<and>
     pos n (v + tot (ch_read c) + tot (take k (ch_avail c))) (io_cached_in ip) \<and>
     pos n (v + tot (ch_read c) + tot (ch_avail c)) (words ! CTL_INP) \<and> oo_committed_in op = words ! CTL_INP \<and>
     pos n (v + chan_used c) (oo_next_in op) \<and> pos n w (oo_cached_out op)"

definition packets_rel :: "u8 list \<Rightarrow> nat \<Rightarrow> chan \<Rightarrow> bool" where
  "packets_rel d v c \<longleftrightarrow> packets_at d v (ch_read c @ ch_avail c @ ch_pending c) \<and>
     (\<forall>x\<in>set (ch_read c @ ch_avail c @ ch_pending c). sendable (fst x) (snd x))"

definition ring_rel ::
  "('m \<Rightarrow> bool) \<Rightarrow> ('m \<Rightarrow> u8 list) \<Rightarrow> ('m \<Rightarrow> u32 list) \<Rightarrow> nat \<Rightarrow> 'm \<times> incoming_offset \<times> outgoing_offset \<Rightarrow> chan \<Rightarrow> bool" where
  "ring_rel ok dat ctl n s c \<longleftrightarrow>
     (case s of (m, ip, op) \<Rightarrow>
        ok m \<and> length (dat m) = n \<and> ctl m ! CTL_INTERRUPT_MASK = ch_mask c \<and>
        ctl m ! CTL_PENDING_SEND_SIZE = ch_pending_size c \<and>
        (\<exists>v w k. v mod 8 = 0 \<and> w mod 8 = 0 \<and> w \<le> v \<and> v + chan_used c + 8 \<le> w + n \<and>
           pointers_at n v w k (ctl m) ip op c \<and> packets_rel (dat m) v c))"

lemmas ctl_words = CTL_INP_def CTL_OUTP_def CTL_INTERRUPT_MASK_def CTL_PENDING_SEND_SIZE_def

lemma ring_relE:
  assumes "ring_rel ok dat ctl n (m, ip, op) c"
  obtains v w k where "ok m" "length (dat m) = n" "ctl m ! CTL_INTERRUPT_MASK = ch_mask c"
    "ctl m ! CTL_PENDING_SEND_SIZE = ch_pending_size c" "v mod 8 = 0" "w mod 8 = 0" "w \<le> v" "v + chan_used c + 8 \<le> w + n"
    "pointers_at n v w k (ctl m) ip op c" "packets_rel (dat m) v c"
  using assms unfolding ring_rel_def prod.case by (elim conjE exE) (rule that)

lemma ring_relI:
  assumes "ok m" "length (dat m) = n" "ctl m ! CTL_INTERRUPT_MASK = ch_mask c"
    "ctl m ! CTL_PENDING_SEND_SIZE = ch_pending_size c" "v mod 8 = 0" "w mod 8 = 0" "w \<le> v" "v + chan_used c + 8 \<le> w + n"
    "pointers_at n v w k (ctl m) ip op c" "packets_rel (dat m) v c"
  shows "ring_rel ok dat ctl n (m, ip, op) c"
  unfolding ring_rel_def prod.case by (intro conjI exI[of _ v] exI[of _ w] exI[of _ k]) (fact assms)+

lemma positions_mod:
  assumes "v mod 8 = 0"
  shows "(v + tot xs) mod 8 = 0" "(v + tot xs + tot ys) mod 8 = 0" "(v + chan_used c) mod 8 = 0"
proof -
  have d: "8 dvd v" "8 dvd tot zs" for zs using assms tot_mod[of zs] by (auto simp: mod_eq_0_iff_dvd)
  then show "(v + tot xs) mod 8 = 0" "(v + tot xs + tot ys) mod 8 = 0" "(v + chan_used c) mod 8 = 0"
    by (simp_all add: mod_eq_0_iff_dvd chan_used_def)
qed

context ring_mem
begin

lemma send_sim:
  assumes r: "ring_for ops n r" and rel: "ring_rel wf dat ctl n (m, ip, op) c" and s: "sendable pkt payload"
  shows "\<exists>t out. ring_step r (m, ip, op) (Send pkt payload) = Some (t, out) \<and>
    ring_rel wf dat ctl n t (fst (chan_step n c (Send pkt payload))) \<and> out_matches (snd (chan_step n c (Send pkt payload))) out"
proof -
  from rel obtain v w k where m: "wf m" "length (dat m) = n" and words: "ctl m ! CTL_INTERRUPT_MASK = ch_mask c"
    "ctl m ! CTL_PENDING_SEND_SIZE = ch_pending_size c" and v: "v mod 8 = 0" "w mod 8 = 0" "w \<le> v" "v + chan_used c + 8 \<le> w + n"
    and ptr: "pointers_at n v w k (ctl m) ip op c" and pk: "packets_rel (dat m) v c" by (rule ring_relE)
  let ?T = "total_len (pkt, payload)" and ?vi = "v + chan_used c"
  have T: "?T = message_len pkt + 8" by (simp add: total_len_def)
  have p: "pos n ?vi (oo_next_in op)" "pos n w (oo_cached_out op)" "pos n v (ctl m ! CTL_OUTP)"
    using ptr by (auto simp: pointers_at_def)
  have vi: "?vi mod 8 = 0" using positions_mod(3)[OF v(1)] .
  have "message_len pkt < 8 * 2 ^ 16" using s by (simp add: sendable_def div_less_iff_less_mult)
  then have ut: "unat (of_nat (message_len pkt + 8) :: u32) = ?T" by (simp add: T unat_of_nat del: of_nat_add)
  note sp = find_space_ok[OF r m(1) p v(3) _ v(4) vi v(2,1), of "of_nat (message_len pkt + 8)", unfolded ut]
  consider "n - 8 \<le> ?T" | "\<not> n - 8 \<le> ?T" "n - 8 - chan_used c < ?T" | "\<not> n - 8 \<le> ?T" "\<not> n - 8 - chan_used c < ?T" by blast
  then show ?thesis
  proof cases
    case 1
    then show ?thesis using send_full(1)[OF r m(1) s] rel T by simp
  next
    case 2
    then have "message_len pkt + 16 < n" using T by simp
    then show ?thesis using send_full(2)[OF r m(1) s] sp 2 rel by simp
  next
    case 3
    then have t: "message_len pkt + 16 < n" using T by simp
    from sp 3 obtain q w' where q: "find_space r m op (of_nat (message_len pkt + 8)) = Some (Inr q)" "pos n w' q" "w' mod 8 = 0"
      "w \<le> w'" "w' \<le> v" "?vi + ?T + 8 \<le> w' + n" by auto
    from send_fits[OF r m s t p(1) vi q(1)] obtain m' nx foot where
      m': "send r m op pkt payload = Some (m', op\<lparr>oo_cached_out := q, oo_next_in := nx\<rparr>, Inr ())" "wf m'" "ctl m' = ctl m"
        "length foot = 8" "dat m' = packet_put (dat m) ?vi (pkt, payload) foot" "pos n (?vi + ?T) nx" by blast
    let ?c = "c\<lparr>ch_pending := ch_pending c @ [(pkt, payload)]\<rparr>"
    have sx: "sendable (fst (pkt, payload)) (snd (pkt, payload))" "?T \<le> length (dat m)" using s t T m(2) by simp_all
    note put = packet_put_at[OF sx m'(4), where v = ?vi, folded m'(5)]
    have used: "chan_used ?c = chan_used c + ?T" by (simp add: chan_used_def)
    have "packets_at (dat m') v (ch_read c @ ch_avail c @ ch_pending c)"
    proof (rule packets_at_frame)
      show "\<forall>x\<in>set (ch_read c @ ch_avail c @ ch_pending c). sendable (fst x) (snd x)"
        "packets_at (dat m) v (ch_read c @ ch_avail c @ ch_pending c)" using pk by (auto simp: packets_rel_def)
      fix a j assume a: "v \<le> a" "a + j \<le> v + tot (ch_read c @ ch_avail c @ ch_pending c)"
      have "?vi + ?T \<le> a + n" using a(1) q(5,6) by linarith
      then show "ring_get (dat m') a j = ring_get (dat m) a j" using a(2) m(2) by (intro put(3)) (auto simp: chan_used_def)
    qed
    then have "packets_rel (dat m') v ?c"
      using put(1) pk s by (auto simp: packets_rel_def chan_used_def add.assoc)
    moreover have "pointers_at n v w' k (ctl m') ip (op\<lparr>oo_cached_out := q, oo_next_in := nx\<rparr>) ?c"
      using ptr q(2) m'(3,6) used by (simp add: pointers_at_def add.assoc)
    ultimately have "ring_rel wf dat ctl n (m', ip, op\<lparr>oo_cached_out := q, oo_next_in := nx\<rparr>) ?c"
      using m'(2,3) put(2) m(2) words v(1) q(3,5,6) used by (intro ring_relI[where v = v and w = w' and k = k]) auto
    then show ?thesis using 3 m'(1) by simp
  qed
qed
end

lemma pos_shift: "pos n a p \<Longrightarrow> a = b \<Longrightarrow> pos n b p"
  by simp

lemma pos_unique: "pos n a p \<Longrightarrow> pos n a q \<Longrightarrow> p = q"
  by (simp add: pos_def word_unat_eq_iff)

context ring_mem
begin

lemma receive_sim:
  assumes r: "ring_for ops n r" and rel: "ring_rel wf dat ctl n (m, ip, op) c"
  shows "\<exists>t out. ring_step r (m, ip, op) Receive = Some (t, out) \<and>
    ring_rel wf dat ctl n t (fst (chan_step n c Receive)) \<and> out_matches (snd (chan_step n c Receive)) out"
proof -
  from rel obtain v w k where m: "wf m" "length (dat m) = n" and words: "ctl m ! CTL_INTERRUPT_MASK = ch_mask c"
    "ctl m ! CTL_PENDING_SEND_SIZE = ch_pending_size c" and v: "v mod 8 = 0" "w mod 8 = 0" "w \<le> v" "v + chan_used c + 8 \<le> w + n"
    and ptr: "pointers_at n v w k (ctl m) ip op c" and pk: "packets_rel (dat m) v c" by (rule ring_relE)
  note n = ring_for_size[OF r]
  let ?v = "v + tot (ch_read c)" and ?a = "ch_avail c" and ?in = "ctl m ! CTL_INP"
  have p: "pos n ?v (io_next_out ip)" "pos n (?v + tot (take k ?a)) (io_cached_in ip)" "pos n (?v + tot ?a) ?in"
    using ptr by (auto simp: pointers_at_def)
  have ld: "control_load r m CTL_INP = Some ?in" using load_ok[OF r m(1)] by (simp add: CTL_INP_def)
  have vl: "validate r ?in = Inr ?in" using validate_iff[OF r] pos_valid[OF p(3) positions_mod(2)[OF v(1)]] n by simp
  show ?thesis
  proof (cases ?a)
    case Nil
    then have "io_cached_in ip = io_next_out ip" "?in = io_next_out ip" using p pos_unique by auto
    then show ?thesis using rel Nil ld vl by (simp add: receive_def read_packet_def)
  next
    case (Cons x xs)
    have x: "packet_at (dat m) ?v x" "sendable (fst x) (snd x)" using pk by (auto simp: packets_rel_def Cons)
    have room: "?v + tot ?a + 8 \<le> ?v + n" using v(3,4) by (simp add: chan_used_def)
    have le: "tot (take k ?a) \<le> tot ?a" by (rule tot_take_le)
    obtain inp vin j where inp: "read_packet r m ip = read_next r m ip inp" "pos n vin inp" "vin mod 8 = 0"
      "?v + total_len x \<le> vin" "vin + 8 \<le> ?v + n" "vin = ?v + total_len x + tot (take j xs)"
    proof (cases k)
      case 0
      then have eq: "io_cached_in ip = io_next_out ip" using p(1,2) pos_unique by auto
      have "?in \<noteq> io_next_out ip" using pos_eq[OF p(3,1)] room Cons total_len_bounds(2)[of x] by simp
      then show thesis
        using that[of ?in "?v + tot ?a" "length xs"] eq ld vl p(3) positions_mod(2)[OF v(1), of "ch_read c" ?a] room Cons
        by (simp add: read_packet_def add.assoc)
    next
      case (Suc j)
      then have "io_cached_in ip \<noteq> io_next_out ip"
        using pos_eq[OF p(2,1)] room le Cons total_len_bounds(2)[of x] by simp
      then show thesis
        using that[of "io_cached_in ip" "?v + tot (take k ?a)" j] p(2) positions_mod(2)[OF v(1), of "ch_read c" "take k ?a"] room le Cons Suc
        by (simp add: read_packet_def add.assoc)
    qed
    from receive_next[OF r m p(1) positions_mod(1)[OF v(1)] inp(2,3) x inp(4,5)] obtain nx inc ext bytes where
      rn: "read_next r m ip inp = Some (ip\<lparr>io_cached_in := inp, io_next_out := nx\<rparr>, Inr inc)" "pos n (?v + total_len x) nx"
        "(case ip_typ inc of GpaDirect _ g \<Rightarrow> read_range r m g | TransferPages _ _ g \<Rightarrow> read_range r m g | _ \<Rightarrow> Some []) = Some ext"
        "read_range r m (ip_payload inc) = Some bytes" "delivers x (inc, ext, bytes)" by blast
    let ?c = "c\<lparr>ch_read := ch_read c @ [x], ch_avail := xs\<rparr>" and ?ip = "ip\<lparr>io_cached_in := inp, io_next_out := nx\<rparr>"
    have used: "chan_used ?c = chan_used c" by (simp add: chan_used_def Cons)
    have "pointers_at n v w j (ctl m) ?ip op ?c"
      using ptr rn(2) inp(2,6) used by (simp add: pointers_at_def Cons add.assoc)
    moreover have "packets_rel (dat m) v ?c" using pk by (auto simp: packets_rel_def Cons add.assoc)
    ultimately have "ring_rel wf dat ctl n (m, ?ip, op) ?c"
      using m words v used by (intro ring_relI[where v = v and w = w and k = j]) auto
    then show ?thesis using rn inp(1) Cons by (simp add: receive_def)
  qed
qed

lemma commit_read_sim:
  assumes r: "ring_for ops n r" and rel: "ring_rel wf dat ctl n (m, ip, op) c"
  shows "\<exists>t out. ring_step r (m, ip, op) CommitRead = Some (t, out) \<and>
    ring_rel wf dat ctl n t (fst (chan_step n c CommitRead)) \<and> out_matches (snd (chan_step n c CommitRead)) out"
proof -
  from rel obtain v w k where m: "wf m" "length (dat m) = n" and words: "ctl m ! CTL_INTERRUPT_MASK = ch_mask c"
    "ctl m ! CTL_PENDING_SEND_SIZE = ch_pending_size c" and v: "v mod 8 = 0" "w mod 8 = 0" "w \<le> v" "v + chan_used c + 8 \<le> w + n"
    and ptr: "pointers_at n v w k (ctl m) ip op c" and pk: "packets_rel (dat m) v c" by (rule ring_relE)
  note n = ring_for_size[OF r]
  let ?v = "v + tot (ch_read c)" and ?in = "ctl m ! CTL_INP"
  have p: "pos n v (io_committed_out ip)" "pos n ?v (io_next_out ip)" "pos n (?v + tot (ch_avail c)) ?in"
    using ptr by (auto simp: pointers_at_def)
  have room: "tot (ch_read c) + tot (ch_avail c) + 8 \<le> n" using v(3,4) by (simp add: chan_used_def)
  have "io_next_out ip = io_committed_out ip \<longleftrightarrow> ch_read c = []" using pos_eq[OF p(2,1)] room by simp
  then have eq: "io_committed_out ip = io_next_out ip \<longleftrightarrow> ch_read c = []" by auto
  show ?thesis
  proof (cases "ch_read c = []")
    case True
    then show ?thesis using eq rel by (simp add: commit_read_def)
  next
    case False
    obtain m' where m': "control_store r m CTL_OUTP (io_next_out ip) = Some m'" "wf m'" "dat m' = dat m"
      "ctl m' = (ctl m)[CTL_OUTP := io_next_out ip]"
      using store_ok[OF r m(1), of CTL_OUTP "io_next_out ip"] by (auto simp: CTL_OUTP_def)
    have len: "length (ctl m) = 32" using mem_control_len[OF m(1)] .
    have words': "ctl m' ! CTL_INP = ?in" "ctl m' ! CTL_PENDING_SEND_SIZE = ch_pending_size c" "ctl m' ! CTL_OUTP = io_next_out ip"
      "ctl m' ! CTL_INTERRUPT_MASK = ch_mask c"
      using m'(4) words len by (simp_all add: ctl_words)
    have ld: "control_load r m' CTL_PENDING_SEND_SIZE = Some (ch_pending_size c)" "control_load r m' CTL_INP = Some ?in"
      using load_ok[OF r m'(2)] words' by (simp_all add: ctl_words)
    have vl: "validate r ?in = Inr ?in" using validate_iff[OF r] pos_valid[OF p(3) positions_mod(2)[OF v(1)]] n by simp
    obtain f where f: "inner_free r ?in (io_committed_out ip) = Some f" "unat f = n - 8 - (?v + tot (ch_avail c) - v)"
      by (rule free_pos[OF r p(3,1) positions_mod(2)[OF v(1)] v(1)]) (use room in auto)
    obtain g where g: "inner_free r ?in (io_next_out ip) = Some g" "unat g = n - 8 - (?v + tot (ch_avail c) - ?v)"
      by (rule free_pos[OF r p(3,2) positions_mod(2)[OF v(1)] positions_mod(1)[OF v(1)]]) (use room in auto)
    let ?c = "c\<lparr>ch_read := []\<rparr>" and ?ip = "ip\<lparr>io_committed_out := io_next_out ip\<rparr>"
    have used: "?v + chan_used ?c = v + chan_used c" by (simp add: chan_used_def)
    have "pos n (?v + chan_used ?c) (oo_next_in op)" using ptr unfolding used by (simp add: pointers_at_def)
    then have "pointers_at n ?v w k (ctl m') ?ip op ?c"
      using ptr p(2) words' unfolding pointers_at_def by simp
    moreover have "packets_rel (dat m') ?v ?c" using pk m'(3) by (auto simp: packets_rel_def)
    ultimately have R: "ring_rel wf dat ctl n (m', ?ip, op) ?c"
      using m m'(2,3) words' v used positions_mod(1)[OF v(1)] by (intro ring_relI[where v = ?v and w = w and k = k]) auto
    have "commit_read r m ip = Some (m', ?ip, (let size = unat (ch_pending_size c AND NOT 7) in
        size \<noteq> 0 \<and> n - 8 - (tot (ch_read c) + tot (ch_avail c)) < size \<and> size \<le> n - 8 - tot (ch_avail c)))"
      using False eq m'(1) ld vl f g
      by (cases "ch_pending_size c AND NOT 7 = 0") (auto simp: commit_read_def Let_def word_less_nat_alt word_le_nat_alt)
    then show ?thesis using R False by simp
  qed
qed
end

context ring_mem
begin

lemma commit_write_sim:
  assumes r: "ring_for ops n r" and rel: "ring_rel wf dat ctl n (m, ip, op) c"
  shows "\<exists>t out. ring_step r (m, ip, op) CommitWrite = Some (t, out) \<and>
    ring_rel wf dat ctl n t (fst (chan_step n c CommitWrite)) \<and> out_matches (snd (chan_step n c CommitWrite)) out"
proof -
  from rel obtain v w k where m: "wf m" "length (dat m) = n" and words: "ctl m ! CTL_INTERRUPT_MASK = ch_mask c"
    "ctl m ! CTL_PENDING_SEND_SIZE = ch_pending_size c" and v: "v mod 8 = 0" "w mod 8 = 0" "w \<le> v" "v + chan_used c + 8 \<le> w + n"
    and ptr: "pointers_at n v w k (ctl m) ip op c" and pk: "packets_rel (dat m) v c" by (rule ring_relE)
  let ?vi = "v + tot (ch_read c) + tot (ch_avail c)"
  have p: "pos n v (ctl m ! CTL_OUTP)" "pos n ?vi (oo_committed_in op)" "pos n (v + chan_used c) (oo_next_in op)"
    using ptr by (auto simp: pointers_at_def)
  have room: "chan_used c + 8 \<le> n" "?vi \<le> v + chan_used c" using v(3,4) by (auto simp: chan_used_def)
  have "oo_next_in op = oo_committed_in op \<longleftrightarrow> v + chan_used c = ?vi" using pos_eq[OF p(3,2)] room by simp
  then have eq: "oo_committed_in op = oo_next_in op \<longleftrightarrow> ch_pending c = []" by (auto simp: chan_used_def)
  have "oo_committed_in op = ctl m ! CTL_OUTP \<longleftrightarrow> ?vi = v" using pos_eq[OF p(2,1)] room by (simp add: chan_used_def)
  then have empty: "ctl m ! CTL_OUTP = oo_committed_in op \<longleftrightarrow> ch_read c = [] \<and> ch_avail c = []" by auto
  show ?thesis
  proof (cases "ch_pending c = []")
    case True
    then show ?thesis using eq rel by (simp add: commit_write_def)
  next
    case False
    obtain m' where m': "control_store r m CTL_INP (oo_next_in op) = Some m'" "wf m'" "dat m' = dat m"
      "ctl m' = (ctl m)[CTL_INP := oo_next_in op]"
      using store_ok[OF r m(1), of CTL_INP "oo_next_in op"] by (auto simp: CTL_INP_def)
    have words': "ctl m' ! CTL_INP = oo_next_in op" "ctl m' ! CTL_PENDING_SEND_SIZE = ch_pending_size c"
      "ctl m' ! CTL_OUTP = ctl m ! CTL_OUTP" "ctl m' ! CTL_INTERRUPT_MASK = ch_mask c"
      using m'(4) words mem_control_len[OF m(1)] by (simp_all add: ctl_words)
    have ld: "control_load r m' CTL_INTERRUPT_MASK = Some (ch_mask c)" "control_load r m' CTL_OUTP = Some (ctl m ! CTL_OUTP)"
      using load_ok[OF r m'(2)] words' by (simp_all add: ctl_words)
    let ?c = "c\<lparr>ch_avail := ch_avail c @ ch_pending c, ch_pending := []\<rparr>" and ?op = "op\<lparr>oo_committed_in := oo_next_in op\<rparr>"
    have used: "chan_used ?c = chan_used c" "tot (ch_read c) + (tot (ch_avail c) + tot (ch_pending c)) = chan_used c"
      by (simp_all add: chan_used_def)
    have tk: "tot (take (min k (length (ch_avail c))) (ch_avail c @ ch_pending c)) = tot (take k (ch_avail c))"
      by (simp add: min_def)
    have "pointers_at n v w (min k (length (ch_avail c))) (ctl m') ip ?op ?c"
      using ptr words' used tk p(3) by (simp add: pointers_at_def add.assoc)
    moreover have "packets_rel (dat m') v ?c" using pk m'(3) by (auto simp: packets_rel_def)
    ultimately have "ring_rel wf dat ctl n (m', ip, ?op) ?c"
      using m m'(2,3) words' v used(1)
      by (intro ring_relI[where v = v and w = w and k = "min k (length (ch_avail c))"]) auto
    then show ?thesis using False eq empty m'(1) ld by (simp add: commit_write_def Let_def)
  qed
qed

lemma can_write_sim:
  assumes r: "ring_for ops n r" and rel: "ring_rel wf dat ctl n (m, ip, op) c"
  shows "\<exists>t out. ring_step r (m, ip, op) (CanWrite len) = Some (t, out) \<and>
    ring_rel wf dat ctl n t (fst (chan_step n c (CanWrite len))) \<and> out_matches (snd (chan_step n c (CanWrite len))) out"
proof -
  from rel obtain v w k where m: "wf m" "length (dat m) = n" and words: "ctl m ! CTL_INTERRUPT_MASK = ch_mask c"
    "ctl m ! CTL_PENDING_SEND_SIZE = ch_pending_size c" and v: "v mod 8 = 0" "w mod 8 = 0" "w \<le> v" "v + chan_used c + 8 \<le> w + n"
    and ptr: "pointers_at n v w k (ctl m) ip op c" and pk: "packets_rel (dat m) v c" by (rule ring_relE)
  note n = ring_for_size[OF r]
  let ?out = "ctl m ! CTL_OUTP"
  have p: "pos n v ?out" "pos n w (oo_cached_out op)" "pos n (v + chan_used c) (oo_next_in op)"
    using ptr by (auto simp: pointers_at_def)
  note vi = positions_mod(3)[OF v(1), of c]
  have ld: "control_load r m CTL_OUTP = Some ?out" using load_ok[OF r m(1)] by (simp add: CTL_OUTP_def)
  have vl: "validate r ?out = Inr ?out" using validate_iff[OF r] pos_valid[OF p(1) v(1)] n by simp
  obtain f where f: "inner_free r (oo_next_in op) (oo_cached_out op) = Some f" "unat f = n - 8 - (v + chan_used c - w)"
    by (rule free_pos[OF r p(3,2) vi v(2)]) (use v in auto)
  obtain g where g: "inner_free r (oo_next_in op) ?out = Some g" "unat g = n - 8 - (v + chan_used c - v)"
    by (rule free_pos[OF r p(3,1) vi v(1)]) (use v in auto)
  have "pointers_at n v v k (ctl m) ip (op\<lparr>oo_cached_out := ?out\<rparr>) c" using ptr by (simp add: pointers_at_def)
  then have R: "ring_rel wf dat ctl n (m, ip, op\<lparr>oo_cached_out := ?out\<rparr>) c"
    using m words v pk by (intro ring_relI[where v = v and w = v and k = k]) auto
  show ?thesis using f g ld vl R rel v(3) by (auto simp: can_write_def)
qed

lemma can_read_sim:
  assumes r: "ring_for ops n r" and rel: "ring_rel wf dat ctl n (m, ip, op) c"
  shows "\<exists>t out. ring_step r (m, ip, op) CanRead = Some (t, out) \<and>
    ring_rel wf dat ctl n t (fst (chan_step n c CanRead)) \<and> out_matches (snd (chan_step n c CanRead)) out"
proof -
  from rel obtain v w k where m: "wf m" "length (dat m) = n" and words: "ctl m ! CTL_INTERRUPT_MASK = ch_mask c"
    "ctl m ! CTL_PENDING_SEND_SIZE = ch_pending_size c" and v: "v mod 8 = 0" "w mod 8 = 0" "w \<le> v" "v + chan_used c + 8 \<le> w + n"
    and ptr: "pointers_at n v w k (ctl m) ip op c" and pk: "packets_rel (dat m) v c" by (rule ring_relE)
  note n = ring_for_size[OF r]
  let ?v = "v + tot (ch_read c)" and ?a = "ch_avail c" and ?in = "ctl m ! CTL_INP"
  have p: "pos n ?v (io_next_out ip)" "pos n (?v + tot (take k ?a)) (io_cached_in ip)" "pos n (?v + tot ?a) ?in"
    using ptr by (auto simp: pointers_at_def)
  have ld: "control_load r m CTL_INP = Some ?in" using load_ok[OF r m(1)] by (simp add: CTL_INP_def)
  have vl: "validate r ?in = Inr ?in" using validate_iff[OF r] pos_valid[OF p(3) positions_mod(2)[OF v(1)]] n by simp
  have room: "tot ?a + 8 \<le> n" using v(3,4) by (simp add: chan_used_def)
  have c: "io_cached_in ip = io_next_out ip \<longleftrightarrow> take k ?a = []"
    using pos_eq[OF p(2,1)] room tot_take_le[of k ?a] by auto
  have i: "?in = io_next_out ip \<longleftrightarrow> ?a = []" using pos_eq[OF p(3,1)] room by simp
  have "pointers_at n v w (length ?a) (ctl m) (ip\<lparr>io_cached_in := ?in\<rparr>) op c" using ptr by (simp add: pointers_at_def)
  then have R: "ring_rel wf dat ctl n (m, ip\<lparr>io_cached_in := ?in\<rparr>, op) c"
    using m words v pk by (intro ring_relI[where v = v and w = w and k = "length ?a"]) auto
  show ?thesis
  proof (cases "io_cached_in ip = io_next_out ip")
    case True
    then show ?thesis using ld vl R i by (auto simp: can_read_def)
  next
    case False
    then have "?a \<noteq> []" using c by auto
    then show ?thesis using False rel by (auto simp: can_read_def)
  qed
qed

lemma revert_sim:
  assumes rel: "ring_rel wf dat ctl n (m, ip, op) c"
  shows "ring_rel wf dat ctl n (m, incoming_revert ip, op) (c\<lparr>ch_read := [], ch_avail := ch_read c @ ch_avail c\<rparr>)"
    "ring_rel wf dat ctl n (m, ip, outgoing_revert op) (c\<lparr>ch_pending := []\<rparr>)"
proof -
  from rel obtain v w k where m: "wf m" "length (dat m) = n" and words: "ctl m ! CTL_INTERRUPT_MASK = ch_mask c"
    "ctl m ! CTL_PENDING_SEND_SIZE = ch_pending_size c" and v: "v mod 8 = 0" "w mod 8 = 0" "w \<le> v" "v + chan_used c + 8 \<le> w + n"
    and ptr: "pointers_at n v w k (ctl m) ip op c" and pk: "packets_rel (dat m) v c" by (rule ring_relE)
  let ?c = "c\<lparr>ch_read := [], ch_avail := ch_read c @ ch_avail c\<rparr>" and ?d = "c\<lparr>ch_pending := []\<rparr>"
  have used: "chan_used ?c = chan_used c" "chan_used ?d = tot (ch_read c) + tot (ch_avail c)" "chan_used ?d \<le> chan_used c"
    by (simp_all add: chan_used_def)
  have "pointers_at n v w (length (ch_read c) + k) (ctl m) (incoming_revert ip) op ?c"
    using ptr used(1) by (simp add: pointers_at_def incoming_revert_def add.assoc)
  moreover have "packets_rel (dat m) v ?c" using pk by (auto simp: packets_rel_def)
  ultimately show "ring_rel wf dat ctl n (m, incoming_revert ip, op) ?c"
    using m words v used(1) by (intro ring_relI[where v = v and w = w and k = "length (ch_read c) + k"]) auto
  have "pointers_at n v w k (ctl m) ip (outgoing_revert op) ?d"
    using ptr used(2) by (simp add: pointers_at_def outgoing_revert_def add.assoc)
  moreover have "packets_rel (dat m) v ?d" using pk by (auto simp: packets_rel_def)
  ultimately show "ring_rel wf dat ctl n (m, ip, outgoing_revert op) ?d"
    using m words v used(3) by (intro ring_relI[where v = v and w = w and k = k]) auto
qed

text \<open>Storing a control word other than the two pointers.\<close>

lemma store_word_sim:
  assumes r: "ring_for ops n r" and rel: "ring_rel wf dat ctl n (m, ip, op) c"
    and i: "i = CTL_INTERRUPT_MASK \<and> c' = c\<lparr>ch_mask := x\<rparr> \<or> i = CTL_PENDING_SEND_SIZE \<and> c' = c\<lparr>ch_pending_size := x\<rparr>"
  shows "\<exists>m'. control_store r m i x = Some m' \<and> ring_rel wf dat ctl n (m', ip, op) c'"
proof -
  from rel obtain v w k where m: "wf m" "length (dat m) = n" and words: "ctl m ! CTL_INTERRUPT_MASK = ch_mask c"
    "ctl m ! CTL_PENDING_SEND_SIZE = ch_pending_size c" and v: "v mod 8 = 0" "w mod 8 = 0" "w \<le> v" "v + chan_used c + 8 \<le> w + n"
    and ptr: "pointers_at n v w k (ctl m) ip op c" and pk: "packets_rel (dat m) v c" by (rule ring_relE)
  have "i < 32" using i by (auto simp: ctl_words)
  then obtain m' where m': "control_store r m i x = Some m'" "wf m'" "dat m' = dat m" "ctl m' = (ctl m)[i := x]"
    using store_ok[OF r m(1)] by blast
  note len = mem_control_len[OF m(1)]
  have same: "ch_read c' = ch_read c" "ch_avail c' = ch_avail c" "ch_pending c' = ch_pending c" "chan_used c' = chan_used c"
    using i by (auto simp: chan_used_def)
  have "ctl m' ! CTL_INP = ctl m ! CTL_INP" "ctl m' ! CTL_OUTP = ctl m ! CTL_OUTP"
    using m'(4) i by (auto simp: ctl_words)
  then have "pointers_at n v w k (ctl m') ip op c'" using ptr same by (simp add: pointers_at_def)
  moreover have "packets_rel (dat m') v c'" using pk m'(3) same by (simp add: packets_rel_def)
  moreover have "ctl m' ! CTL_INTERRUPT_MASK = ch_mask c'" "ctl m' ! CTL_PENDING_SEND_SIZE = ch_pending_size c'"
    using m'(4) words i len by (auto simp: ctl_words)
  ultimately have "ring_rel wf dat ctl n (m', ip, op) c'"
    using m'(2,3) m(2) v same(4) by (intro ring_relI[where v = v and w = w and k = k]) auto
  then show ?thesis using m'(1) by blast
qed

lemma set_pending_sim:
  assumes r: "ring_for ops n r" and rel: "ring_rel wf dat ctl n (m, ip, op) c"
  shows "\<exists>t out. ring_step r (m, ip, op) (SetPendingSendSize len) = Some (t, out) \<and>
    ring_rel wf dat ctl n t (fst (chan_step n c (SetPendingSendSize len))) \<and>
    out_matches (snd (chan_step n c (SetPendingSendSize len))) out"
proof (cases "n - 8 < len")
  case True
  then show ?thesis using rel ring_for_size[OF r] by (simp add: set_pending_send_size_def maximum_packet_size_def nat_sub_ck_def)
next
  case False
  note n = ring_for_size[OF r]
  have "unat (of_nat len :: u32) + unat (7 :: u32) < 2 ^ LENGTH(32)" using False n(3) by (simp add: unat_of_nat)
  note a = add_ck_nat(1)[OF this]
  obtain m' where "control_store r m CTL_PENDING_SEND_SIZE ((of_nat len + 7) AND NOT 7) = Some m'"
    "ring_rel wf dat ctl n (m', ip, op) (c\<lparr>ch_pending_size := (of_nat len + 7) AND NOT 7\<rparr>)"
    using store_word_sim[OF r rel, of CTL_PENDING_SEND_SIZE _ "(of_nat len + 7) AND NOT 7"] by blast
  then show ?thesis
    using False n(4,6) a by (simp add: set_pending_send_size_def maximum_packet_size_def nat_sub_ck_def)
qed

lemma ring_sim:
  assumes r: "ring_for ops n r" and rel: "ring_rel wf dat ctl n s c" and e: "cmd_allowed e"
  shows "\<exists>t out. ring_step r s e = Some (t, out) \<and> ring_rel wf dat ctl n t (fst (chan_step n c e)) \<and>
    out_matches (snd (chan_step n c e)) out"
proof -
  obtain m ip op where s: "s = (m, ip, op)" by (cases s) auto
  note rel = rel[unfolded s]
  show ?thesis
  proof (cases e)
    case (SetMask b)
    from store_word_sim[OF r rel, of CTL_INTERRUPT_MASK _ "if b then 1 else 0"] obtain m' where
      "set_interrupt_mask r m b = Some m'" "ring_rel wf dat ctl n (m', ip, op) (c\<lparr>ch_mask := if b then 1 else 0\<rparr>)"
      unfolding set_interrupt_mask_def by blast
    then show ?thesis by (simp add: s SetMask)
  qed (use e revert_sim[OF rel] send_sim[OF r rel] receive_sim[OF r rel] commit_read_sim[OF r rel]
      commit_write_sim[OF r rel] can_write_sim[OF r rel] can_read_sim[OF r rel] set_pending_sim[OF r rel] in
      \<open>simp_all add: s\<close>)
qed
end

subsection \<open>A ring between two ends\<close>

interpretation ring_channel: forward_simulation "ring_step r" "chan_step n" cmd_allowed
    "\<lambda>s c. ring_for paged_ops n r \<and> ring_rel paged_wf paged_bytes paged_words n s c" out_matches for r n
  by unfold_locales (use paged.ring_sim in blast)

text \<open>Both ends of a ring over guest pages, opened in the order writer, reader.\<close>

definition open_ring ::
  "paged_ring \<Rightarrow> (paged_ring inner_ring \<times> (paged_ring \<times> incoming_offset \<times> outgoing_offset)) option" where
  "open_ring m = do {
     (m, w) \<leftarrow> outgoing_ring_new paged_ops m;
     w \<leftarrow> ok_value w;
     (m, r) \<leftarrow> incoming_ring_new paged_ops m;
     r \<leftarrow> ok_value r;
     op \<leftarrow> outgoing w m;
     op \<leftarrow> ok_value op;
     ip \<leftarrow> incoming r m;
     ip \<leftarrow> ok_value ip;
     Some (r, (m, ip, op))
   }"

definition empty_chan :: chan where
  "empty_chan = \<lparr>ch_read = [], ch_avail = [], ch_pending = [], ch_mask = 1, ch_pending_size = 0\<rparr>"

definition fresh_ring :: "paged_ring \<Rightarrow> bool" where
  "fresh_ring m \<longleftrightarrow> paged_wf m \<and> 0 < length (paged_bytes m) \<and> length (paged_bytes m) < 2 ^ 31 \<and>
     paged_words m ! CTL_INP = paged_words m ! CTL_OUTP \<and> valid_ptr (length (paged_bytes m)) (paged_words m ! CTL_OUTP)"

lemma open_ring_ok:
  assumes "fresh_ring m"
  obtains r s where "open_ring m = Some (r, s)" "ring_for paged_ops (length (paged_bytes m)) r"
    "ring_rel paged_wf paged_bytes paged_words (length (paged_bytes m)) s empty_chan"
proof -
  let ?n = "length (paged_bytes m)" and ?p = "paged_words m ! CTL_OUTP"
  have m: "paged_wf m" "0 < ?n" "?n < 2 ^ 31" and ptr: "paged_words m ! CTL_INP = ?p" "valid_ptr ?n ?p"
    using assms by (auto simp: fresh_ring_def)
  obtain r where r: "inner_ring_new paged_ops m = Some (Inr r)" "ring_for paged_ops ?n r" using paged_ring_for[OF m] .
  have len: "length (paged_words m) = 32" using paged.mem_control_len[OF m(1)] .
  obtain m1 where m1: "control_store r m CTL_FEATURE_BITS FEATURE_SUPPORTS_PENDING_SEND_SIZE = Some m1" "paged_wf m1"
    "paged_bytes m1 = paged_bytes m" "paged_words m1 = (paged_words m)[CTL_FEATURE_BITS := FEATURE_SUPPORTS_PENDING_SEND_SIZE]"
    using paged.store_ok[OF r(2) m(1), of CTL_FEATURE_BITS] by (auto simp: CTL_FEATURE_BITS_def)
  obtain m2 where m2: "control_store r m1 CTL_PENDING_SEND_SIZE 0 = Some m2" "paged_wf m2"
    "paged_bytes m2 = paged_bytes m1" "paged_words m2 = (paged_words m1)[CTL_PENDING_SEND_SIZE := 0]"
    using paged.store_ok[OF r(2) m1(2), of CTL_PENDING_SEND_SIZE] by (auto simp: CTL_PENDING_SEND_SIZE_def)
  have b2: "paged_bytes m2 = paged_bytes m" using m1(3) m2(3) by simp
  have r2: "inner_ring_new paged_ops m2 = Some (Inr r)"
    using r(1) paged.mem_len[OF m(1)] paged.mem_len[OF m2(2)] b2 by (simp add: inner_ring_new_def)
  obtain m3 where m3: "control_store r m2 CTL_INTERRUPT_MASK 1 = Some m3" "paged_wf m3"
    "paged_bytes m3 = paged_bytes m2" "paged_words m3 = (paged_words m2)[CTL_INTERRUPT_MASK := 1]"
    using paged.store_ok[OF r(2) m2(2), of CTL_INTERRUPT_MASK] by (auto simp: CTL_INTERRUPT_MASK_def)
  have w: "paged_words m3 ! CTL_INP = ?p" "paged_words m3 ! CTL_OUTP = ?p" "paged_words m3 ! CTL_INTERRUPT_MASK = 1"
    "paged_words m3 ! CTL_PENDING_SEND_SIZE = 0"
    using m1(4) m2(4) m3(4) ptr(1) len by (simp_all add: ctl_words CTL_FEATURE_BITS_def)
  have ld: "control_load r m3 CTL_INP = Some ?p" "control_load r m3 CTL_OUTP = Some ?p"
    using paged.load_ok[OF r(2) m3(2)] w by (simp_all add: ctl_words)
  let ?ip = "\<lparr>io_cached_in = ?p, io_committed_out = ?p, io_next_out = ?p\<rparr>"
  let ?op = "\<lparr>oo_cached_out = ?p, oo_committed_in = ?p, oo_next_in = ?p\<rparr>"
  have "open_ring m = Some (r, (m3, ?ip, ?op))"
    using r(1) r2 m1(1) m2(1) m3(1) ld ptr(2)
    by (simp add: open_ring_def outgoing_ring_new_def incoming_ring_new_def outgoing_def incoming_def validate_iff[OF r(2)])
  moreover have "ring_rel paged_wf paged_bytes paged_words ?n (m3, ?ip, ?op) empty_chan"
  proof (rule ring_relI[where v = "unat ?p" and w = "unat ?p" and k = 0])
    show "pointers_at ?n (unat ?p) (unat ?p) 0 (paged_words m3) ?ip ?op empty_chan"
      using w ptr(2) by (simp add: pointers_at_def pos_def empty_chan_def chan_used_def valid_ptr_def)
  qed (use m3(2,3) b2 w ptr(2) ring_for_size[OF r(2)] in
      \<open>simp_all add: empty_chan_def chan_used_def packets_rel_def valid_ptr_def\<close>)
  ultimately show thesis using that r(2) by blast
qed

subsection \<open>Consequences of the refinement\<close>

lemma ring_runs:
  assumes "fresh_ring m" "list_all cmd_allowed es"
  obtains r s s' outs where "open_ring m = Some (r, s)" "run_outputs (ring_step r) s es = Some (s', outs)"
    "list_all2 out_matches (snd (run_spec (chan_step (length (paged_bytes m))) empty_chan es)) outs"
proof -
  obtain r s where "open_ring m = Some (r, s)" "ring_for paged_ops (length (paged_bytes m)) r"
    "ring_rel paged_wf paged_bytes paged_words (length (paged_bytes m)) s empty_chan" using open_ring_ok[OF assms(1)] .
  then show thesis using ring_channel.run_sim[OF _ assms(2)] that by blast
qed

lemma run_spec_length: "length (snd (run_spec f a es)) = length es"
  by (induction es arbitrary: a) (simp_all add: case_prod_beta)

lemma run_spec_append:
  "run_spec f a (es @ es') =
     (fst (run_spec f (fst (run_spec f a es)) es'), snd (run_spec f a es) @ snd (run_spec f (fst (run_spec f a es)) es'))"
  by (induction es arbitrary: a) (simp_all add: case_prod_beta)

text \<open>The packets that were accepted and the packets that were received, in order.\<close>

fun accepted :: "ring_cmd list \<Rightarrow> 'd ring_out list \<Rightarrow> sent list" where
  "accepted (Send pkt payload # es) (SendOut (Inr _) # outs) = (pkt, payload) # accepted es outs"
| "accepted (_ # es) (_ # outs) = accepted es outs"
| "accepted _ _ = []"

fun received :: "'d ring_out list \<Rightarrow> 'd list" where
  "received (ReceiveOut (Inr d) # outs) = d # received outs"
| "received (_ # outs) = received outs"
| "received [] = []"

fun no_revert :: "ring_cmd \<Rightarrow> bool" where
  "no_revert RevertWrite \<longleftrightarrow> False"
| "no_revert RevertRead \<longleftrightarrow> False"
| "no_revert _ \<longleftrightarrow> True"

lemma accepted_matches: "list_all2 out_matches os os' \<Longrightarrow> accepted es os' = accepted es os"
proof (induction es os arbitrary: os' rule: accepted.induct)
  case (1 pkt payload es u outs)
  then show ?case by (auto simp: list_all2_Cons1 elim!: out_matches.elims)
qed (auto simp: list_all2_Cons1 list_all2_Nil elim!: out_matches.elims)

lemma received_matches: "list_all2 out_matches os os' \<Longrightarrow> list_all2 delivers (received os) (received os')"
  by (induction rule: list_all2_induct) (auto elim!: out_matches.elims)

lemma chan_fifo:
  assumes "list_all no_revert es"
  shows "received (snd (run_spec (chan_step n) c es)) @ ch_avail (fst (run_spec (chan_step n) c es)) @
      ch_pending (fst (run_spec (chan_step n) c es)) =
    ch_avail c @ ch_pending c @ accepted es (snd (run_spec (chan_step n) c es))"
  using assms
proof (induction es arbitrary: c)
  case (Cons e es)
  then show ?case
    by (cases e) (auto simp: case_prod_beta split: list.splits)
qed simp

text \<open>The commands of one end.\<close>

fun writer_cmd :: "ring_cmd \<Rightarrow> bool" where
  "writer_cmd (Send _ _) \<longleftrightarrow> True"
| "writer_cmd CommitWrite \<longleftrightarrow> True"
| "writer_cmd RevertWrite \<longleftrightarrow> True"
| "writer_cmd (CanWrite _) \<longleftrightarrow> True"
| "writer_cmd (SetPendingSendSize _) \<longleftrightarrow> True"
| "writer_cmd _ \<longleftrightarrow> False"

definition reader_cmd :: "ring_cmd \<Rightarrow> bool" where
  "reader_cmd e \<longleftrightarrow> \<not> writer_cmd e"

lemma spec_wakes_reader:
  assumes "list_all writer_cmd ws" "ch_mask c = 0" "ch_read c = []" "ch_avail c = []"
    "ch_avail (fst (run_spec (chan_step n) c ws)) \<noteq> []"
  shows "SignalOut True \<in> set (snd (run_spec (chan_step n) c ws))"
  using assms
proof (induction ws arbitrary: c)
  case (Cons e ws)
  then show ?case by (cases e) (auto simp: case_prod_beta split: if_splits)
qed simp

lemma spec_wakes_writer:
  assumes "list_all reader_cmd rs" "ch_pending c = []" "unat (ch_pending_size c AND NOT 7) = sz" "0 < sz"
    "n - 8 - chan_used c < sz" "sz \<le> n - 8 - chan_used (fst (run_spec (chan_step n) c rs))"
  shows "SignalOut True \<in> set (snd (run_spec (chan_step n) c rs))"
  using assms
proof (induction rs arbitrary: c)
  case (Cons e rs)
  show ?case
  proof (cases e)
    case CommitRead
    let ?c = "fst (chan_step n c CommitRead)"
    consider "sz \<le> n - 8 - chan_used ?c" "ch_read c \<noteq> []" | "n - 8 - chan_used ?c < sz"
      using Cons.prems(5) by fastforce
    then show ?thesis
    proof cases
      case 1
      then show ?thesis using Cons.prems by (simp add: CommitRead case_prod_beta chan_used_def)
    next
      case 2
      have "ch_pending ?c = []" "ch_pending_size ?c = ch_pending_size c" using Cons.prems(2) by simp_all
      then show ?thesis using Cons.IH[of ?c] Cons.prems 2 by (simp add: CommitRead case_prod_beta)
    qed
  qed (use Cons in \<open>auto simp: case_prod_beta reader_cmd_def chan_used_def split: list.splits\<close>)
qed simp

lemma pending_size_round:
  assumes "len < 2147483648"
  shows "unat (((of_nat len + 7) AND NOT 7 :: u32) AND NOT 7) = (len + 7) div 8 * 8"
proof -
  have "unat (of_nat len :: u32) = len" using assms by (simp add: unat_of_nat)
  then have u: "unat (of_nat len + 7 :: u32) = len + 7" using assms by (subst add_ck_nat(2)) simp_all
  have "unat (w AND NOT 7 :: u32) = unat w div 8 * 8" for w :: u32
    using unat_and_not_mask[of w 3] by (simp add: minus_mod_eq_div_mult)
  then show ?thesis using u by simp
qed

lemma free_reaches_round:
  assumes "f mod 8 = 0" "(len :: nat) \<le> f"
  shows "(len + 7) div 8 * 8 \<le> f"
  using assms by presburger

subsection \<open>Properties\<close>

text \<open>C1. The two ends of a ring over guest pages implement a queue of packets. From a ring whose two
  pointers agree, any interleaving of sends, receives, commits, reverts, space and data queries,
  interrupt-mask and pending-size changes runs without a panic, and every result is the result of the
  specification: a packet is accepted exactly when it fits, the reader gets the packets in order with
  the transaction id, kind, external ranges and payload of the sender, uncommitted packets are
  invisible to the reader and uncommitted reads do not free space, and each commit asks for an
  interrupt exactly when the specification says so, however the pointers wrap around and however old
  the pointers cached by each end are.\<close>

theorem ring_refines_channel:
  assumes "fresh_ring m" "list_all cmd_allowed es"
  shows "\<exists>r s s' outs. open_ring m = Some (r, s) \<and> run_outputs (ring_step r) s es = Some (s', outs) \<and>
    list_all2 out_matches (snd (run_spec (chan_step (length (paged_bytes m))) empty_chan es)) outs"
  using ring_runs[OF assms] by metis

lemma of_le_bytes_zero: "of_le_bytes (replicate k 0) = 0"
  by (induction k) simp_all

lemma zero_ring_fresh:
  assumes "distinct (g # gs)" "gs \<noteq> []" "length gs < 2 ^ 19"
  shows "fresh_ring (gpadl_paged_new (g # gs) (\<lambda>_. replicate 4096 0))"
    "length (paged_bytes (gpadl_paged_new (g # gs) (\<lambda>_. replicate 4096 0))) = 4096 * length gs"
proof -
  let ?m = "gpadl_paged_new (g # gs) (\<lambda>_. replicate 4096 0)"
  have wf: "paged_wf ?m" "data_gpns ?m = gs"
    using gpadl_paged_wf[of "g # gs" "\<lambda>_. replicate 4096 0"] assms(1) by (simp_all add: GUEST_PAGE_SIZE_def)
  show len: "length (paged_bytes ?m) = 4096 * length gs" using length_paged_bytes[OF wf(1)] wf(2) by (simp add: GUEST_PAGE_SIZE_def)
  have "paged_words ?m ! i = 0" if "i < 32" for i
    using that by (simp add: paged_words_def gpadl_paged_new_def control_words_def CONTROL_WORD_COUNT_def slice_def
        of_le_bytes_zero)
  then show "fresh_ring ?m"
    using wf len assms(2,3) by (simp add: fresh_ring_def valid_ptr_def ctl_words)
qed

lemma small_ring: "fresh_ring (gpadl_paged_new [5, 9] (\<lambda>_. replicate 4096 0))"
  by (rule zero_ring_fresh) simp_all

abbreviation hello :: outgoing_packet where
  "hello \<equiv> \<lparr>op_transaction_id = 7, op_size = 3, op_typ = OutInBandWithCompletion\<rparr>"

lemma hello_sendable: "length bs = 3 \<Longrightarrow> sendable hello bs"
  by (simp add: sendable_def message_len_def header_size_def packet_header_def div_ceil_def)

theorem ring_refines_channel_witness:
  "\<exists>r s s' outs. open_ring (gpadl_paged_new [5, 9] (\<lambda>_. replicate 4096 0)) = Some (r, s) \<and>
    run_outputs (ring_step r) s [SetMask False, Send hello [1, 2, 3], Receive, CommitWrite, Receive, CommitRead] = Some (s', outs) \<and>
    list_all2 out_matches
      (snd (run_spec (chan_step (length (paged_bytes (gpadl_paged_new [5, 9] (\<lambda>_. replicate 4096 0))))) empty_chan
        [SetMask False, Send hello [1, 2, 3], Receive, CommitWrite, Receive, CommitRead])) outs"
  by (rule ring_refines_channel[OF small_ring]) (simp add: hello_sendable)

text \<open>C8. Without reverts the received packets are a prefix of the accepted packets: nothing is
  lost, duplicated, reordered or altered.\<close>

theorem ring_delivers_in_order:
  assumes "fresh_ring m" "list_all cmd_allowed es" "list_all no_revert es"
  shows "\<exists>r s s' outs k. open_ring m = Some (r, s) \<and> run_outputs (ring_step r) s es = Some (s', outs) \<and>
    list_all2 delivers (take k (accepted es outs)) (received outs)"
proof -
  let ?run = "run_spec (chan_step (length (paged_bytes m))) empty_chan es"
  obtain r s s' outs where run: "open_ring m = Some (r, s)" "run_outputs (ring_step r) s es = Some (s', outs)"
    "list_all2 out_matches (snd ?run) outs" using ring_runs[OF assms(1,2)] .
  have "received (snd ?run) @ ch_avail (fst ?run) @ ch_pending (fst ?run) = accepted es (snd ?run)"
    using chan_fifo[OF assms(3), of "length (paged_bytes m)" empty_chan] by (simp add: empty_chan_def)
  then have "received (snd ?run) = take (length (received (snd ?run))) (accepted es outs)"
    using accepted_matches[OF run(3)] by (metis append_eq_conv_conj)
  with received_matches[OF run(3)] run(1,2) show ?thesis by metis
qed

theorem ring_delivers_in_order_witness:
  "\<exists>r s s' outs k. open_ring (gpadl_paged_new [5, 9] (\<lambda>_. replicate 4096 0)) = Some (r, s) \<and>
    run_outputs (ring_step r) s [Send hello [1, 2, 3], CommitWrite, Receive] = Some (s', outs) \<and>
    list_all2 delivers (take k (accepted [Send hello [1, 2, 3], CommitWrite, Receive] outs)) (received outs)"
  by (rule ring_delivers_in_order[OF small_ring]) (simp_all add: hello_sendable)

lemma run_spec_Cons: "run_spec f a (e # es) = (fst (run_spec f (fst (f a e)) es), snd (f a e) # snd (run_spec f (fst (f a e)) es))"
  by (simp add: case_prod_beta)

lemma run_spec_single: "run_spec f a [e] = (fst (f a e), [snd (f a e)])"
  by (simp add: case_prod_beta)

lemma signals_match:
  "list_all2 out_matches os os' \<Longrightarrow> SignalOut True \<in> set os \<Longrightarrow> SignalOut True \<in> set os'"
  by (induction rule: list_all2_induct) (auto elim!: out_matches.elims)

lemma answer_match: "out_matches (AnswerOut b) out \<Longrightarrow> out = AnswerOut b"
  by (cases out) auto

text \<open>C12. No wake-up of the reader is lost: when the reader unmasks interrupts, commits what it read
  and then finds the ring empty, every sequence of operations of the writer that leaves data to read
  has asked for an interrupt.\<close>

theorem ring_wakes_reader:
  assumes "fresh_ring m" "list_all cmd_allowed (es @ ws)" "list_all writer_cmd ws"
  shows "\<exists>r s s' outs o1 o2 o3 wouts b. open_ring m = Some (r, s) \<and>
    run_outputs (ring_step r) s (es @ [SetMask False, CommitRead, Receive] @ ws @ [CanRead]) =
      Some (s', outs @ [o1, o2, o3] @ wouts @ [AnswerOut (Inr b)]) \<and> length outs = length es \<and> length wouts = length ws \<and>
    (o3 = ReceiveOut (Inl ReadEmpty) \<and> b \<longrightarrow> SignalOut True \<in> set wouts)"
proof -
  let ?f = "chan_step (length (paged_bytes m))" and ?es = "es @ [SetMask False, CommitRead, Receive] @ ws @ [CanRead]"
  let ?c = "fst (run_spec ?f empty_chan es)"
  define d where "d = fst (?f (fst (?f (fst (?f ?c (SetMask False))) CommitRead)) Receive)"
  let ?o3 = "snd (?f (fst (?f (fst (?f ?c (SetMask False))) CommitRead)) Receive)"
  have "list_all cmd_allowed ?es" using assms(2) by simp
  from ring_runs[OF assms(1) this] obtain r s s' outs where
    run: "open_ring m = Some (r, s)" "run_outputs (ring_step r) s ?es = Some (s', outs)"
    and match: "list_all2 out_matches (snd (run_spec ?f empty_chan ?es)) outs" .
  let ?b = "ch_avail (fst (run_spec ?f d ws)) \<noteq> []"
  have "snd (run_spec ?f empty_chan ?es) = snd (run_spec ?f empty_chan es) @
      [snd (?f ?c (SetMask False)), snd (?f (fst (?f ?c (SetMask False))) CommitRead), ?o3] @
      snd (run_spec ?f d ws) @ [AnswerOut (Inr ?b)]"
    by (simp only: run_spec_append run_spec_Cons run_spec.simps d_def append_Cons append_Nil fst_conv snd_conv chan_step.simps(9))
  with match obtain os o1 o2 o3 wouts a where outs: "outs = os @ [o1, o2, o3] @ wouts @ [a]" "length os = length es"
    "out_matches ?o3 o3" "list_all2 out_matches (snd (run_spec ?f d ws)) wouts" "out_matches (AnswerOut (Inr ?b)) a"
    by (auto simp: list_all2_append1 list_all2_Cons1 run_spec_length)
  have "SignalOut True \<in> set wouts" if "o3 = ReceiveOut (Inl ReadEmpty)" ?b
  proof -
    have "ch_mask d = 0" "ch_read d = []" "ch_avail d = []"
      using outs(3) that(1) unfolding d_def by (auto split: list.splits if_splits)
    then have "SignalOut True \<in> set (snd (run_spec ?f d ws))" using spec_wakes_reader[OF assms(3)] that(2) by blast
    then show ?thesis using signals_match[OF outs(4)] by blast
  qed
  moreover have "length wouts = length ws" using list_all2_lengthD[OF outs(4)] by (simp add: run_spec_length)
  ultimately show ?thesis using run outs(1,2) answer_match[OF outs(5)] by blast
qed

theorem ring_wakes_reader_witness:
  "\<exists>r s s' outs o1 o2 o3 wouts b. open_ring (gpadl_paged_new [5, 9] (\<lambda>_. replicate 4096 0)) = Some (r, s) \<and>
    run_outputs (ring_step r) s ([] @ [SetMask False, CommitRead, Receive] @ [Send hello [1, 2, 3], CommitWrite] @ [CanRead]) =
      Some (s', outs @ [o1, o2, o3] @ wouts @ [AnswerOut (Inr b)]) \<and> length outs = length ([] :: ring_cmd list) \<and>
    length wouts = length [Send hello [1, 2, 3], CommitWrite] \<and>
    (o3 = ReceiveOut (Inl ReadEmpty) \<and> b \<longrightarrow> SignalOut True \<in> set wouts)"
  by (rule ring_wakes_reader[OF small_ring]) (simp_all add: hello_sendable)

text \<open>C13. No wake-up of the writer is lost: when the writer commits what it wrote, sets the pending
  send size to the space it waits for and then finds too little, every sequence of operations of the
  reader that frees that space has asked for an interrupt.\<close>

theorem ring_wakes_writer:
  assumes "fresh_ring m" "list_all cmd_allowed es" "list_all reader_cmd rs" "len + 8 \<le> length (paged_bytes m)"
  shows "\<exists>r s s' outs o1 o2 a routs b. open_ring m = Some (r, s) \<and>
    run_outputs (ring_step r) s (es @ [CommitWrite, SetPendingSendSize len, CanWrite len] @ rs @ [CanWrite len]) =
      Some (s', outs @ [o1, o2, AnswerOut (Inr a)] @ routs @ [AnswerOut (Inr b)]) \<and>
    length outs = length es \<and> length routs = length rs \<and> (\<not> a \<and> b \<longrightarrow> SignalOut True \<in> set routs)"
proof -
  let ?n = "length (paged_bytes m)"
  let ?f = "chan_step ?n" and ?es = "es @ [CommitWrite, SetPendingSendSize len, CanWrite len] @ rs @ [CanWrite len]"
  let ?c = "fst (run_spec ?f empty_chan es)"
  define d where "d = fst (?f (fst (?f ?c CommitWrite)) (SetPendingSendSize len))"
  have "cmd_allowed e" if "reader_cmd e" for e using that by (cases e) (simp_all add: reader_cmd_def)
  then have "list_all cmd_allowed ?es" using assms(2,3) by (auto simp: list_all_iff)
  from ring_runs[OF assms(1) this] obtain r s s' outs where
    run: "open_ring m = Some (r, s)" "run_outputs (ring_step r) s ?es = Some (s', outs)"
    and match: "list_all2 out_matches (snd (run_spec ?f empty_chan ?es)) outs" .
  let ?a = "len \<le> ?n - 8 - chan_used d" and ?b = "len \<le> ?n - 8 - chan_used (fst (run_spec ?f d rs))"
  have "snd (run_spec ?f empty_chan ?es) = snd (run_spec ?f empty_chan es) @
      [snd (?f ?c CommitWrite), snd (?f (fst (?f ?c CommitWrite)) (SetPendingSendSize len)), AnswerOut (Inr ?a)] @
      snd (run_spec ?f d rs) @ [AnswerOut (Inr ?b)]"
    by (simp only: run_spec_append run_spec_Cons run_spec.simps d_def append_Cons append_Nil fst_conv snd_conv chan_step.simps(4))
  with match obtain os o1 o2 a routs b where outs: "outs = os @ [o1, o2, a] @ routs @ [b]" "length os = length es"
    "out_matches (AnswerOut (Inr ?a)) a" "list_all2 out_matches (snd (run_spec ?f d rs)) routs" "out_matches (AnswerOut (Inr ?b)) b"
    by (auto simp: list_all2_append1 list_all2_Cons1 run_spec_length)
  have "SignalOut True \<in> set routs" if "\<not> ?a" ?b
  proof -
    let ?size = "(len + 7) div 8 * 8"
    have n: "?n < 2147483648" "?n mod 8 = 0"
      using assms(1) length_paged_bytes[of m] by (auto simp: fresh_ring_def GUEST_PAGE_SIZE_def)
    have d: "ch_pending d = []" "unat (ch_pending_size d AND NOT 7) = ?size"
      using assms(4) pending_size_round[of len] n(1) unfolding d_def by (auto split: if_splits)
    have u: "chan_used x mod 8 = 0" for x using positions_mod(3)[of 0 x] by simp
    have "?size \<le> ?n - 8 - chan_used (fst (run_spec ?f d rs))"
      using that(2) u[of "fst (run_spec ?f d rs)"] n(2)
      by (intro free_reaches_round) (auto simp: mod_eq_0_iff_dvd intro!: dvd_diff_nat)
    moreover have "0 < ?size" "?n - 8 - chan_used d < ?size" using that(1) by presburger+
    ultimately have "SignalOut True \<in> set (snd (run_spec ?f d rs))"
      using spec_wakes_writer[OF assms(3) d] by blast
    then show ?thesis using signals_match[OF outs(4)] by blast
  qed
  moreover have "length routs = length rs" using list_all2_lengthD[OF outs(4)] by (simp add: run_spec_length)
  ultimately show ?thesis using run outs(1,2) answer_match[OF outs(3)] answer_match[OF outs(5)] by blast
qed

theorem ring_wakes_writer_witness:
  "\<exists>r s s' outs o1 o2 a routs b. open_ring (gpadl_paged_new [5, 9] (\<lambda>_. replicate 4096 0)) = Some (r, s) \<and>
    run_outputs (ring_step r) s ([Send hello [1, 2, 3]] @ [CommitWrite, SetPendingSendSize 4080, CanWrite 4080] @
      [Receive, CommitRead] @ [CanWrite 4080]) =
      Some (s', outs @ [o1, o2, AnswerOut (Inr a)] @ routs @ [AnswerOut (Inr b)]) \<and>
    length outs = length [Send hello [1, 2, 3]] \<and> length routs = length [Receive, CommitRead] \<and>
    (\<not> a \<and> b \<longrightarrow> SignalOut True \<in> set routs)"
  by (rule ring_wakes_writer[OF small_ring])
    (simp_all add: hello_sendable reader_cmd_def zero_ring_fresh(2)[of 5 "[9]", simplified])

text \<open>A descriptor with a length below its data offset.\<close>

context ring_mem
begin

lemma read_bad_length:
  assumes r: "ring_for ops n r" and m: "wf m" "length (dat m) = n"
    and p: "pos n v (io_next_out p)" "pos n v (io_cached_in p)" "v mod 8 = 0"
    and inp: "pos n vin (ctl m ! CTL_INP)" "vin mod 8 = 0" "v + 16 \<le> vin" "vin + 8 \<le> v + n"
    and d: "ring_get (dat m) v 16 = desc_bytes d" "pd_length8 d < pd_data_offset8 d"
  shows "\<exists>p'. read_packet r m p = Some (p', Inl (ReadCorrupt InvalidDescriptorLengths))"
proof -
  note n = ring_for_size[OF r]
  let ?in = "ctl m ! CTL_INP"
  have ld: "control_load r m CTL_INP = Some ?in" using load_ok[OF r m(1)] by (simp add: CTL_INP_def)
  have vp: "valid_ptr n ?in" "valid_ptr n (io_next_out p)"
    using pos_valid[OF inp(1,2)] pos_valid[OF p(1,3)] n(1,2) by auto
  have ne: "?in \<noteq> io_next_out p" using pos_eq[OF inp(1) p(1)] inp(3,4) by simp
  from available_ok[OF r vp ne] obtain a where a: "available r ?in (io_next_out p) = Some a"
    "unat a = ring_used n ?in (io_next_out p)" .
  have ua: "\<not> a < 16" using a(2) pos_used[OF inp(1) p(1)] inp(3,4) by (simp add: word_less_nat_alt)
  have "rm_read_aligned ops m (unat (io_next_out p)) 16 = Some (ring_get (dat m) (unat (io_next_out p)) 16)"
    using vp(2) m inp(3,4) by (intro mem_read_aligned) (auto simp: valid_ptr_def)
  then have rd: "rm_read_aligned (ir_mem r) m (unat (io_next_out p)) 16 = Some (desc_bytes d)"
    using p(1) ring_get_mod[of "dat m" v 16] m(2) n(5) d(1) by (simp add: pos_def)
  have "unat (pd_length8 d) < 2 ^ 16" using unsigned_less[of "pd_length8 d"] by simp
  then have "unat (ucast (pd_length8 d) :: u32) * unat (8 :: u32) < 2 ^ LENGTH(32)" by (simp add: unat_ucast_up)
  note l = mul_ck_nat(1)[OF this]
  have "parse_packet (ir_mem r) m (io_next_out p) a = Some (Inl (ReadCorrupt InvalidDescriptorLengths))"
    using d(2) l by (simp add: parse_packet_def rd Let_def)
  then show ?thesis
    using pos_unique[OF p(1,2)] ld validate_iff[OF r] vp(1) ne a(1) ua by (auto simp: read_packet_def read_next_def Let_def)
qed

end

text \<open>C39. \<open>maximum_packet_size\<close>, documented as the largest packet that fits, is 8 bytes too large:
  on an empty ring \<open>set_pending_send_size\<close> accepts that size and \<open>can_write\<close> answers that there is
  room, but \<open>write\<close> refuses every packet of that total size with \<open>InvalidMessageLength\<close>, now and
  at any later time.\<close>

theorem maximum_packet_rejected:
  assumes "fresh_ring m" "open_ring m = Some (r, (m', ip, op))" "sendable pkt payload"
    "maximum_packet_size r = Some (total_len (pkt, payload))"
  shows "(\<exists>op'. can_write r m' op (total_len (pkt, payload)) = Some (op', Inr True)) \<and>
    (\<exists>m''. set_pending_send_size r m' (total_len (pkt, payload)) = Some (m'', Inr ())) \<and>
    write_packet r m' op pkt = Some (m', op, Inl (WriteCorrupt InvalidMessageLength))"
proof -
  let ?n = "length (paged_bytes m)" and ?T = "total_len (pkt, payload)"
  have r: "ring_for paged_ops ?n r" and rel: "ring_rel paged_wf paged_bytes paged_words ?n (m', ip, op) empty_chan"
    using open_ring_ok[OF assms(1)] assms(2) by auto
  note n = ring_for_size[OF r]
  have T: "?T = ?n - 8" using assms(4) n(4,6) by (simp add: maximum_packet_size_def nat_sub_ck_def)
  have m': "paged_wf m'" using rel by (simp add: ring_rel_def)
  have "\<exists>t out. ring_step r (m', ip, op) (CanWrite ?T) = Some (t, out) \<and> out_matches (AnswerOut (Inr True)) out"
    using paged.can_write_sim[OF r rel, of ?T] T by (simp add: empty_chan_def chan_used_def del: ring_step.simps) blast
  then have 1: "\<exists>op'. can_write r m' op ?T = Some (op', Inr True)" by (auto dest!: answer_match)
  have "send r m' op pkt payload = Some (m', op, Inl (WriteCorrupt InvalidMessageLength))"
    using paged.send_full(1)[OF r m' assms(3)] T n(6) by (simp add: total_len_def)
  then have 2: "write_packet r m' op pkt = Some (m', op, Inl (WriteCorrupt InvalidMessageLength))"
    by (auto simp: send_def Option.bind_eq_Some_conv split: sum.splits) (metis sumE)
  have "\<exists>m''. set_pending_send_size r m' ?T = Some (m'', Inr ())"
    using paged.set_pending_sim[OF r rel, of ?T] T by (auto elim!: out_matches.elims)
  with 1 2 show ?thesis by blast
qed

theorem maximum_packet_rejected_witness:
  "\<exists>r m' ip op. open_ring (gpadl_paged_new [5, 9] (\<lambda>_. replicate 4096 0)) = Some (r, (m', ip, op)) \<and>
    write_packet r m' op \<lparr>op_transaction_id = 7, op_size = 4064, op_typ = OutInBandNoCompletion\<rparr> =
      Some (m', op, Inl (WriteCorrupt InvalidMessageLength))"
proof -
  let ?pkt = "\<lparr>op_transaction_id = 7, op_size = 4064, op_typ = OutInBandNoCompletion\<rparr>"
  have len: "message_len ?pkt = 4080" by (simp add: message_len_def header_size_def packet_header_def div_ceil_def)
  then have s: "sendable ?pkt (replicate 4064 0)" by (simp add: sendable_def header_size_def packet_header_def)
  obtain r m' ip op where o: "open_ring (gpadl_paged_new [5, 9] (\<lambda>_. replicate 4096 0)) = Some (r, (m', ip, op))"
    and r: "ring_for paged_ops (length (paged_bytes (gpadl_paged_new [5, 9] (\<lambda>_. replicate 4096 0)))) r"
    using open_ring_ok[OF small_ring] by (metis prod_cases3)
  have "maximum_packet_size r = Some (total_len (?pkt, replicate 4064 0))"
    using ring_for_size(4)[OF r] len zero_ring_fresh(2)[of 5 "[9]"]
    by (simp add: maximum_packet_size_def nat_sub_ck_def total_len_def)
  from maximum_packet_rejected[OF small_ring o s this] o show ?thesis by blast
qed

text \<open>C40. \<open>write\<close> accepts packets whose length does not fit the 16-bit length field of the
  descriptor and truncates it. On any ring with more than 512 KiB, a message of exactly 512 KiB is
  written with length 0: it can be committed, and then the reader takes the ring for corrupted.\<close>

theorem long_packet_unreadable:
  assumes "fresh_ring m" "open_ring m = Some (r, (m1, ip, op))" "524304 < length (paged_bytes m)"
  shows "\<exists>m2 op2 g m3 op3 s ip3.
    write_packet r m1 op \<lparr>op_transaction_id = t, op_size = 524272, op_typ = OutInBandNoCompletion\<rparr> = Some (m2, op2, Inr g) \<and>
    commit_write r m2 op2 = Some (m3, op3, s) \<and>
    read_packet r m3 ip = Some (ip3, Inl (ReadCorrupt InvalidDescriptorLengths))"
proof -
  let ?n = "length (paged_bytes m)" and ?pkt = "\<lparr>op_transaction_id = t, op_size = 524272, op_typ = OutInBandNoCompletion\<rparr>"
  have r: "ring_for paged_ops ?n r" and rel: "ring_rel paged_wf paged_bytes paged_words ?n (m1, ip, op) empty_chan"
    using open_ring_ok[OF assms(1)] assms(2) by auto
  note n = ring_for_size[OF r]
  have len: "message_len ?pkt = 524288" "header_size ?pkt = 16"
    by (simp_all add: message_len_def header_size_def packet_header_def div_ceil_def)
  from rel obtain v w k where m: "paged_wf m1" "length (paged_bytes m1) = ?n" and v: "v mod 8 = 0" "w mod 8 = 0" "w \<le> v"
      "v + chan_used empty_chan + 8 \<le> w + ?n"
    and ptr: "pointers_at ?n v w k (paged_words m1) ip op empty_chan" by (rule ring_relE)
  have p: "pos ?n v (oo_next_in op)" "pos ?n w (oo_cached_out op)" "pos ?n v (paged_words m1 ! CTL_OUTP)"
    "pos ?n v (io_next_out ip)" "pos ?n v (io_cached_in ip)" "pos ?n v (oo_committed_in op)"
    using ptr by (auto simp: pointers_at_def empty_chan_def chan_used_def)
  have "v + 8 \<le> w + ?n" using v(4) by (simp add: empty_chan_def chan_used_def)
  from paged.find_space_ok[OF r m(1) p(1-3) v(3) order_refl this v(1,2,1), of "of_nat (message_len ?pkt + 8)"]
  obtain q where q: "find_space r m1 op (of_nat (message_len ?pkt + 8)) = Some (Inr q)"
    using assms(3) by (auto simp: len split: if_splits)
  have "message_len ?pkt + 16 < ?n" using assms(3) by (simp add: len)
  from paged.write_packet_ok[OF r m this p(1) v(1) q] obtain m2 op2 g foot where
    w2: "write_packet r m1 op ?pkt = Some (m2, op2, Inr g)" "paged_wf m2" "length foot = 8"
      "paged_bytes m2 = ring_put (ring_put (paged_bytes m1) v (header_bytes ?pkt)) (v + message_len ?pkt) foot"
      "op2 = op\<lparr>oo_cached_out := q, oo_next_in := oo_next_in op2\<rparr>" "pos ?n (v + (message_len ?pkt + 8)) (oo_next_in op2)" by blast
  have ci: "oo_committed_in op2 = oo_committed_in op" by (subst w2(5)) simp
  have "oo_next_in op2 \<noteq> oo_committed_in op2" unfolding ci using pos_eq[OF w2(6) p(6)] assms(3) by (simp add: len)
  moreover obtain m3 where m3: "control_store r m2 CTL_INP (oo_next_in op2) = Some m3" "paged_wf m3" "paged_bytes m3 = paged_bytes m2"
    "paged_words m3 = (paged_words m2)[CTL_INP := oo_next_in op2]"
    using paged.store_ok[OF r w2(2), of CTL_INP "oo_next_in op2"] by (auto simp: CTL_INP_def)
  ultimately have cw: "\<exists>s. commit_write r m2 op2 = Some (m3, op2\<lparr>oo_committed_in := oo_next_in op2\<rparr>, s)"
    using paged.load_ok[OF r m3(2)] by (auto simp: commit_write_def Let_def ctl_words)
  have inp: "paged_words m3 ! CTL_INP = oo_next_in op2"
    using m3(4) paged.mem_control_len[OF w2(2)] by (simp add: CTL_INP_def)
  have hb: "header_bytes ?pkt = desc_bytes (packet_desc ?pkt)" by (simp add: header_bytes_def extension_word_def extension_ranges_def)
  have d: "ring_get (paged_bytes m3) v 16 = desc_bytes (packet_desc ?pkt)"
    using ring_get_put[of "desc_bytes (packet_desc ?pkt)" "paged_bytes m1" v] m3(3) w2(3,4) assms(3) m(2)
    by (simp add: hb len ring_get_put_before)
  have short: "pd_length8 (packet_desc ?pkt) < pd_data_offset8 (packet_desc ?pkt)" by (simp add: packet_desc_def len)
  have "\<exists>ip3. read_packet r m3 ip = Some (ip3, Inl (ReadCorrupt InvalidDescriptorLengths))"
    by (rule paged.read_bad_length[OF r m3(2) _ p(4,5) v(1) w2(6)[folded inp] _ _ _ d short])
      (use m3(3) w2(4) m(2) v(1) assms(3) in \<open>auto simp: len mod_simps\<close>)
  then show ?thesis using w2(1) cw by blast
qed

theorem long_packet_unreadable_witness:
  "\<exists>r m1 ip op m2 op2 g m3 op3 s ip3.
    open_ring (gpadl_paged_new (map of_nat [0..<140]) (\<lambda>_. replicate 4096 0)) = Some (r, (m1, ip, op)) \<and>
    write_packet r m1 op \<lparr>op_transaction_id = 7, op_size = 524272, op_typ = OutInBandNoCompletion\<rparr> = Some (m2, op2, Inr g) \<and>
    commit_write r m2 op2 = Some (m3, op3, s) \<and>
    read_packet r m3 ip = Some (ip3, Inl (ReadCorrupt InvalidDescriptorLengths))"
proof -
  let ?gs = "map of_nat [1..<140] :: u64 list" and ?m = "gpadl_paged_new (map of_nat [0..<140]) (\<lambda>_. replicate 4096 0)"
  have d: "map of_nat [0..<140] = (0 :: u64) # ?gs" by (simp add: upt_conv_Cons)
  have "distinct (map of_nat [0..<140] :: u64 list)"
    by (auto simp: distinct_map inj_on_def word_of_nat_eq_iff take_bit_eq_mod)
  then have "distinct (0 # ?gs)" unfolding d .
  from zero_ring_fresh[OF this] have f: "fresh_ring ?m" "524304 < length (paged_bytes ?m)" unfolding d by simp_all
  obtain r m1 ip op where o: "open_ring ?m = Some (r, (m1, ip, op))" using open_ring_ok[OF f(1)] by (metis prod_cases3)
  from long_packet_unreadable[OF f(1) o f(2), of 7] o show ?thesis by blast
qed

end
