(* ===== verification/LocalApic.thy ===== *)
theory LocalApic
  imports IoApic
begin

text \<open>
  The local APIC, \<open>vmm_core/virt_support_apic/src/lib.rs\<close>, with the register layouts of
  \<open>vm/x86/x86defs/src/apic.rs\<close> and \<open>msi.rs\<close> and the guest time of \<open>vm/vmcore/src/vmtime.rs\<close>.

  A \<open>local_apic\<close> belongs to one processor. What other processors and devices may write of it is its
  \<open>shared_state\<close>, kept in the slot of the \<open>apic_set\<close> with the index \<open>la_shared\<close>: the reference that the
  code shares through an \<open>Arc\<close>. The fields of the timer and of the local vector table are grouped in
  records of their own. Arrays of eight 32-bit banks are lists of that length. The client of
  an access is the interface \<open>ApicClient\<close>: its values (CR8, time, offloaded state) are fields
  of \<open>apic_client\<close>, and the calls made on it are recorded in order, newest first.
\<close>

subsection \<open>Constants\<close>

definition NANOS_PER_TICK :: u64 where "NANOS_PER_TICK = 5"
definition TIMER_FREQUENCY :: u64 where "TIMER_FREQUENCY = 1000000000 div NANOS_PER_TICK"
definition APIC_VERSION :: u32 where "APIC_VERSION = 0x50014"

definition APIC_BASE_ADDRESS :: u32 where "APIC_BASE_ADDRESS = 0xfee00000"
definition APIC_BASE_PAGE :: u32 where "APIC_BASE_PAGE = drop_bit 12 APIC_BASE_ADDRESS"
definition X2APIC_MSR_BASE :: u32 where "X2APIC_MSR_BASE = 0x800"
definition X2APIC_MSR_END :: u32 where "X2APIC_MSR_END = 0x83f"
definition X86X_MSR_APIC_BASE :: u32 where "X86X_MSR_APIC_BASE = 0x1b"
definition HV_X64_MSR_APIC_FREQUENCY :: u32 where "HV_X64_MSR_APIC_FREQUENCY = 0x40000023"
definition HV_X64_MSR_EOI :: u32 where "HV_X64_MSR_EOI = 0x40000070"
definition HV_X64_MSR_ICR :: u32 where "HV_X64_MSR_ICR = 0x40000071"
definition HV_X64_MSR_TPR :: u32 where "HV_X64_MSR_TPR = 0x40000072"

definition DM_NMI :: u8 where "DM_NMI = 4"
definition DM_INIT :: u8 where "DM_INIT = 5"
definition DM_SIPI :: u8 where "DM_SIPI = 6"
definition DM_EXTINT :: u8 where "DM_EXTINT = 7"

definition ONE_SHOT :: u8 where "ONE_SHOT = 0"

definition FLAT_MODE :: u32 where "FLAT_MODE = 0xffffffff"
definition CLUSTERED_MODE :: u32 where "CLUSTERED_MODE = 0x0fffffff"

definition SHORTHAND_NONE :: u8 where "SHORTHAND_NONE = 0"
definition SHORTHAND_SELF :: u8 where "SHORTHAND_SELF = 1"
definition ALL_INCLUDING_SELF :: u8 where "ALL_INCLUDING_SELF = 2"
definition ALL_EXCLUDING_SELF :: u8 where "ALL_EXCLUDING_SELF = 3"

definition REG_ID :: u8 where "REG_ID = 0x2"
definition REG_VERSION :: u8 where "REG_VERSION = 0x3"
definition REG_TPR :: u8 where "REG_TPR = 0x8"
definition REG_PPR :: u8 where "REG_PPR = 0xa"
definition REG_EOI :: u8 where "REG_EOI = 0xb"
definition REG_LDR :: u8 where "REG_LDR = 0xd"
definition REG_DFR :: u8 where "REG_DFR = 0xe"
definition REG_SVR :: u8 where "REG_SVR = 0xf"
definition REG_ISR0 :: u8 where "REG_ISR0 = 0x10"
definition REG_ISR7 :: u8 where "REG_ISR7 = 0x17"
definition REG_TMR0 :: u8 where "REG_TMR0 = 0x18"
definition REG_TMR7 :: u8 where "REG_TMR7 = 0x1f"
definition REG_IRR0 :: u8 where "REG_IRR0 = 0x20"
definition REG_IRR7 :: u8 where "REG_IRR7 = 0x27"
definition REG_ESR :: u8 where "REG_ESR = 0x28"
definition REG_ICR0 :: u8 where "REG_ICR0 = 0x30"
definition REG_ICR1 :: u8 where "REG_ICR1 = 0x31"
definition REG_LVT_TIMER :: u8 where "REG_LVT_TIMER = 0x32"
definition REG_LVT_THERMAL :: u8 where "REG_LVT_THERMAL = 0x33"
definition REG_LVT_PMC :: u8 where "REG_LVT_PMC = 0x34"
definition REG_LVT_LINT0 :: u8 where "REG_LVT_LINT0 = 0x35"
definition REG_LVT_LINT1 :: u8 where "REG_LVT_LINT1 = 0x36"
definition REG_LVT_ERROR :: u8 where "REG_LVT_ERROR = 0x37"
definition REG_TIMER_ICR :: u8 where "REG_TIMER_ICR = 0x38"
definition REG_TIMER_CCR :: u8 where "REG_TIMER_CCR = 0x39"
definition REG_TIMER_DCR :: u8 where "REG_TIMER_DCR = 0x3e"
definition REG_SELF_IPI :: u8 where "REG_SELF_IPI = 0x3f"

lemmas apic_regs = REG_ID_def REG_VERSION_def REG_TPR_def REG_PPR_def REG_EOI_def REG_LDR_def REG_DFR_def REG_SVR_def
  REG_ISR0_def REG_ISR7_def REG_TMR0_def REG_TMR7_def REG_IRR0_def REG_IRR7_def REG_ESR_def REG_ICR0_def REG_ICR1_def
  REG_LVT_TIMER_def REG_LVT_THERMAL_def REG_LVT_PMC_def REG_LVT_LINT0_def REG_LVT_LINT1_def REG_LVT_ERROR_def
  REG_TIMER_ICR_def REG_TIMER_CCR_def REG_TIMER_DCR_def REG_SELF_IPI_def

subsection \<open>Register layouts\<close>

definition base_bsp :: "u64 \<Rightarrow> bool" where "base_bsp r = bit r 8"
definition base_x2apic :: "u64 \<Rightarrow> bool" where "base_x2apic r = bit r 10"
definition base_enable :: "u64 \<Rightarrow> bool" where "base_enable r = bit r 11"
definition base_page :: "u64 \<Rightarrow> u32" where "base_page r = ucast (get_field 12 24 r)"

definition svr_enable :: "u32 \<Rightarrow> bool" where "svr_enable r = bit r 8"

definition lvt_vector :: "u32 \<Rightarrow> u8" where "lvt_vector r = ucast (get_field 0 8 r)"
definition lvt_delivery_mode :: "u32 \<Rightarrow> u8" where "lvt_delivery_mode r = ucast (get_field 8 3 r)"
definition lvt_trigger_mode_level :: "u32 \<Rightarrow> bool" where "lvt_trigger_mode_level r = bit r 15"
definition lvt_masked :: "u32 \<Rightarrow> bool" where "lvt_masked r = bit r 16"
definition lvt_timer_mode :: "u32 \<Rightarrow> u8" where "lvt_timer_mode r = ucast (get_field 17 2 r)"
definition lvt_set_masked :: "u32 \<Rightarrow> u32" where "lvt_set_masked r = put_bit 16 True r"

definition dcr_value_low :: "u32 \<Rightarrow> u8" where "dcr_value_low r = ucast (get_field 0 2 r)"
definition dcr_value_high :: "u32 \<Rightarrow> u8" where "dcr_value_high r = ucast (get_field 3 1 r)"

definition icr_vector :: "u64 \<Rightarrow> u8" where "icr_vector r = ucast (get_field 0 8 r)"
definition icr_delivery_mode :: "u64 \<Rightarrow> u8" where "icr_delivery_mode r = ucast (get_field 8 3 r)"
definition icr_destination_mode_logical :: "u64 \<Rightarrow> bool" where "icr_destination_mode_logical r = bit r 11"
definition icr_level_assert :: "u64 \<Rightarrow> bool" where "icr_level_assert r = bit r 14"
definition icr_trigger_mode_level :: "u64 \<Rightarrow> bool" where "icr_trigger_mode_level r = bit r 15"
definition icr_destination_shorthand :: "u64 \<Rightarrow> u8" where "icr_destination_shorthand r = ucast (get_field 18 2 r)"
definition icr_x2apic_mda :: "u64 \<Rightarrow> u32" where "icr_x2apic_mda r = ucast (get_field 32 32 r)"
definition icr_xapic_mda :: "u64 \<Rightarrow> u8" where "icr_xapic_mda r = ucast (drop_bit 24 (icr_x2apic_mda r))"

definition ICR_LOW_MASK :: u64 where
  "ICR_LOW_MASK =
     set_field 18 2 3 (put_bit 15 True (put_bit 14 True (put_bit 11 True (set_field 8 3 7 (set_field 0 8 0xff 0)))))"
definition ICR_XAPIC_MASK :: u64 where "ICR_XAPIC_MASK = set_field 32 32 (push_bit 24 0xff) ICR_LOW_MASK"
definition ICR_X2APIC_MASK :: u64 where "ICR_X2APIC_MASK = set_field 32 32 0xffffffff ICR_LOW_MASK"

definition SVR_MASK :: u32 where "SVR_MASK = put_bit 8 True (set_field 0 8 0xff 0)"
definition LVT_TIMER_MASK :: u32 where "LVT_TIMER_MASK = set_field 17 2 1 (put_bit 16 True (set_field 0 8 0xff 0))"
definition LVT_DELIVERY_MASK :: u32 where "LVT_DELIVERY_MASK = put_bit 16 True (set_field 8 3 7 (set_field 0 8 0xff 0))"
definition LVT_LINT_MASK :: u32 where
  "LVT_LINT_MASK = put_bit 16 True (set_field 8 3 7 (put_bit 15 True (put_bit 13 True (set_field 0 8 0xff 0))))"
definition LVT_ERROR_MASK :: u32 where "LVT_ERROR_MASK = put_bit 16 True (set_field 0 8 0xff 0)"
definition DCR_MASK :: u32 where "DCR_MASK = set_field 3 1 1 (set_field 0 2 3 0)"
definition APIC_BASE_ALLOWED :: u64 where
  "APIC_BASE_ALLOWED = put_bit 8 True (set_field 12 24 0xffffff (put_bit 10 True (put_bit 11 True 0)))"

definition x2id_logical_id :: "u32 \<Rightarrow> u16" where "x2id_logical_id r = ucast (get_field 0 16 r)"
definition x2id_cluster_id :: "u32 \<Rightarrow> u16" where "x2id_cluster_id r = ucast (get_field 16 16 r)"
definition xid_logical_id :: "u8 \<Rightarrow> u8" where "xid_logical_id r = get_field 0 4 r"
definition xid_cluster_id :: "u8 \<Rightarrow> u8" where "xid_cluster_id r = get_field 4 4 r"

definition work_init :: "u32 \<Rightarrow> bool" where "work_init w = bit w 0"
definition work_sipi :: "u32 \<Rightarrow> bool" where "work_sipi w = bit w 1"
definition work_sipi_vector :: "u32 \<Rightarrow> u8" where "work_sipi_vector w = ucast (get_field 2 8 w)"
definition work_extint :: "u32 \<Rightarrow> bool" where "work_extint w = bit w 10"
definition work_nmi :: "u32 \<Rightarrow> bool" where "work_nmi w = bit w 11"

definition msia_destination_mode_logical :: "u32 \<Rightarrow> bool" where "msia_destination_mode_logical r = bit r 2"
definition msia_extended_destination :: "u32 \<Rightarrow> u8" where "msia_extended_destination r = ucast (get_field 4 8 r)"
definition msia_destination :: "u32 \<Rightarrow> u8" where "msia_destination r = ucast (get_field 12 8 r)"
definition virt_destination :: "u32 \<Rightarrow> u16" where
  "virt_destination r = ucast (msia_destination r) OR push_bit 7 (ucast (msia_extended_destination r) AND NOT 1)"

definition msid_vector :: "u32 \<Rightarrow> u8" where "msid_vector r = ucast (get_field 0 8 r)"
definition msid_delivery_mode :: "u32 \<Rightarrow> u8" where "msid_delivery_mode r = ucast (get_field 8 3 r)"
definition msid_trigger_mode_level :: "u32 \<Rightarrow> bool" where "msid_trigger_mode_level r = bit r 15"

subsection \<open>Guest time\<close>

text \<open>Times are in units of 100ns; \<open>checked_sub\<close> returns nanoseconds.\<close>

definition vmtime_is_before :: "u64 \<Rightarrow> u64 \<Rightarrow> bool" where "vmtime_is_before a t = bit (a - t) 63"
definition vmtime_is_after :: "u64 \<Rightarrow> u64 \<Rightarrow> bool" where "vmtime_is_after a t = (\<not> bit (a - t) 63 \<and> a \<noteq> t)"
definition vmtime_checked_sub :: "u64 \<Rightarrow> u64 \<Rightarrow> nat option" where
  "vmtime_checked_sub a t = (if \<not> bit (a - t) 63 then Some (unat (a - t) * 100) else None)"
definition vmtime_wrapping_add :: "u64 \<Rightarrow> nat \<Rightarrow> u64" where
  "vmtime_wrapping_add a nanos = of_nat (unat a + nanos div 100)"
definition set_timeout_if_before :: "u64 option \<Rightarrow> u64 \<Rightarrow> u64 option" where
  "set_timeout_if_before timeout t =
     (case timeout of None \<Rightarrow> Some t | Some u \<Rightarrow> if vmtime_is_before t u then Some t else timeout)"

subsection \<open>Vectors and the in-service stack\<close>

definition priority :: "u8 \<Rightarrow> u8" where "priority v = drop_bit 4 v"

definition dcr_divider_shift :: "u32 \<Rightarrow> u8" where
  "dcr_divider_shift dcr = (let v = dcr_value_low dcr OR push_bit 2 (dcr_value_high dcr) in (v + 1) AND 7)"

definition bank_mask :: "u8 \<Rightarrow> nat \<times> u32" where
  "bank_mask vector = (unat vector div 32, push_bit (unat (vector mod 32)) 1)"

definition dfr_cluster_mode :: "u32 \<Rightarrow> bool option" where
  "dfr_cluster_mode v =
     (if v OR 0x0fffffff = CLUSTERED_MODE then Some True
      else if v OR 0x0fffffff = FLAT_MODE then Some False
      else None)"

definition isr_top :: "u8 list \<Rightarrow> u8 option" where
  "isr_top s = (if s = [] then None else Some (last s))"

definition isr_top_or_0 :: "u8 list \<Rightarrow> u8" where
  "isr_top_or_0 s = (case isr_top s of None \<Rightarrow> 0 | Some v \<Rightarrow> v)"

definition isr_push :: "u8 list \<Rightarrow> u8 \<Rightarrow> u8 list option" where
  "isr_push s v = do {
     assert_that (v \<ge> 16);
     assert_that (length s < 16);
     assert_that (priority (isr_top_or_0 s) < priority v);
     Some (s @ [v])
   }"

definition isr_pop :: "u8 list \<Rightarrow> u8 list \<times> u8 option" where
  "isr_pop s = (butlast s, isr_top s)"

definition set_bank_bit :: "u8 \<Rightarrow> u32 list \<Rightarrow> u32 list" where
  "set_bank_bit v bits =
     bits[unat v div 32 := bits ! (unat v div 32) OR push_bit (unat (v mod 32)) 1]"

definition isr_to_bits :: "u8 list \<Rightarrow> u32 list" where
  "isr_to_bits s = fold set_bank_bit s (replicate 8 0)"

definition bits_half :: "u32 list \<Rightarrow> nat \<Rightarrow> u16" where
  "bits_half bits pri = ucast (drop_bit (16 * (pri mod 2)) (bits ! (pri div 2)))"

definition isr_load_step :: "u32 list \<Rightarrow> nat \<Rightarrow> u8 list \<Rightarrow> u8 list option" where
  "isr_load_step bits pri s =
     (let v = bits_half bits pri in
      if v \<noteq> 0 then do {
        n \<leftarrow> sub_ck 15 (of_nat (leading_zeros v));
        hi \<leftarrow> mul_ck (of_nat pri) 16;
        vector \<leftarrow> add_ck hi n;
        isr_push s vector
      } else Some s)"

definition isr_load_from_bits :: "u32 list \<Rightarrow> u8 list option" where
  "isr_load_from_bits bits = for_each (isr_load_step bits) [1..<16] []"

subsection \<open>State\<close>

record shared_state =
  sh_vp_index :: u32
  sh_tmr :: "u32 list"
  sh_new_irr :: "u32 list"
  sh_auto_eoi :: "u32 list"
  sh_work :: u32
  sh_software_enabled_on_reset :: bool

record apic_slot =
  asl_logical_id :: u8
  asl_hardware_enabled :: bool
  asl_software_enabled :: bool
  asl_cluster_mode :: bool
  asl_x2apic_enabled :: bool
  asl_lint :: "u32 list"
  asl_shared :: "shared_state option"

record apic_set =
  ga_x2apic_capable :: bool
  ga_hyperv_enlightenments :: bool
  ga_x2apic_enabled :: nat
  ga_logical_cluster_mode :: nat
  ga_by_apic_id :: "apic_slot list"
  ga_by_index :: "u32 list"

record apic_stats =
  st_eoi :: u64
  st_eoi_level :: u64
  st_spurious_eoi :: u64
  st_lazy_eoi :: u64
  st_interrupt :: u64
  st_nmi :: u64
  st_extint :: u64
  st_init :: u64
  st_sipi :: u64
  st_self_ipi :: u64
  st_broadcast_ipi :: u64
  st_other_ipi :: u64
  st_offload_push :: u64
  st_offload_pull :: u64

record apic_timer =
  tm_icr :: u32
  tm_ccr :: u32
  tm_dcr :: u32
  tm_last_time :: u64
  tm_next_timeout :: "u64 option"

record apic_lvts =
  lv_timer :: u32
  lv_thermal :: u32
  lv_pmc :: u32
  lv_lint :: "u32 list"
  lv_error :: u32

record local_apic =
  la_shared :: nat
  la_apic_base :: u64
  la_base_address :: "u64 option"
  la_id :: u32
  la_version :: u32
  la_ldr :: u32
  la_cluster_mode :: bool
  la_svr :: u32
  la_isr :: "u8 list"
  la_irr :: "u32 list"
  la_tmr :: "u32 list"
  la_auto_eoi :: "u32 list"
  la_next_irr :: "u8 option"
  la_esr :: u32
  la_icr :: u64
  la_lvts :: apic_lvts
  la_timer :: apic_timer
  la_active_auto_eoi :: bool
  la_is_offloaded :: bool
  la_needs_offload_reeval :: bool
  la_scan_irr :: bool
  la_stats :: apic_stats

datatype client_call = SetApicBase u64 | Wake u32 | Eoi u8

record apic_client =
  cl_cr8 :: u32
  cl_now :: u64
  cl_offload :: "u32 list \<times> u32 list"
  cl_calls :: "client_call list"

datatype destination = Physical u32 | Logical u32 | Broadcast | AllExcept u32

datatype msr_error = MsrUnknown | MsrInvalidAccess

datatype invalid_apic_base = ReservedBits | InvalidX2Apic | CantDisableX2Apic

record apic_work =
  wk_init :: bool
  wk_sipi :: "u8 option"
  wk_extint :: bool
  wk_nmi :: bool
  wk_interrupt :: "u8 option"

subsection \<open>Requesting interrupts\<close>

definition shared_request_interrupt ::
  "shared_state \<Rightarrow> bool \<Rightarrow> u8 \<Rightarrow> u8 \<Rightarrow> bool \<Rightarrow> bool \<Rightarrow> shared_state \<times> bool" where
  "shared_request_interrupt sh software_enabled delivery_mode vector level_triggered auto_eoi =
     (if delivery_mode = FIXED \<or> delivery_mode = LOWEST_PRIORITY then
        (if \<not> software_enabled \<or> vector < 16 then (sh, False)
         else
           let (bank, m) = bank_mask vector;
               sh = (if (sh_tmr sh ! bank AND m \<noteq> 0) \<noteq> level_triggered
                     then sh\<lparr>sh_tmr := (sh_tmr sh)[bank :=
                            (if level_triggered then sh_tmr sh ! bank OR m else sh_tmr sh ! bank AND NOT m)]\<rparr>
                     else sh);
               sh = (if (sh_auto_eoi sh ! bank AND m \<noteq> 0) \<noteq> auto_eoi
                     then sh\<lparr>sh_auto_eoi := (sh_auto_eoi sh)[bank :=
                            (if auto_eoi then sh_auto_eoi sh ! bank OR m else sh_auto_eoi sh ! bank AND NOT m)]\<rparr>
                     else sh)
           in (sh\<lparr>sh_new_irr := (sh_new_irr sh)[bank := sh_new_irr sh ! bank OR m]\<rparr>,
               sh_new_irr sh ! bank AND m = 0))
      else if delivery_mode = DM_NMI then (sh\<lparr>sh_work := put_bit 11 True (sh_work sh)\<rparr>, sh_work sh = 0)
      else if delivery_mode = DM_INIT then (sh\<lparr>sh_work := put_bit 0 True (sh_work sh)\<rparr>, sh_work sh = 0)
      else if delivery_mode = DM_SIPI then
        (sh\<lparr>sh_work := set_field 2 8 (ucast vector) (put_bit 1 True (sh_work sh))\<rparr>, sh_work sh = 0)
      else if delivery_mode = DM_EXTINT then (sh\<lparr>sh_work := put_bit 10 True (sh_work sh)\<rparr>, sh_work sh = 0)
      else (sh, False))"

text \<open>A request at a slot returns the processors to wake, here at most one.\<close>

definition slot_request_interrupt ::
  "apic_slot \<Rightarrow> u8 \<Rightarrow> u8 \<Rightarrow> bool \<Rightarrow> bool \<Rightarrow> apic_slot \<times> u32 list" where
  "slot_request_interrupt slot delivery_mode vector level_triggered auto_eoi =
     (case asl_shared slot of
        None \<Rightarrow> (slot, [])
      | Some sh \<Rightarrow>
          if asl_hardware_enabled slot then
            let (sh', wake) =
              shared_request_interrupt sh (asl_software_enabled slot) delivery_mode vector level_triggered auto_eoi
            in (slot\<lparr>asl_shared := Some sh'\<rparr>, if wake then [sh_vp_index sh] else [])
          else (slot, []))"

text \<open>The loop of \<open>request_set_interrupt\<close>, from the slot with identifier \<open>apic_id\<close> on.\<close>

fun request_slots ::
  "u8 \<Rightarrow> u8 \<Rightarrow> bool \<Rightarrow> (u32 \<Rightarrow> apic_slot \<Rightarrow> bool) \<Rightarrow> nat \<Rightarrow> apic_slot list \<Rightarrow> apic_slot list \<times> u32 list" where
  "request_slots delivery_mode vector level_triggered keep apic_id [] = ([], [])"
| "request_slots delivery_mode vector level_triggered keep apic_id (slot # slots) =
     (if keep (of_nat apic_id) slot \<and> (delivery_mode \<noteq> LOWEST_PRIORITY \<or> asl_software_enabled slot) then
        let (slot', wakes) = slot_request_interrupt slot delivery_mode vector level_triggered False in
        if delivery_mode = LOWEST_PRIORITY then (slot' # slots, wakes)
        else
          let (slots', more) = request_slots delivery_mode vector level_triggered keep (Suc apic_id) slots
          in (slot' # slots', wakes @ more)
      else
        let (slots', wakes) = request_slots delivery_mode vector level_triggered keep (Suc apic_id) slots
        in (slot # slots', wakes))"

definition request_set_interrupt ::
  "apic_set \<Rightarrow> u8 \<Rightarrow> u8 \<Rightarrow> bool \<Rightarrow> (u32 \<Rightarrow> apic_slot \<Rightarrow> bool) \<Rightarrow> apic_set \<times> u32 list" where
  "request_set_interrupt g delivery_mode vector level_triggered keep =
     (let (slots, wakes) = request_slots delivery_mode vector level_triggered keep 0 (ga_by_apic_id g)
      in (g\<lparr>ga_by_apic_id := slots\<rparr>, wakes))"

definition request_broadcast_interrupt :: "apic_set \<Rightarrow> u8 \<Rightarrow> u8 \<Rightarrow> bool \<Rightarrow> apic_set \<times> u32 list" where
  "request_broadcast_interrupt g delivery_mode vector level_triggered =
     request_set_interrupt g delivery_mode vector level_triggered (\<lambda>_ _. True)"

text \<open>A request at the slot of an identifier, if there is one.\<close>

definition request_at ::
  "apic_set \<Rightarrow> nat \<Rightarrow> u8 \<Rightarrow> u8 \<Rightarrow> bool \<Rightarrow> bool \<Rightarrow> apic_set \<times> u32 list" where
  "request_at g apic_id delivery_mode vector level_triggered auto_eoi =
     (if apic_id < length (ga_by_apic_id g) then
        let (slot, wakes) =
          slot_request_interrupt (ga_by_apic_id g ! apic_id) delivery_mode vector level_triggered auto_eoi
        in (g\<lparr>ga_by_apic_id := (ga_by_apic_id g)[apic_id := slot]\<rparr>, wakes)
      else (g, []))"

text \<open>The loop over the members of an X2APIC cluster.\<close>

fun request_cluster :: "apic_set \<Rightarrow> u32 \<Rightarrow> u16 \<Rightarrow> u8 \<Rightarrow> u8 \<Rightarrow> bool \<Rightarrow> nat list \<Rightarrow> apic_set \<times> u32 list" where
  "request_cluster g base logical_id delivery_mode vector level [] = (g, [])"
| "request_cluster g base logical_id delivery_mode vector level (i # is) =
     (let phys_id = unat (base OR of_nat i) in
      if bit logical_id i \<and> phys_id < length (ga_by_apic_id g) \<and>
         (delivery_mode \<noteq> LOWEST_PRIORITY \<or> asl_software_enabled (ga_by_apic_id g ! phys_id)) then
        let (g, wakes) = request_at g phys_id delivery_mode vector level False in
        if delivery_mode = LOWEST_PRIORITY then (g, wakes)
        else let (g, more) = request_cluster g base logical_id delivery_mode vector level is in (g, wakes @ more)
      else request_cluster g base logical_id delivery_mode vector level is)"

definition global_request_interrupt ::
  "apic_set \<Rightarrow> destination \<Rightarrow> u8 \<Rightarrow> u8 \<Rightarrow> bool \<Rightarrow> apic_set \<times> u32 list" where
  "global_request_interrupt g dest delivery_mode vector level =
     (case dest of
        Physical mda \<Rightarrow> request_at g (unat mda) delivery_mode vector level False
      | Logical mda \<Rightarrow>
          if ga_x2apic_enabled g > 0 then
            (if mda = 0xffffffff then request_broadcast_interrupt g delivery_mode vector level
             else request_cluster g (push_bit 4 (ucast (x2id_cluster_id mda))) (x2id_logical_id mda)
                    delivery_mode vector level [0..<16])
          else if ga_logical_cluster_mode g > 0 then
            (if (ucast mda :: u8) = 0xff then request_broadcast_interrupt g delivery_mode vector level
             else request_set_interrupt g delivery_mode vector level
                    (\<lambda>_ slot. xid_cluster_id (asl_logical_id slot) = xid_cluster_id (ucast mda) \<and>
                       xid_logical_id (asl_logical_id slot) AND xid_logical_id (ucast mda) \<noteq> 0))
          else request_set_interrupt g delivery_mode vector level (\<lambda>_ slot. asl_logical_id slot AND ucast mda \<noteq> 0)
      | Broadcast \<Rightarrow> request_broadcast_interrupt g delivery_mode vector level
      | AllExcept except \<Rightarrow>
          request_set_interrupt g delivery_mode vector level (\<lambda>apic_id _. apic_id \<noteq> except))"

definition from_icr :: "u64 \<Rightarrow> bool \<Rightarrow> destination" where
  "from_icr icr x2apic =
     (if x2apic then
        (if icr_destination_mode_logical icr then Logical (icr_x2apic_mda icr)
         else if icr_x2apic_mda icr = 0xffffffff then Broadcast
         else Physical (icr_x2apic_mda icr))
      else
        (if icr_destination_mode_logical icr then Logical (ucast (icr_xapic_mda icr))
         else if icr_xapic_mda icr = 0xff then Broadcast
         else Physical (ucast (icr_xapic_mda icr))))"

definition from_external :: "bool \<Rightarrow> u32 \<Rightarrow> bool \<Rightarrow> destination" where
  "from_external logical_destination_mode dest x2apic_capable =
     (if logical_destination_mode then Logical dest
      else if (x2apic_capable \<and> dest = 0xffffffff) \<or> (\<not> x2apic_capable \<and> dest = 0xff) then Broadcast
      else Physical dest)"

text \<open>The operations of \<open>LocalApicSet\<close> that devices and the synthetic interrupt controller call.\<close>

definition request_interrupt :: "apic_set \<Rightarrow> u64 \<Rightarrow> u32 \<Rightarrow> apic_set \<times> u32 list" where
  "request_interrupt g address data =
     (let address = (ucast address :: u32) in
      global_request_interrupt g
        (from_external (msia_destination_mode_logical address) (ucast (virt_destination address)) (ga_x2apic_capable g))
        (msid_delivery_mode data) (msid_vector data) (msid_trigger_mode_level data))"

definition slot_of_index :: "apic_set \<Rightarrow> u32 \<Rightarrow> nat option" where
  "slot_of_index g vp_index = do {
     apic_id \<leftarrow> index_ck (ga_by_index g) (unat vp_index);
     if unat apic_id < length (ga_by_apic_id g) then Some (unat apic_id) else None
   }"

definition lint :: "apic_set \<Rightarrow> u32 \<Rightarrow> nat \<Rightarrow> (apic_set \<times> u32 list) option" where
  "lint g vp_index lint_index =
     (case slot_of_index g vp_index of
        None \<Rightarrow> Some (g, [])
      | Some i \<Rightarrow> do {
          lvt \<leftarrow> index_ck (asl_lint (ga_by_apic_id g ! i)) lint_index;
          Some (if \<not> lvt_masked lvt \<and> \<not> lvt_trigger_mode_level lvt
                then request_at g i (lvt_delivery_mode lvt) (lvt_vector lvt) False False
                else (g, []))
        })"

definition synic_interrupt :: "apic_set \<Rightarrow> u32 \<Rightarrow> u8 \<Rightarrow> bool \<Rightarrow> apic_set \<times> u32 list" where
  "synic_interrupt g vp_index vector auto_eoi =
     (case slot_of_index g vp_index of
        None \<Rightarrow> (g, [])
      | Some i \<Rightarrow> request_at g i FIXED vector False auto_eoi)"

subsection \<open>State of one APIC\<close>

definition hardware_enabled :: "local_apic \<Rightarrow> bool" where "hardware_enabled a = base_enable (la_apic_base a)"
definition x2apic_enabled :: "local_apic \<Rightarrow> bool" where "x2apic_enabled a = base_x2apic (la_apic_base a)"
definition xapic_enabled :: "local_apic \<Rightarrow> bool" where
  "xapic_enabled a = (hardware_enabled a \<and> \<not> x2apic_enabled a)"
definition software_enabled :: "local_apic \<Rightarrow> bool" where "software_enabled a = svr_enable (la_svr a)"

definition effective_lvt :: "local_apic \<Rightarrow> u32 \<Rightarrow> u32" where
  "effective_lvt a lvt = (if \<not> software_enabled a then lvt_set_masked lvt else lvt)"

definition id_register :: "local_apic \<Rightarrow> u32" where
  "id_register a = (if x2apic_enabled a then la_id a else push_bit 24 (la_id a))"

definition ldr_register :: "local_apic \<Rightarrow> u32" where
  "ldr_register a =
     (if x2apic_enabled a then
        set_field 0 16 (push_bit (unat (la_id a AND 0xf)) 1)
          (set_field 16 16 (ucast (ucast (drop_bit 4 (la_id a)) :: u16)) 0)
      else la_ldr a)"

definition bump :: "((u64 \<Rightarrow> u64) \<Rightarrow> apic_stats \<Rightarrow> apic_stats) \<Rightarrow> local_apic \<Rightarrow> local_apic" where
  "bump counter a = a\<lparr>la_stats := counter counter_increment (la_stats a)\<rparr>"

text \<open>The state that an APIC shares with the rest of the set.\<close>

definition get_shared :: "apic_set \<Rightarrow> local_apic \<Rightarrow> shared_state option" where
  "get_shared g a = do {
     slot \<leftarrow> index_ck (ga_by_apic_id g) (la_shared a);
     asl_shared slot
   }"

definition put_shared :: "apic_set \<Rightarrow> local_apic \<Rightarrow> shared_state \<Rightarrow> apic_set" where
  "put_shared g a sh =
     g\<lparr>ga_by_apic_id := (ga_by_apic_id g)
         [la_shared a := (ga_by_apic_id g ! la_shared a)\<lparr>asl_shared := Some sh\<rparr>]\<rparr>"

text \<open>A request of the APIC to itself; \<open>scan_irr\<close> notes that the request is new.\<close>

definition request_self :: "apic_set \<Rightarrow> local_apic \<Rightarrow> u8 \<Rightarrow> u8 \<Rightarrow> bool \<Rightarrow> (apic_set \<times> local_apic) option" where
  "request_self g a delivery_mode vector level_triggered = do {
     sh \<leftarrow> get_shared g a;
     let (sh, new) = shared_request_interrupt sh (software_enabled a) delivery_mode vector level_triggered False;
     Some (put_shared g a sh, a\<lparr>la_scan_irr := la_scan_irr a \<or> new\<rparr>)
   }"

definition highest_vector :: "u32 list \<Rightarrow> u8 option" where
  "highest_vector irr =
     (case filter (\<lambda>i. irr ! i \<noteq> 0) (rev [0..<length irr]) of
        [] \<Rightarrow> None
      | i # _ \<Rightarrow> Some (of_nat (i * 32 + (31 - leading_zeros (irr ! i)))))"

definition recompute_next_irr :: "local_apic \<Rightarrow> local_apic" where
  "recompute_next_irr a =
     (case highest_vector (la_irr a) of
        Some v \<Rightarrow> a\<lparr>la_next_irr := Some v\<rparr>
      | None \<Rightarrow> a\<lparr>la_next_irr := None, la_active_auto_eoi := False\<rparr>)"

definition pull_bank :: "nat \<Rightarrow> shared_state \<times> local_apic \<Rightarrow> shared_state \<times> local_apic" where
  "pull_bank i s =
     (let (sh, a) = s; irr = sh_new_irr sh ! i; tmr = sh_tmr sh ! i; auto_eoi = sh_auto_eoi sh ! i in
      if irr = 0 then (sh, a)
      else
        (sh\<lparr>sh_new_irr := (sh_new_irr sh)[i := 0]\<rparr>,
         a\<lparr>la_irr := (la_irr a)[i := la_irr a ! i OR irr],
           la_tmr := (la_tmr a)[i := (la_tmr a ! i AND NOT irr) OR (tmr AND irr)],
           la_auto_eoi := (la_auto_eoi a)[i := (la_auto_eoi a ! i AND NOT irr) OR (auto_eoi AND irr)],
           la_active_auto_eoi := la_active_auto_eoi a \<or> auto_eoi AND irr \<noteq> 0,
           la_needs_offload_reeval := True\<rparr>))"

definition pull_irr :: "apic_set \<Rightarrow> local_apic \<Rightarrow> (apic_set \<times> local_apic) option" where
  "pull_irr g a = do {
     sh \<leftarrow> get_shared g a;
     let (sh, a) = fold pull_bank [0..<8] (sh, a);
     let a = recompute_next_irr a;
     Some (put_shared g a sh, a\<lparr>la_scan_irr := False\<rparr>)
   }"

definition update_slot :: "apic_set \<Rightarrow> local_apic \<Rightarrow> (apic_set \<times> local_apic) option" where
  "update_slot g a = do {
     let a = a\<lparr>la_base_address :=
       (if xapic_enabled a then Some (push_bit 12 (ucast (base_page (la_apic_base a)))) else None)\<rparr>;
     slot \<leftarrow> index_ck (ga_by_apic_id g) (unat (la_id a));
     x2 \<leftarrow> nat_sub_ck (ga_x2apic_enabled g) (of_bool (asl_x2apic_enabled slot));
     let x2_slot = (base_enable (la_apic_base a) \<and> base_x2apic (la_apic_base a));
     x2 \<leftarrow> nat_add_ck x2 (of_bool x2_slot);
     cluster \<leftarrow> nat_sub_ck (ga_logical_cluster_mode g) (of_bool (asl_cluster_mode slot));
     cluster \<leftarrow> nat_add_ck cluster (of_bool (la_cluster_mode a));
     let slot = slot\<lparr>asl_lint := lv_lint (la_lvts a), asl_logical_id := ucast (drop_bit 24 (la_ldr a)),
                     asl_hardware_enabled := hardware_enabled a, asl_software_enabled := software_enabled a,
                     asl_x2apic_enabled := x2_slot, asl_cluster_mode := la_cluster_mode a\<rparr>;
     Some (g\<lparr>ga_x2apic_enabled := x2, ga_logical_cluster_mode := cluster,
             ga_by_apic_id := (ga_by_apic_id g)[unat (la_id a) := slot]\<rparr>, a)
   }"

subsection \<open>Reset and the base register\<close>

definition reset_registers :: "apic_set \<Rightarrow> local_apic \<Rightarrow> (apic_set \<times> local_apic) option" where
  "reset_registers g a = do {
     sh \<leftarrow> get_shared g a;
     update_slot g (a\<lparr>la_ldr := 0, la_cluster_mode := False,
        la_svr := put_bit 8 (sh_software_enabled_on_reset sh) 0xff,
        la_isr := [], la_esr := 0, la_icr := 0, la_next_irr := None, la_irr := replicate 8 0,
        la_needs_offload_reeval := False, la_scan_irr := False, la_tmr := replicate 8 0,
        la_auto_eoi := replicate 8 0, la_active_auto_eoi := False,
        la_lvts := \<lparr>lv_timer = lvt_set_masked 0, lv_thermal = lvt_set_masked 0, lv_pmc = lvt_set_masked 0,
                    lv_lint = [lvt_set_masked 0, lvt_set_masked 0], lv_error = lvt_set_masked 0\<rparr>,
        la_timer := (la_timer a)\<lparr>tm_icr := 0, tm_ccr := 0, tm_dcr := 0, tm_next_timeout := None\<rparr>\<rparr>)
   }"

definition apic_reset :: "apic_set \<Rightarrow> local_apic \<Rightarrow> (apic_set \<times> local_apic) option" where
  "apic_reset g a = do {
     assert_that (\<not> la_is_offloaded a);
     sh \<leftarrow> get_shared g a;
     (g, a) \<leftarrow> reset_registers g
       (a\<lparr>la_apic_base := put_bit 11 True (put_bit 8 (sh_vp_index sh = 0) (set_field 12 24 (ucast APIC_BASE_PAGE) 0))\<rparr>);
     sh \<leftarrow> get_shared g a;
     Some (put_shared g a (sh\<lparr>sh_work := 0, sh_new_irr := replicate 8 0\<rparr>), a)
   }"

definition set_apic_base_inner ::
  "apic_set \<Rightarrow> local_apic \<Rightarrow> u64 \<Rightarrow> (apic_set \<times> local_apic \<times> (invalid_apic_base + unit)) option" where
  "set_apic_base_inner g a requested =
     (let current = la_apic_base a; new = put_bit 8 (base_bsp current) requested in
      if requested AND NOT APIC_BASE_ALLOWED \<noteq> 0 then Some (g, a, Inl ReservedBits)
      else if base_x2apic new \<and> (\<not> base_enable new \<or> \<not> ga_x2apic_capable g) then Some (g, a, Inl InvalidX2Apic)
      else if base_x2apic current \<and> base_enable new \<and> \<not> base_x2apic new then Some (g, a, Inl CantDisableX2Apic)
      else do {
        (g, a) \<leftarrow> (if base_enable current \<and> \<not> base_enable new then reset_registers g a else Some (g, a));
        (g, a) \<leftarrow> update_slot g (a\<lparr>la_apic_base := new\<rparr>);
        Some (g, a, Inr ())
      })"

definition set_apic_base ::
  "apic_set \<Rightarrow> local_apic \<Rightarrow> u64 \<Rightarrow> (apic_set \<times> local_apic \<times> (invalid_apic_base + unit)) option" where
  "set_apic_base g a apic_base = do {
     assert_that (\<not> la_is_offloaded a);
     set_apic_base_inner g a apic_base
   }"

subsection \<open>Creating the set\<close>

definition apic_set_build :: "bool \<Rightarrow> bool \<Rightarrow> apic_set" where
  "apic_set_build x2apic_capable hyperv_enlightenments =
     \<lparr>ga_x2apic_capable = x2apic_capable, ga_hyperv_enlightenments = hyperv_enlightenments,
      ga_x2apic_enabled = 0, ga_logical_cluster_mode = 0, ga_by_apic_id = [], ga_by_index = []\<rparr>"

definition apic_slot_empty :: apic_slot where
  "apic_slot_empty =
     \<lparr>asl_logical_id = 0, asl_hardware_enabled = False, asl_software_enabled = False, asl_cluster_mode = False,
      asl_x2apic_enabled = False, asl_lint = [0, 0], asl_shared = None\<rparr>"

definition shared_state_new :: "u32 \<Rightarrow> bool \<Rightarrow> shared_state" where
  "shared_state_new vp_index software_enabled_on_reset =
     \<lparr>sh_vp_index = vp_index, sh_tmr = replicate 8 0, sh_new_irr = replicate 8 0, sh_auto_eoi = replicate 8 0,
      sh_work = 0, sh_software_enabled_on_reset = software_enabled_on_reset\<rparr>"

definition apic_stats_new :: apic_stats where
  "apic_stats_new =
     \<lparr>st_eoi = 0, st_eoi_level = 0, st_spurious_eoi = 0, st_lazy_eoi = 0, st_interrupt = 0, st_nmi = 0, st_extint = 0,
      st_init = 0, st_sipi = 0, st_self_ipi = 0, st_broadcast_ipi = 0, st_other_ipi = 0, st_offload_push = 0,
      st_offload_pull = 0\<rparr>"

definition local_apic_new :: "u32 \<Rightarrow> local_apic" where
  "local_apic_new apic_id =
     \<lparr>la_shared = unat apic_id, la_apic_base = 0, la_base_address = None, la_id = apic_id, la_version = APIC_VERSION,
      la_ldr = 0, la_cluster_mode = False, la_svr = 0, la_isr = [], la_irr = replicate 8 0, la_tmr = replicate 8 0,
      la_auto_eoi = replicate 8 0, la_next_irr = None, la_esr = 0, la_icr = 0,
      la_lvts = \<lparr>lv_timer = 0, lv_thermal = 0, lv_pmc = 0, lv_lint = [0, 0], lv_error = 0\<rparr>,
      la_timer = \<lparr>tm_icr = 0, tm_ccr = 0, tm_dcr = 0, tm_last_time = 0, tm_next_timeout = None\<rparr>,
      la_active_auto_eoi = False, la_is_offloaded = False, la_needs_offload_reeval = False, la_scan_irr = False,
      la_stats = apic_stats_new\<rparr>"

definition grow :: "nat \<Rightarrow> 'a \<Rightarrow> 'a list \<Rightarrow> 'a list" where
  "grow n x xs = xs @ replicate (n - length xs) x"

definition add_apic :: "apic_set \<Rightarrow> u32 \<Rightarrow> u32 \<Rightarrow> bool \<Rightarrow> (apic_set \<times> local_apic) option" where
  "add_apic g vp_index apic_id software_enabled_on_reset = do {
     let slots = grow (unat apic_id + 1) apic_slot_empty (ga_by_apic_id g);
     let i = unat apic_id;
     assert_that (asl_shared (slots ! i) = None);
     let slots = slots[i := (slots ! i)\<lparr>asl_shared := Some (shared_state_new vp_index software_enabled_on_reset)\<rparr>];
     let by_index = (grow (unat vp_index + 1) 0xffffffff (ga_by_index g))[unat vp_index := apic_id];
     apic_reset (g\<lparr>ga_by_apic_id := slots, ga_by_index := by_index\<rparr>) (local_apic_new apic_id)
   }"

subsection \<open>Timer\<close>

definition update_timeout :: "local_apic \<Rightarrow> u64 \<Rightarrow> local_apic option" where
  "update_timeout a now =
     (if tm_ccr (la_timer a) = 0 then Some (a\<lparr>la_timer := (la_timer a)\<lparr>tm_next_timeout := None\<rparr>\<rparr>)
      else do {
        let ticks = push_bit (unat (dcr_divider_shift (tm_dcr (la_timer a)))) (ucast (tm_ccr (la_timer a)) :: u64);
        nanos \<leftarrow> mul_ck ticks NANOS_PER_TICK;
        Some (a\<lparr>la_timer := (la_timer a)\<lparr>tm_next_timeout := Some (vmtime_wrapping_add now (unat nanos))\<rparr>\<rparr>)
      })"

text \<open>The end of \<open>eval_time\<close>: the new count and the time up to which it is exact.\<close>

definition timer_advance :: "local_apic \<Rightarrow> u32 \<Rightarrow> u64 \<Rightarrow> u8 \<Rightarrow> local_apic option" where
  "timer_advance a ccr counts shift = do {
     elapsed_nanos \<leftarrow> mul_ck (push_bit (unat shift) counts) NANOS_PER_TICK;
     Some (a\<lparr>la_timer := (la_timer a)
       \<lparr>tm_ccr := ccr, tm_last_time := vmtime_wrapping_add (tm_last_time (la_timer a)) (unat elapsed_nanos)\<rparr>\<rparr>)
   }"

definition eval_time :: "apic_set \<Rightarrow> local_apic \<Rightarrow> u64 \<Rightarrow> (apic_set \<times> local_apic) option" where
  "eval_time g a now =
     (let t = la_timer a; lvt = lv_timer (la_lvts a); shift = dcr_divider_shift (tm_dcr t) in
      if tm_ccr t = 0 then Some (g, a)
      else do {
        nanos \<leftarrow> vmtime_checked_sub now (tm_last_time t);
        let raw_nanos = (of_nat nanos :: u64);
        let counts = drop_bit (unat shift) (raw_nanos div NANOS_PER_TICK);
        if counts \<ge> ucast (tm_ccr t) then do {
          (g, a) \<leftarrow> (if \<not> lvt_masked lvt then request_self g a FIXED (lvt_vector lvt) False else Some (g, a));
          if lvt_timer_mode lvt = ONE_SHOT then Some (g, a\<lparr>la_timer := (la_timer a)\<lparr>tm_ccr := 0\<rparr>\<rparr>)
          else do {
            remaining \<leftarrow> sub_ck counts (ucast (tm_ccr t));
            ccr \<leftarrow>
              (if remaining < ucast (tm_icr t) then sub_ck (tm_icr t) (ucast remaining)
               else do {
                 assert_that (tm_icr t \<noteq> 0);
                 sub_ck (tm_icr t) (ucast (remaining mod ucast (tm_icr t)))
               });
            a \<leftarrow> timer_advance a ccr counts shift;
            Some (g, a)
          }
        } else do {
          ccr \<leftarrow> sub_ck (tm_ccr t) (ucast counts);
          a \<leftarrow> timer_advance a ccr counts shift;
          Some (g, a)
        }
      })"

subsection \<open>Delivering interrupts\<close>

definition next_irr :: "local_apic \<Rightarrow> u8 option" where
  "next_irr a =
     (if \<not> software_enabled a then None
      else
        case la_next_irr a of
          None \<Rightarrow> None
        | Some vector \<Rightarrow>
            if (case isr_top (la_isr a) of None \<Rightarrow> 0 | Some v \<Rightarrow> priority v) < priority vector then Some vector else None)"

definition no_work :: apic_work where
  "no_work = \<lparr>wk_init = False, wk_sipi = None, wk_extint = False, wk_nmi = False, wk_interrupt = None\<rparr>"

definition flush :: "apic_set \<Rightarrow> local_apic \<Rightarrow> (apic_set \<times> local_apic \<times> apic_work) option" where
  "flush g a = do {
     sh \<leftarrow> get_shared g a;
     let w = sh_work sh;
     if w = 0 then Some (g, a, no_work)
     else do {
       let a = (if work_init w then bump st_init_update a else a);
       let a = (if work_sipi w then bump st_sipi_update a else a);
       let a = (if work_nmi w then bump st_nmi_update a else a);
       let a = (if work_extint w then bump st_extint_update a else a);
       Some (put_shared g a (sh\<lparr>sh_work := 0\<rparr>), a,
         \<lparr>wk_init = work_init w, wk_sipi = (if work_sipi w then Some (work_sipi_vector w) else None),
          wk_extint = work_extint w, wk_nmi = work_nmi w, wk_interrupt = None\<rparr>)
     }
   }"

text \<open>\<open>scan\<close>: the time of the clock and its timeout stand for \<open>VmTimeAccess\<close>.\<close>

definition scan ::
  "apic_set \<Rightarrow> local_apic \<Rightarrow> u64 \<Rightarrow> u64 option \<Rightarrow> bool \<Rightarrow>
   (apic_set \<times> local_apic \<times> u64 option \<times> apic_work) option" where
  "scan g a now timeout scan_irr =
     (if \<not> hardware_enabled a then Some (g, a, timeout, no_work)
      else do {
        (g, a, timeout) \<leftarrow>
          (case tm_next_timeout (la_timer a) of
             None \<Rightarrow> Some (g, a, timeout)
           | Some next_timeout \<Rightarrow> do {
               (g, a) \<leftarrow>
                 (if vmtime_is_after now next_timeout then do {
                    (g, a) \<leftarrow> eval_time g a now;
                    a \<leftarrow> update_timeout a now;
                    Some (g, a)
                  } else Some (g, a));
               Some (g, a, case tm_next_timeout (la_timer a) of
                             None \<Rightarrow> timeout
                           | Some t \<Rightarrow> set_timeout_if_before timeout t)
             });
        (g, a, r) \<leftarrow> flush g a;
        (g, a) \<leftarrow> (if scan_irr \<or> la_scan_irr a then pull_irr g a else Some (g, a));
        Some (g, a, timeout, if \<not> la_is_offloaded a then r\<lparr>wk_interrupt := next_irr a\<rparr> else r)
      })"

definition apic_acknowledge_interrupt :: "local_apic \<Rightarrow> u8 \<Rightarrow> local_apic option" where
  "apic_acknowledge_interrupt a vector = do {
     assert_that (\<not> la_is_offloaded a);
     assert_that (la_next_irr a = Some vector);
     let (bank, m) = bank_mask vector;
     let a = recompute_next_irr (a\<lparr>la_irr := (la_irr a)[bank := la_irr a ! bank AND NOT m]\<rparr>);
     isr \<leftarrow> (if la_auto_eoi a ! bank AND m = 0 then isr_push (la_isr a) vector else Some (la_isr a));
     Some (bump st_interrupt_update (a\<lparr>la_isr := isr\<rparr>))
   }"

definition request_fixed_interrupts :: "local_apic \<Rightarrow> u32 list \<Rightarrow> local_apic" where
  "request_fixed_interrupts a irr =
     (if hardware_enabled a \<and> software_enabled a then
        let irr = irr[0 := irr ! 0 AND NOT 0xffff] in
        recompute_next_irr
          (a\<lparr>la_irr := map2 (OR) (la_irr a) irr,
             la_tmr := map2 (\<lambda>x y. x AND NOT y) (la_tmr a) irr,
             la_auto_eoi := map2 (\<lambda>x y. x AND NOT y) (la_auto_eoi a) irr,
             la_needs_offload_reeval := True\<rparr>)
      else a)"

definition is_lazy_eoi_pending :: "local_apic \<Rightarrow> bool" where
  "is_lazy_eoi_pending a =
     (if la_is_offloaded a then False
      else
        let edge = (\<lambda>vector. let (bank, m) = bank_mask vector in la_tmr a ! bank AND m = 0) in
        case la_next_irr a of
          Some n \<Rightarrow>
            la_isr a = [] \<and>
            (let (bank, m) = bank_mask n in (replicate 8 0)[bank := m] = la_irr a) \<and>
            edge n
        | None \<Rightarrow> (case isr_top (la_isr a) of Some v \<Rightarrow> edge v | None \<Rightarrow> False))"

subsection \<open>Offload to the hypervisor\<close>

definition accumulate_from_offload :: "local_apic \<Rightarrow> u32 list \<Rightarrow> u32 list \<Rightarrow> local_apic option" where
  "accumulate_from_offload a irr isr = do {
     assert_that (la_is_offloaded a);
     stack \<leftarrow> isr_load_from_bits (map2 (OR) (isr_to_bits (la_isr a)) isr);
     let a = recompute_next_irr (a\<lparr>la_irr := map2 (OR) (la_irr a) irr, la_isr := stack\<rparr>);
     Some (a\<lparr>la_needs_offload_reeval := True\<rparr>)
   }"

definition enable_offload :: "local_apic \<Rightarrow> local_apic" where
  "enable_offload a = a\<lparr>la_is_offloaded := True, la_needs_offload_reeval := True\<rparr>"

definition disable_offload :: "local_apic \<Rightarrow> u32 list \<Rightarrow> u32 list \<Rightarrow> local_apic option" where
  "disable_offload a irr isr = do {
     a \<leftarrow> accumulate_from_offload a irr isr;
     Some (a\<lparr>la_is_offloaded := False\<rparr>)
   }"

definition can_offload_irr :: "local_apic \<Rightarrow> bool" where
  "can_offload_irr a = (la_is_offloaded a \<and> software_enabled a)"

text \<open>\<open>push_to_offload\<close> returns the arguments of the call to \<open>update\<close>, if it is made, or the error.\<close>

definition push_to_offload ::
  "local_apic \<Rightarrow> local_apic \<times> (unit + (u32 list \<times> u32 list \<times> u32 list) option)" where
  "push_to_offload a =
     (if la_needs_offload_reeval a \<and> la_is_offloaded a \<and> software_enabled a then
        (if la_active_auto_eoi a then (a, Inl ())
         else (bump st_offload_push_update
                 (a\<lparr>la_irr := replicate 8 0, la_isr := [], la_needs_offload_reeval := False\<rparr>),
               Inr (Some (la_irr a, isr_to_bits (la_isr a), la_tmr a))))
      else (a, Inr None))"

subsection \<open>Register access\<close>

type_synonym apic_access = "apic_set \<times> local_apic \<times> apic_client"

definition call_client :: "client_call list \<Rightarrow> apic_client \<Rightarrow> apic_client" where
  "call_client calls c = c\<lparr>cl_calls := rev calls @ cl_calls c\<rparr>"

definition ensure_state_local :: "local_apic \<Rightarrow> apic_client \<Rightarrow> (local_apic \<times> apic_client) option" where
  "ensure_state_local a c =
     (if la_is_offloaded a then do {
        let (irr, isr) = cl_offload c;
        a \<leftarrow> accumulate_from_offload a irr isr;
        Some ((bump st_offload_pull_update a)\<lparr>la_needs_offload_reeval := True\<rparr>,
              c\<lparr>cl_offload := (replicate 8 0, replicate 8 0)\<rparr>)
      } else Some (a, c))"

definition apic_eoi :: "local_apic \<Rightarrow> apic_client \<Rightarrow> bool \<Rightarrow> (local_apic \<times> apic_client) option" where
  "apic_eoi a c lazy = do {
     (a, c) \<leftarrow> ensure_state_local a c;
     let (isr, top) = isr_pop (la_isr a);
     let a = a\<lparr>la_isr := isr\<rparr>;
     case top of
       Some vector \<Rightarrow> do {
         let a = (if lazy then bump st_lazy_eoi_update a else bump st_eoi_update a);
         let (bank, m) = bank_mask vector;
         Some (if la_tmr a ! bank AND m \<noteq> 0 then (bump st_eoi_level_update a, call_client [Eoi vector] c) else (a, c))
       }
     | None \<Rightarrow> Some (bump st_spurious_eoi_update a, c)
   }"

definition lazy_eoi :: "local_apic \<Rightarrow> apic_client \<Rightarrow> (local_apic \<times> apic_client) option" where
  "lazy_eoi a c = do {
     assert_that (is_lazy_eoi_pending a);
     apic_eoi a c True
   }"

definition get_ppr :: "local_apic \<Rightarrow> apic_client \<Rightarrow> (local_apic \<times> apic_client \<times> u32) option" where
  "get_ppr a c = do {
     (a, c) \<leftarrow> ensure_state_local a c;
     let isr_pri = priority (isr_top_or_0 (la_isr a));
     Some (a, c, push_bit 4 (max (cl_cr8 c) (ucast isr_pri)))
   }"

definition handle_ipi :: "apic_access \<Rightarrow> u64 \<Rightarrow> apic_access option" where
  "handle_ipi s icr =
     (let (g, a, c) = s; mode = icr_delivery_mode icr; vector = icr_vector icr;
          send = (\<lambda>a dest.
            let (g, wakes) = global_request_interrupt g dest mode vector False
            in (g, a, call_client (map Wake wakes) c)) in
      if \<not> (mode = FIXED \<or> (mode = LOWEST_PRIORITY \<and> \<not> x2apic_enabled a) \<or> mode = DM_NMI \<or>
            (mode = DM_INIT \<and> icr_level_assert icr) \<or> mode = DM_SIPI)
      then Some (g, a, c)
      else if icr_destination_shorthand icr = SHORTHAND_NONE then
        (let dest = from_icr icr (x2apic_enabled a) in
         Some (send
           (case dest of
              Physical _ \<Rightarrow> bump st_other_ipi_update a
            | Logical _ \<Rightarrow> bump st_other_ipi_update a
            | Broadcast \<Rightarrow> bump st_broadcast_ipi_update a
            | AllExcept _ \<Rightarrow> bump st_broadcast_ipi_update a) dest))
      else if icr_destination_shorthand icr = SHORTHAND_SELF then do {
        (g, a) \<leftarrow> request_self g (bump st_self_ipi_update a) mode vector (icr_trigger_mode_level icr);
        Some (g, a, c)
      }
      else if icr_destination_shorthand icr = ALL_INCLUDING_SELF then
        Some (send (bump st_broadcast_ipi_update a) Broadcast)
      else if icr_destination_shorthand icr = ALL_EXCLUDING_SELF then
        Some (send (bump st_broadcast_ipi_update a) (AllExcept (la_id a)))
      else None)"

definition read_register :: "apic_access \<Rightarrow> u8 \<Rightarrow> (apic_access \<times> u32 option) option" where
  "read_register s register =
     (let (g, a, c) = s; value = (\<lambda>v. Some ((g, a, c), Some v)) in
      if register = REG_ID then value (id_register a)
      else if register = REG_VERSION then value (la_version a)
      else if register = REG_TPR then value (push_bit 4 (cl_cr8 c))
      else if register = REG_PPR then do { (a, c, v) \<leftarrow> get_ppr a c; Some ((g, a, c), Some v) }
      else if register = REG_LDR then value (ldr_register a)
      else if register = REG_DFR \<and> \<not> x2apic_enabled a then
        value (if la_cluster_mode a then CLUSTERED_MODE else FLAT_MODE)
      else if register = REG_SVR then value (la_svr a)
      else if REG_ISR0 \<le> register \<and> register \<le> REG_ISR7 then do {
        (a, c) \<leftarrow> ensure_state_local a c;
        Some ((g, a, c), Some (isr_to_bits (la_isr a) ! unat (register - REG_ISR0)))
      }
      else if REG_TMR0 \<le> register \<and> register \<le> REG_TMR7 then do {
        (g, a) \<leftarrow> pull_irr g a;
        Some ((g, a, c), Some (la_tmr a ! unat (register - REG_TMR0)))
      }
      else if REG_IRR0 \<le> register \<and> register \<le> REG_IRR7 then do {
        (a, c) \<leftarrow> ensure_state_local a c;
        (g, a) \<leftarrow> pull_irr g a;
        Some ((g, a, c), Some (la_irr a ! unat (register - REG_IRR0)))
      }
      else if register = REG_ESR then value (la_esr a)
      else if register = REG_ICR0 \<and> \<not> x2apic_enabled a then value (ucast (la_icr a))
      else if register = REG_ICR1 \<and> \<not> x2apic_enabled a then value (ucast (drop_bit 32 (la_icr a)))
      else if register = REG_LVT_TIMER then value (lv_timer (la_lvts a))
      else if register = REG_LVT_THERMAL then value (lv_thermal (la_lvts a))
      else if register = REG_LVT_PMC then value (lv_pmc (la_lvts a))
      else if register = REG_LVT_LINT0 then value (lv_lint (la_lvts a) ! 0)
      else if register = REG_LVT_LINT1 then value (lv_lint (la_lvts a) ! 1)
      else if register = REG_LVT_ERROR then value (lv_error (la_lvts a))
      else if register = REG_TIMER_ICR then value (tm_icr (la_timer a))
      else if register = REG_TIMER_CCR then do {
        (g, a) \<leftarrow> eval_time g a (cl_now c);
        Some ((g, a, c), Some (tm_ccr (la_timer a)))
      }
      else if register = REG_TIMER_DCR then value (tm_dcr (la_timer a))
      else Some ((g, a, c), None))"

definition mask_lvts :: "apic_lvts \<Rightarrow> apic_lvts" where
  "mask_lvts l =
     \<lparr>lv_timer = lvt_set_masked (lv_timer l), lv_thermal = lvt_set_masked (lv_thermal l),
      lv_pmc = lvt_set_masked (lv_pmc l), lv_lint = map lvt_set_masked (lv_lint l),
      lv_error = lvt_set_masked (lv_error l)\<rparr>"

definition write_svr :: "apic_access \<Rightarrow> u32 \<Rightarrow> apic_access option" where
  "write_svr s v = do {
     let (g, a, c) = s;
     (a, c) \<leftarrow> ensure_state_local a c;
     (g, a) \<leftarrow> pull_irr g a;
     let a = a\<lparr>la_svr := v AND SVR_MASK\<rparr>;
     let a = (if \<not> software_enabled a then a\<lparr>la_lvts := mask_lvts (la_lvts a)\<rparr> else a);
     (g, a) \<leftarrow> update_slot g a;
     Some (g, a, c)
   }"

definition write_timer_icr :: "local_apic \<Rightarrow> u64 \<Rightarrow> u32 \<Rightarrow> local_apic option" where
  "write_timer_icr a now v =
     update_timeout (a\<lparr>la_timer := (la_timer a)\<lparr>tm_icr := v, tm_ccr := v, tm_last_time := now\<rparr>\<rparr>) now"

definition write_timer_dcr :: "apic_set \<Rightarrow> local_apic \<Rightarrow> u64 \<Rightarrow> u32 \<Rightarrow> (apic_set \<times> local_apic) option" where
  "write_timer_dcr g a now v = do {
     (g, a) \<leftarrow> eval_time g a now;
     a \<leftarrow> update_timeout (a\<lparr>la_timer := (la_timer a)\<lparr>tm_dcr := v AND DCR_MASK\<rparr>\<rparr>) now;
     Some (g, a)
   }"

definition write_register :: "apic_access \<Rightarrow> u8 \<Rightarrow> u32 \<Rightarrow> (apic_access \<times> bool) option" where
  "write_register s register v =
     (let (g, a, c) = s; lvts = la_lvts a;
          ok = (\<lambda>s. Some (s, True)); invalid = Some ((g, a, c), False);
          set_lvts = (\<lambda>l. Some ((g, a\<lparr>la_lvts := l\<rparr>, c), True)) in
      if register = REG_TPR then ok (g, a, c\<lparr>cl_cr8 := drop_bit 4 v\<rparr>)
      else if register = REG_EOI then
        (if x2apic_enabled a \<and> v \<noteq> 0 then invalid
         else do { (a, c) \<leftarrow> apic_eoi a c False; ok (g, a, c) })
      else if register = REG_LDR \<and> \<not> x2apic_enabled a then do {
        (g, a) \<leftarrow> update_slot g (a\<lparr>la_ldr := v AND 0xff000000\<rparr>);
        ok (g, a, c)
      }
      else if register = REG_DFR \<and> \<not> x2apic_enabled a then do {
        cluster \<leftarrow> dfr_cluster_mode v;
        (g, a) \<leftarrow> update_slot g (a\<lparr>la_cluster_mode := cluster\<rparr>);
        ok (g, a, c)
      }
      else if register = REG_SVR then do { s \<leftarrow> write_svr s v; ok s }
      else if register = REG_ESR then
        (if x2apic_enabled a \<and> v \<noteq> 0 then invalid else ok (g, a\<lparr>la_esr := 0\<rparr>, c))
      else if register = REG_ICR0 \<and> \<not> x2apic_enabled a then do {
        let icr = (ucast v OR (la_icr a AND 0xffffffff00000000)) AND ICR_XAPIC_MASK;
        s \<leftarrow> handle_ipi (g, a\<lparr>la_icr := icr\<rparr>, c) icr;
        ok s
      }
      else if register = REG_ICR1 \<and> \<not> x2apic_enabled a then
        ok (g, a\<lparr>la_icr := (push_bit 32 (ucast v) OR (la_icr a AND 0xffffffff)) AND ICR_XAPIC_MASK\<rparr>, c)
      else if register = REG_LVT_TIMER then set_lvts (lvts\<lparr>lv_timer := effective_lvt a (v AND LVT_TIMER_MASK)\<rparr>)
      else if register = REG_LVT_THERMAL then set_lvts (lvts\<lparr>lv_thermal := effective_lvt a (v AND LVT_DELIVERY_MASK)\<rparr>)
      else if register = REG_LVT_PMC then set_lvts (lvts\<lparr>lv_pmc := effective_lvt a (v AND LVT_DELIVERY_MASK)\<rparr>)
      else if register = REG_LVT_LINT0 \<or> register = REG_LVT_LINT1 then do {
        let i = (if register = REG_LVT_LINT0 then 0 else 1);
        let lvts = lvts\<lparr>lv_lint := (lv_lint lvts)[i := effective_lvt a (v AND LVT_LINT_MASK)]\<rparr>;
        (g, a) \<leftarrow> update_slot g (a\<lparr>la_lvts := lvts\<rparr>);
        ok (g, a, c)
      }
      else if register = REG_LVT_ERROR then set_lvts (lvts\<lparr>lv_error := effective_lvt a (v AND LVT_ERROR_MASK)\<rparr>)
      else if register = REG_TIMER_ICR then do { a \<leftarrow> write_timer_icr a (cl_now c) v; ok (g, a, c) }
      else if register = REG_TIMER_DCR then do { (g, a) \<leftarrow> write_timer_dcr g a (cl_now c) v; ok (g, a, c) }
      else if register = REG_SELF_IPI \<and> x2apic_enabled a then do {
        (g, a) \<leftarrow> request_self g (bump st_self_ipi_update a) FIXED (ucast v) False;
        ok (g, a, c)
      }
      else invalid)"

definition is_valid_apic_access :: "u64 \<Rightarrow> bool" where
  "is_valid_apic_access address =
     (if address AND 0xf = 0 then True
      else if address AND 0xf = 3 then ucast (drop_bit 4 address) \<in> {REG_ID, REG_LDR, REG_DFR}
      else False)"

definition apic_mmio_read :: "apic_access \<Rightarrow> u64 \<Rightarrow> nat \<Rightarrow> (apic_access \<times> u8 list) option" where
  "apic_mmio_read s address len =
     (if \<not> xapic_enabled (fst (snd s)) \<or> \<not> is_valid_apic_access address then Some (s, replicate len 0xff)
      else do {
        (s, v) \<leftarrow> read_register s (ucast (drop_bit 4 address));
        let v = (case v of None \<Rightarrow> 0 | Some v \<Rightarrow> v);
        let offset = unat (address AND 3);
        let n = min len (4 - offset);
        Some (s, slice offset n (le_bytes 4 v) @ replicate (len - n) 0)
      })"

definition apic_mmio_write :: "apic_access \<Rightarrow> u64 \<Rightarrow> u8 list \<Rightarrow> apic_access option" where
  "apic_mmio_write s address data =
     (if \<not> xapic_enabled (fst (snd s)) \<or> \<not> is_valid_apic_access address then Some s
      else do {
        let offset = unat (address AND 3);
        let data = take (min (length data) (4 - offset)) data;
        (s, _) \<leftarrow> write_register s (ucast (drop_bit 4 address)) (of_le_bytes (splice offset data (replicate 4 0)));
        Some s
      })"

definition msr_read :: "apic_access \<Rightarrow> u32 \<Rightarrow> (apic_access \<times> (msr_error + u64)) option" where
  "msr_read s msr =
     (let (g, a, c) = s; hv = ga_hyperv_enlightenments g in
      if msr = X86X_MSR_APIC_BASE then Some (s, Inr (la_apic_base a))
      else if X2APIC_MSR_BASE \<le> msr \<and> msr \<le> X2APIC_MSR_END \<and> x2apic_enabled a then
        (let register = ucast (msr - X2APIC_MSR_BASE) in
         if register = REG_ICR0 then Some (s, Inr (la_icr a))
         else do {
           (s, v) \<leftarrow> read_register s register;
           Some (s, case v of None \<Rightarrow> Inl MsrInvalidAccess | Some v \<Rightarrow> Inr (ucast v))
         })
      else if msr = HV_X64_MSR_APIC_FREQUENCY \<and> hv then Some (s, Inr TIMER_FREQUENCY)
      else if msr = HV_X64_MSR_EOI \<and> hv then Some (s, Inl MsrInvalidAccess)
      else if msr = HV_X64_MSR_ICR \<and> hv then
        Some (s, if \<not> hardware_enabled a then Inl MsrInvalidAccess else Inr (la_icr a))
      else if msr = HV_X64_MSR_TPR \<and> hv then Some (s, Inr (ucast (push_bit 4 (cl_cr8 c))))
      else Some (s, Inl MsrUnknown))"

definition write_icr :: "apic_access \<Rightarrow> u64 \<Rightarrow> (apic_access \<times> (msr_error + unit)) option" where
  "write_icr s icr = do {
     let (g, a, c) = s;
     s \<leftarrow> handle_ipi (g, a\<lparr>la_icr := icr\<rparr>, c) icr;
     Some (s, Inr ())
   }"

definition write_apic_base :: "apic_access \<Rightarrow> u64 \<Rightarrow> (apic_access \<times> (msr_error + unit)) option" where
  "write_apic_base s v = do {
     let (g, a, c) = s;
     (a, c) \<leftarrow> ensure_state_local a c;
     (g, a, res) \<leftarrow> set_apic_base_inner g a v;
     Some (case res of
             Inl _ \<Rightarrow> ((g, a, c), Inl MsrInvalidAccess)
           | Inr _ \<Rightarrow> ((g, a, call_client [SetApicBase (la_apic_base a)] c), Inr ()))
   }"

definition msr_write :: "apic_access \<Rightarrow> u32 \<Rightarrow> u64 \<Rightarrow> (apic_access \<times> (msr_error + unit)) option" where
  "msr_write s msr v =
     (let (g, a, c) = s; hv = ga_hyperv_enlightenments g in
      if msr = X86X_MSR_APIC_BASE then write_apic_base s v
      else if X2APIC_MSR_BASE \<le> msr \<and> msr \<le> X2APIC_MSR_END \<and> x2apic_enabled a then
        (let register = ucast (msr - X2APIC_MSR_BASE) in
         if register = REG_ICR0 then write_icr s (v AND ICR_X2APIC_MASK)
         else do {
           (s, valid) \<leftarrow> write_register s register (ucast v);
           Some (s, if valid then Inr () else Inl MsrInvalidAccess)
         })
      else if msr = HV_X64_MSR_APIC_FREQUENCY \<and> hv then Some (s, Inl MsrInvalidAccess)
      else if msr = HV_X64_MSR_EOI \<and> hv then
        (if \<not> hardware_enabled a then Some (s, Inl MsrInvalidAccess)
         else do { (a, c) \<leftarrow> apic_eoi a c False; Some ((g, a, c), Inr ()) })
      else if msr = HV_X64_MSR_ICR \<and> hv then
        (if x2apic_enabled a then write_icr s (v AND ICR_X2APIC_MASK)
         else if xapic_enabled a then write_icr s (v AND ICR_XAPIC_MASK)
         else Some (s, Inl MsrInvalidAccess))
      else if msr = HV_X64_MSR_TPR \<and> hv then
        (if v > 0xff then Some (s, Inl MsrInvalidAccess)
         else Some ((g, a, c\<lparr>cl_cr8 := drop_bit 4 (ucast v)\<rparr>), Inr ()))
      else Some (s, Inl MsrUnknown))"

subsection \<open>Save and restore\<close>

text \<open>The saved registers; reserved words are zero when saved and ignored when restored.\<close>

record apic_registers =
  rg_id :: u32
  rg_version :: u32
  rg_tpr :: u32
  rg_apr :: u32
  rg_ppr :: u32
  rg_eoi :: u32
  rg_rrd :: u32
  rg_ldr :: u32
  rg_dfr :: u32
  rg_svr :: u32
  rg_isr :: "u32 list"
  rg_tmr :: "u32 list"
  rg_irr :: "u32 list"
  rg_esr :: u32
  rg_lvt_cmci :: u32
  rg_icr :: "u32 \<times> u32"
  rg_lvt_timer :: u32
  rg_lvt_thermal :: u32
  rg_lvt_pmc :: u32
  rg_lvt_lint0 :: u32
  rg_lvt_lint1 :: u32
  rg_lvt_error :: u32
  rg_timer_icr :: u32
  rg_timer_ccr :: u32
  rg_timer_dcr :: u32

record saved_apic =
  sa_apic_base :: u64
  sa_registers :: apic_registers
  sa_auto_eoi :: "u32 list"

definition apic_save :: "apic_set \<Rightarrow> local_apic \<Rightarrow> (apic_set \<times> local_apic \<times> saved_apic) option" where
  "apic_save g a = do {
     assert_that (\<not> la_is_offloaded a);
     (g, a) \<leftarrow> pull_irr g a;
     let l = la_lvts a;
     let registers =
       \<lparr>rg_id = id_register a, rg_version = la_version a, rg_tpr = 0, rg_apr = 0, rg_ppr = 0, rg_eoi = 0, rg_rrd = 0,
        rg_ldr = ldr_register a,
        rg_dfr = (if x2apic_enabled a then 0 else if la_cluster_mode a then CLUSTERED_MODE else FLAT_MODE),
        rg_svr = la_svr a, rg_isr = isr_to_bits (la_isr a), rg_tmr = la_tmr a, rg_irr = la_irr a, rg_esr = la_esr a,
        rg_lvt_cmci = 0, rg_icr = (ucast (la_icr a), ucast (drop_bit 32 (la_icr a))),
        rg_lvt_timer = lv_timer l, rg_lvt_thermal = lv_thermal l, rg_lvt_pmc = lv_pmc l,
        rg_lvt_lint0 = lv_lint l ! 0, rg_lvt_lint1 = lv_lint l ! 1, rg_lvt_error = lv_error l,
        rg_timer_icr = tm_icr (la_timer a), rg_timer_ccr = 0, rg_timer_dcr = tm_dcr (la_timer a)\<rparr>;
     Some (g, a, \<lparr>sa_apic_base = la_apic_base a, sa_registers = registers, sa_auto_eoi = la_auto_eoi a\<rparr>)
   }"

definition apic_restore ::
  "apic_set \<Rightarrow> local_apic \<Rightarrow> saved_apic \<Rightarrow> (apic_set \<times> local_apic \<times> (invalid_apic_base + unit)) option" where
  "apic_restore g a st = do {
     assert_that (\<not> la_is_offloaded a);
     (g, a, res) \<leftarrow> set_apic_base_inner g a (sa_apic_base st);
     case res of
       Inl e \<Rightarrow> Some (g, a, Inl e)
     | Inr _ \<Rightarrow>
         if \<not> hardware_enabled a then Some (g, a, Inr ())
         else do {
           let r = sa_registers st;
           let a = a\<lparr>la_id := (if x2apic_enabled a then rg_id r else drop_bit 24 (rg_id r)), la_version := rg_version r\<rparr>;
           let a = (if \<not> x2apic_enabled a then a\<lparr>la_ldr := rg_ldr r AND 0xff000000\<rparr> else a);
           cluster \<leftarrow> dfr_cluster_mode (rg_dfr r);
           let a = recompute_next_irr (a\<lparr>la_cluster_mode := cluster, la_svr := rg_svr r, la_irr := rg_irr r,
                                          la_tmr := rg_tmr r, la_auto_eoi := sa_auto_eoi st\<rparr>);
           isr \<leftarrow> isr_load_from_bits (rg_isr r);
           let lvts = \<lparr>lv_timer = effective_lvt a (rg_lvt_timer r), lv_thermal = effective_lvt a (rg_lvt_thermal r),
             lv_pmc = effective_lvt a (rg_lvt_pmc r),
             lv_lint = [effective_lvt a (rg_lvt_lint0 r), effective_lvt a (rg_lvt_lint1 r)],
             lv_error = effective_lvt a (rg_lvt_error r)\<rparr>;
           let a = a\<lparr>la_isr := isr, la_esr := rg_esr r,
                     la_icr := ucast (fst (rg_icr r)) OR push_bit 32 (ucast (snd (rg_icr r))),
                     la_lvts := lvts,
                     la_timer := (la_timer a)\<lparr>tm_icr := rg_timer_icr r, tm_dcr := rg_timer_dcr r\<rparr>\<rparr>;
           (g, a) \<leftarrow> update_slot g a;
           Some (g, a\<lparr>la_needs_offload_reeval := True\<rparr>, Inr ())
         }
   }"

end
