(* ===== verification/LocalApicLemmas.thy ===== *)
theory LocalApicLemmas
  imports LocalApic
begin

text \<open>
  Lemmas on the local APIC of \<open>LocalApic\<close>: sets of vectors in banks, the in-service stack, and what each
  operation keeps of a well-formed set of APICs.
\<close>

subsection \<open>Vectors in banks\<close>

definition vec_in :: "u32 list \<Rightarrow> u8 \<Rightarrow> bool" where
  "vec_in banks v = bit (banks ! (unat v div 32)) (unat v mod 32)"

lemma u8_bound: "unat (v :: u8) < 256" "unat v div 32 < 8" "unat (v mod 32) = unat v mod 32"
proof -
  show *: "unat v < 256" using unsigned_less[of v, where 'a = nat] by simp
  show "unat v div 32 < 8" using * by (simp add: div_less_iff_less_mult)
  show "unat (v mod 32) = unat v mod 32" by (simp add: unat_mod)
qed

lemma u8_of_bank: "i < 8 \<Longrightarrow> n < 32 \<Longrightarrow> unat (of_nat (i * 32 + n) :: u8) = i * 32 + n"
  by (simp add: unat_of_nat del: of_nat_add of_nat_mult)

lemma vec_in_bank: "i < 8 \<Longrightarrow> n < 32 \<Longrightarrow> vec_in banks (of_nat (i * 32 + n)) = bit (banks ! i) n"
  by (simp add: vec_in_def u8_of_bank del: of_nat_add of_nat_mult)

lemma bit_bank_mask: "bit (snd (bank_mask v)) n \<longleftrightarrow> n = unat v mod 32" "fst (bank_mask v) = unat v div 32"
proof -
  show "bit (snd (bank_mask v)) n \<longleftrightarrow> n = unat v mod 32"
    by (auto simp: bank_mask_def u8_bound(3) bit_exp_iff possible_bit_word)
  show "fst (bank_mask v) = unat v div 32" by (simp add: bank_mask_def)
qed

lemma bank_mask_zero: "x AND snd (bank_mask v) = 0 \<longleftrightarrow> \<not> bit x (unat v mod 32)"
proof
  assume z: "x AND snd (bank_mask v) = 0"
  have "bit (x AND snd (bank_mask v)) (unat v mod 32) \<longleftrightarrow> bit x (unat v mod 32)" by (simp add: bit_and_iff bit_bank_mask)
  with z show "\<not> bit x (unat v mod 32)" by simp
next
  assume "\<not> bit x (unat v mod 32)"
  then show "x AND snd (bank_mask v) = 0" by (intro bit_word_eqI) (auto simp: bit_and_iff bit_bank_mask)
qed

text \<open>Setting and clearing one vector.\<close>

lemma vec_in_update:
  assumes "length banks = 8"
  shows "vec_in (banks[unat v div 32 := banks ! (unat v div 32) OR snd (bank_mask v)]) w \<longleftrightarrow> w = v \<or> vec_in banks w"
    "vec_in (banks[unat v div 32 := banks ! (unat v div 32) AND NOT (snd (bank_mask v))]) w \<longleftrightarrow> w \<noteq> v \<and> vec_in banks w"
proof -
  have eq: "w = v \<longleftrightarrow> unat w div 32 = unat v div 32 \<and> unat w mod 32 = unat v mod 32"
    by (metis div_mult_mod_eq word_unat_eq_iff)
  have b: "unat w mod 32 < 32" by simp
  show "vec_in (banks[unat v div 32 := banks ! (unat v div 32) OR snd (bank_mask v)]) w \<longleftrightarrow> w = v \<or> vec_in banks w"
    using assms u8_bound(2)[of v] u8_bound(2)[of w] eq
    by (auto simp: vec_in_def nth_list_update bit_or_iff bit_bank_mask)
  show "vec_in (banks[unat v div 32 := banks ! (unat v div 32) AND NOT (snd (bank_mask v))]) w \<longleftrightarrow> w \<noteq> v \<and> vec_in banks w"
    using assms u8_bound(2)[of v] u8_bound(2)[of w] eq
    by (auto simp: vec_in_def nth_list_update bit_and_iff bit_not_iff bit_bank_mask)
qed

lemma banks_eq_iff:
  assumes "length xs = 8" "length ys = 8"
  shows "xs = ys \<longleftrightarrow> (\<forall>v. vec_in xs v = vec_in ys v)"
proof
  assume eq: "\<forall>v. vec_in xs v = vec_in ys v"
  show "xs = ys"
  proof (rule nth_equalityI)
    fix i assume i: "i < length xs"
    show "xs ! i = ys ! i"
    proof (rule bit_word_eqI)
      fix n assume "n < LENGTH(32)"
      then have "n < 32" "i < 8" using i assms by simp_all
      from vec_in_bank[OF this(2,1)] eq show "bit (xs ! i) n = bit (ys ! i) n" by metis
    qed
  qed (use assms in simp)
qed simp

lemma vec_in_zero [simp]: "\<not> vec_in (replicate 8 0) v"
  using u8_bound(2)[of v] by (simp add: vec_in_def)

text \<open>The highest vector of a set of banks.\<close>

lemma highest_vector_None:
  assumes "length irr = 8"
  shows "highest_vector irr = None \<longleftrightarrow> (\<forall>v. \<not> vec_in irr v)"
proof -
  have "highest_vector irr = None \<longleftrightarrow> filter (\<lambda>i. irr ! i \<noteq> 0) (rev [0..<8]) = []"
    using assms by (simp add: highest_vector_def split: list.splits)
  also have "\<dots> \<longleftrightarrow> (\<forall>i<8. irr ! i = 0)" by (auto simp: filter_empty_conv)
  also have "\<dots> \<longleftrightarrow> irr = replicate 8 0" using assms by (auto intro: nth_equalityI)
  also have "\<dots> \<longleftrightarrow> (\<forall>v. \<not> vec_in irr v)" using banks_eq_iff[of irr "replicate 8 0"] assms by simp
  finally show ?thesis .
qed

lemma filter_rev_upt_Cons:
  assumes "filter P (rev [0..<n]) = i # is"
  shows "i < n" "P i" "\<And>j. i < j \<Longrightarrow> j < n \<Longrightarrow> \<not> P j"
  using assms
proof (induction n)
  case (Suc n)
  { case 1 then show ?case using Suc(1) by (auto simp: less_Suc_eq split: if_splits) }
  { case 2 then show ?case using Suc(2) by (auto split: if_splits) }
  { case 3 then show ?case using Suc(3) by (auto simp: less_Suc_eq split: if_splits) }
qed simp_all

lemma highest_vector_Some:
  assumes "length irr = 8" "highest_vector irr = Some v"
  shows "vec_in irr v" "vec_in irr w \<Longrightarrow> w \<le> v"
proof -
  from assms obtain i "is" where f: "filter (\<lambda>i. irr ! i \<noteq> 0) (rev [0..<8]) = i # is"
    and v: "v = of_nat (i * 32 + (31 - leading_zeros (irr ! i)))"
    by (auto simp: highest_vector_def split: list.splits)
  note i = filter_rev_upt_Cons[OF f]
  let ?n = "31 - leading_zeros (irr ! i)"
  have n: "bit (irr ! i) ?n" "?n < 32" using leading_zeros_bit[OF i(2)] by simp_all
  then show "vec_in irr v" unfolding v using vec_in_bank[OF i(1) n(2)] by simp
  assume w: "vec_in irr w"
  let ?j = "unat w div 32" and ?m = "unat w mod 32"
  have b: "bit (irr ! ?j) ?m" using w by (simp add: vec_in_def)
  then have "irr ! ?j \<noteq> 0" by auto
  then have "?j \<le> i" using i(3)[of ?j] u8_bound(2)[of w] by (meson not_le)
  moreover have "?m \<le> ?n" if "?j = i"
  proof -
    have "\<not> 32 - leading_zeros (irr ! i) \<le> ?m" using leading_zeros_bits[of "irr ! i" ?m] b that by auto
    then show ?thesis by simp
  qed
  ultimately have "?j * 32 + ?m \<le> i * 32 + ?n"
    by (cases "?j = i") (auto dest!: le_neq_implies_less intro: order_trans[of _ "(?j + 1) * 32"])
  then have "unat w \<le> i * 32 + ?n" by simp
  then show "w \<le> v"
    unfolding v by (simp add: word_le_nat_alt u8_of_bank[OF i(1) n(2)] del: of_nat_add of_nat_mult)
qed

subsection \<open>The in-service stack\<close>

definition isr_ok :: "u8 list \<Rightarrow> bool" where
  "isr_ok s \<longleftrightarrow> sorted_wrt (\<lambda>x y. priority x < priority y) s \<and> (\<forall>v\<in>set s. 16 \<le> v)"

lemma unat_priority: "unat (priority v) = unat v div 16"
  by (simp add: priority_def unat_drop_bit_eq drop_bit_eq_div unat_div)

lemma priority_less: "priority v < priority w \<longleftrightarrow> unat v div 16 < unat w div 16"
  by (simp add: word_less_nat_alt unat_priority)

lemma priority_bounds: "unat (priority v) < 16" "16 \<le> v \<longleftrightarrow> 1 \<le> unat (priority v)"
proof -
  show "unat (priority v) < 16" using u8_bound(1)[of v] by (simp add: unat_priority div_less_iff_less_mult)
  show "16 \<le> v \<longleftrightarrow> 1 \<le> unat (priority v)" by (auto simp: unat_priority word_le_nat_alt)
qed

lemma isr_ok_length:
  assumes "isr_ok s"
  shows "length s \<le> 15"
proof -
  let ?f = "\<lambda>v. unat (priority v)"
  have "sorted_wrt (<) (map ?f s)" using assms unfolding sorted_wrt_map isr_ok_def word_less_nat_alt by blast
  then have d: "distinct (map ?f s)" by (simp add: strict_sorted_iff)
  have "?f v \<in> {1..15}" if "v \<in> set s" for v
  proof -
    have "16 \<le> v" using assms that by (simp add: isr_ok_def)
    then show ?thesis using priority_bounds[of v] by simp
  qed
  then have "set (map ?f s) \<subseteq> {1..15}" by auto
  then have "card (set (map ?f s)) \<le> 15" using card_mono[of "{1..15 :: nat}"] by fastforce
  then show ?thesis using distinct_card[OF d] by simp
qed

lemma isr_push_ok:
  assumes "isr_ok s" "16 \<le> v" "priority (isr_top_or_0 s) < priority v"
  shows "isr_push s v = Some (s @ [v])" "isr_ok (s @ [v])"
proof -
  show "isr_push s v = Some (s @ [v])" using assms isr_ok_length[OF assms(1)] by (simp add: isr_push_def)
  have "priority x < priority v" if "x \<in> set s" for x
  proof -
    have "s \<noteq> []" using that by auto
    then have "priority x \<le> priority (last s)" using assms(1) that
      by (induction s) (auto simp: isr_ok_def less_imp_le)
    then show ?thesis using assms(3) \<open>s \<noteq> []\<close> by (simp add: isr_top_or_0_def isr_top_def)
  qed
  then show "isr_ok (s @ [v])" using assms(1,2) by (simp add: isr_ok_def sorted_wrt_append)
qed

lemma isr_pop_ok: "isr_ok s \<Longrightarrow> isr_ok (butlast s)"
  by (auto simp: isr_ok_def dest: in_set_butlastD) (metis append_butlast_last_id butlast.simps(1) sorted_wrt_append)

lemma isr_ok_Nil [simp]: "isr_ok []"
  by (simp add: isr_ok_def)

lemma length_isr_to_bits [simp]: "length (isr_to_bits s) = 8"
proof -
  have "length (fold set_bank_bit s b) = length b" for b by (induction s arbitrary: b) (simp_all add: set_bank_bit_def)
  then show ?thesis by (simp add: isr_to_bits_def)
qed

lemma set_bank_bit_alt: "set_bank_bit v b = b[unat v div 32 := b ! (unat v div 32) OR snd (bank_mask v)]"
  by (simp add: set_bank_bit_def bank_mask_def)

lemma vec_in_isr_to_bits [simp]: "vec_in (isr_to_bits s) v \<longleftrightarrow> v \<in> set s"
proof -
  have "length b = 8 \<Longrightarrow> vec_in (fold set_bank_bit s b) v \<longleftrightarrow> v \<in> set s \<or> vec_in b v" for b
    by (induction s arbitrary: b) (auto simp: set_bank_bit_alt vec_in_update)
  then show ?thesis by (simp add: isr_to_bits_def)
qed

text \<open>The half-word of a priority level.\<close>

lemma bit_bits_half:
  assumes "pri < 16" "n < 16"
  shows "bit (bits_half bits pri) n \<longleftrightarrow> vec_in bits (of_nat (16 * pri + n))"
proof -
  have u: "unat (of_nat (16 * pri + n) :: u8) = 16 * pri + n" using assms by (simp add: unat_of_nat del: of_nat_add of_nat_mult)
  have e: "16 * pri + n = (16 * (pri mod 2) + n) + 32 * (pri div 2)" using div_mult_mod_eq[of pri 2] by linarith
  have l: "16 * (pri mod 2) + n < 32" using assms(2) by (cases "even pri") (simp_all add: even_iff_mod_2_eq_zero odd_iff_mod_2_eq_one)
  have "(16 * pri + n) div 32 = pri div 2" "(16 * pri + n) mod 32 = 16 * (pri mod 2) + n"
    unfolding e using l by simp_all
  then show ?thesis
    using assms(2) by (simp add: bits_half_def vec_in_def u bit_unsigned_iff bit_drop_bit_eq del: of_nat_add of_nat_mult)
qed

lemma load_step_vector:
  assumes "pri < 16" "1 \<le> pri" "bits_half bits pri \<noteq> 0"
  obtains v where "isr_load_step bits pri s = isr_push s v" "unat (priority v) = pri" "vec_in bits v"
    "\<And>w. vec_in bits w \<Longrightarrow> unat (priority w) = pri \<Longrightarrow> w \<le> v"
proof -
  let ?h = "bits_half bits pri"
  define n where "n = 15 - leading_zeros ?h"
  have lz: "leading_zeros ?h < 16" "bit ?h n" using leading_zeros_bit[OF assms(3)] by (simp_all add: n_def)
  have n: "n < 16" by (simp add: n_def)
  let ?v = "of_nat (16 * pri + n) :: u8"
  have uv: "unat ?v = 16 * pri + n" using assms(1) n by (simp add: unat_of_nat del: of_nat_add of_nat_mult)
  have "unat (of_nat (leading_zeros ?h) :: u8) = leading_zeros ?h" using lz(1) by (simp add: unat_of_nat)
  then have s: "sub_ck 15 (of_nat (leading_zeros ?h)) = Some (of_nat n :: u8)"
    using lz(1) by (simp add: sub_ck_def word_le_nat_alt n_def of_nat_diff)
  have m: "mul_ck (of_nat pri) 16 = Some (of_nat (16 * pri) :: u8)"
    using assms(1) by (simp add: mul_ck_def unat_of_nat mult.commute)
  have "unat (of_nat (16 * pri) :: u8) + unat (of_nat n :: u8) < 2 ^ LENGTH(8)"
    using assms(1) n by (simp add: unat_of_nat del: of_nat_mult)
  then have a: "add_ck (of_nat (16 * pri)) (of_nat n) = Some ?v" by (simp add: add_ck_def)
  have "isr_load_step bits pri s = isr_push s ?v" using assms(3) s m a by (simp add: isr_load_step_def Let_def)
  moreover have "unat (priority ?v) = pri" using uv n by (simp add: unat_priority)
  moreover have "vec_in bits ?v" using lz(2) bit_bits_half[OF assms(1) n] by simp
  moreover have "w \<le> ?v" if w: "vec_in bits w" "unat (priority w) = pri" for w
  proof -
    let ?k = "unat w mod 16"
    have uw: "unat w = 16 * pri + ?k" using w(2) by (simp add: unat_priority) (metis mult_div_mod_eq)
    then have "w = of_nat (16 * pri + ?k)" by (metis of_nat_unat ucast_id)
    then have "bit ?h ?k" using bit_bits_half[OF assms(1), of ?k bits] w(1) by simp
    then have "\<not> 16 - leading_zeros ?h \<le> ?k" using leading_zeros_bits[of ?h ?k] by auto
    then show ?thesis using uw uv by (simp add: word_le_nat_alt n_def del: of_nat_add of_nat_mult)
  qed
  ultimately show thesis by (rule that)
qed

lemma load_steps:
  assumes "1 \<le> k" "k \<le> 16"
  shows "\<exists>s. for_each (isr_load_step bits) [1..<k] [] = Some s \<and> isr_ok s \<and>
    (\<forall>v\<in>set s. vec_in bits v \<and> unat (priority v) < k) \<and>
    (\<forall>w. vec_in bits w \<longrightarrow> 16 \<le> w \<longrightarrow> unat (priority w) < k \<longrightarrow> (\<exists>v\<in>set s. priority v = priority w \<and> w \<le> v))"
  using assms
proof (induction k rule: nat_induct_at_least)
  case base
  show ?case using priority_bounds(2) by fastforce
next
  case (Suc k)
  then obtain s where s: "for_each (isr_load_step bits) [1..<k] [] = Some s" "isr_ok s"
    "\<And>v. v \<in> set s \<Longrightarrow> vec_in bits v \<and> unat (priority v) < k"
    "\<And>w. vec_in bits w \<Longrightarrow> 16 \<le> w \<Longrightarrow> unat (priority w) < k \<Longrightarrow> \<exists>v\<in>set s. priority v = priority w \<and> w \<le> v"
    by auto
  have app: "for_each (isr_load_step bits) [1..<Suc k] [] = isr_load_step bits k s"
    using Suc(1) s(1) by (cases "isr_load_step bits k s") (simp_all add: for_each_append)
  show ?case
  proof (cases "bits_half bits k = 0")
    case True
    have no: "\<not> vec_in bits w" if "unat (priority w) = k" for w
    proof -
      have "w = of_nat (16 * k + unat w mod 16)"
        using that by (metis mult_div_mod_eq of_nat_unat ucast_id unat_priority)
      then show ?thesis using bit_bits_half[of k "unat w mod 16" bits] Suc True by simp
    qed
    have "isr_load_step bits k s = Some s" using True by (simp add: isr_load_step_def)
    then show ?thesis using app s no by (metis less_SucE less_SucI)
  next
    case False
    from load_step_vector[OF _ Suc(1) False, of s] Suc(3) obtain v where
      v: "isr_load_step bits k s = isr_push s v" "unat (priority v) = k" "vec_in bits v"
        "\<And>w. vec_in bits w \<Longrightarrow> unat (priority w) = k \<Longrightarrow> w \<le> v" by auto
    have "priority (isr_top_or_0 s) < priority v"
      using s(3) v(2) Suc(1) last_in_set[of s]
      by (cases "s = []") (auto simp: isr_top_or_0_def isr_top_def word_less_nat_alt unat_priority)
    moreover have "16 \<le> v" using v(2) Suc(1) by (simp add: priority_bounds(2))
    ultimately have "isr_push s v = Some (s @ [v])" "isr_ok (s @ [v])" using isr_push_ok s(2) by blast+
    then show ?thesis using app v s
      by (auto simp: less_Suc_eq word_unat_eq_iff)
  qed
qed

lemma isr_load_from_bits_ok:
  "\<exists>s. isr_load_from_bits bits = Some s \<and> isr_ok s \<and> (\<forall>v\<in>set s. vec_in bits v) \<and>
    (\<forall>w. vec_in bits w \<longrightarrow> 16 \<le> w \<longrightarrow> (\<exists>v\<in>set s. priority v = priority w \<and> w \<le> v))"
  using load_steps[of 16 bits] priority_bounds(1) unfolding isr_load_from_bits_def by (simp add: priority_bounds(1)) 

lemma isr_ok_unique: "isr_ok s \<Longrightarrow> v \<in> set s \<Longrightarrow> w \<in> set s \<Longrightarrow> priority v = priority w \<Longrightarrow> v = w"
  unfolding isr_ok_def by (metis in_set_conv_nth less_irrefl nat_neq_iff sorted_wrt_nth_less)

lemma isr_ok_sorted: "isr_ok s \<Longrightarrow> sorted_wrt (<) s"
proof -
  assume "isr_ok s"
  moreover have "x < y" if "priority x < priority y" for x y
    using that div_le_mono[of "unat y" "unat x" 16] unfolding word_less_nat_alt unat_priority by linarith
  ultimately show ?thesis unfolding isr_ok_def by (elim conjE sorted_wrt_mono_rel[rotated])
qed

lemma isr_load_to_bits: "isr_ok s \<Longrightarrow> isr_load_from_bits (isr_to_bits s) = Some s"
proof -
  assume ok: "isr_ok s"
  obtain t where t: "isr_load_from_bits (isr_to_bits s) = Some t" "isr_ok t" "\<And>v. v \<in> set t \<Longrightarrow> v \<in> set s"
    "\<And>w. w \<in> set s \<Longrightarrow> 16 \<le> w \<Longrightarrow> \<exists>v\<in>set t. priority v = priority w \<and> w \<le> v"
    using isr_load_from_bits_ok[of "isr_to_bits s"] unfolding vec_in_isr_to_bits by blast
  have "w \<in> set t" if w: "w \<in> set s" for w
  proof -
    have "16 \<le> w" using ok w by (simp add: isr_ok_def)
    from t(4)[OF w this] obtain v where v: "v \<in> set t" "priority v = priority w" by blast
    then show ?thesis using isr_ok_unique[OF ok t(3)[OF v(1)] w] by simp
  qed
  then have "set s = set t" using t(3) by blast
  then have "s = t" using isr_ok_sorted[OF ok] isr_ok_sorted[OF t(2)] by (simp add: strict_sorted_equal)
  then show ?thesis using t(1) by simp
qed

end
