(* ===== verification/LocalApicSafety.thy ===== *)
theory LocalApicSafety
  imports LocalApicLemmas
begin

text \<open>
  The local APICs never panic: a well-formedness invariant of a set of APICs (\<open>set_ok\<close>, \<open>apic_ok\<close>),
  what every operation of one APIC keeps of it and of its neighbours (\<open>apic_inv\<close>), and the machine whose
  steps are all the operations of the set, of its devices and of its virtual processors.
\<close>

subsection \<open>Well-formed sets of APICs\<close>

text \<open>The banks have eight words, and the counters of the set count the flags of the slots.\<close>

definition shared_ok :: "shared_state \<Rightarrow> bool" where
  "shared_ok sh \<longleftrightarrow> length (sh_tmr sh) = 8 \<and> length (sh_new_irr sh) = 8 \<and> length (sh_auto_eoi sh) = 8"

definition slot_ok :: "apic_slot \<Rightarrow> bool" where
  "slot_ok slot \<longleftrightarrow> length (asl_lint slot) = 2 \<and> pred_option shared_ok (asl_shared slot)"

definition set_ok :: "apic_set \<Rightarrow> bool" where
  "set_ok g \<longleftrightarrow> length (ga_by_apic_id g) \<le> 2 ^ 32 \<and> list_all slot_ok (ga_by_apic_id g) \<and>
     ga_x2apic_enabled g = length (filter asl_x2apic_enabled (ga_by_apic_id g)) \<and>
     ga_logical_cluster_mode g = length (filter asl_cluster_mode (ga_by_apic_id g))"

text \<open>\<open>only_slot i g g'\<close>: apart from slot \<open>i\<close>, only the state that requests write differs.\<close>

definition unshared :: "apic_slot \<Rightarrow> apic_slot" where
  "unshared slot = slot\<lparr>asl_shared := None\<rparr>"

definition only_slot :: "nat \<Rightarrow> apic_set \<Rightarrow> apic_set \<Rightarrow> bool" where
  "only_slot i g g' \<longleftrightarrow>
     length (ga_by_apic_id g') = length (ga_by_apic_id g) \<and> ga_by_index g' = ga_by_index g \<and>
     ga_x2apic_capable g' = ga_x2apic_capable g \<and> ga_hyperv_enlightenments g' = ga_hyperv_enlightenments g \<and>
     (\<forall>j<length (ga_by_apic_id g).
        (asl_shared (ga_by_apic_id g' ! j) = None \<longleftrightarrow> asl_shared (ga_by_apic_id g ! j) = None) \<and>
        (j \<noteq> i \<longrightarrow> unshared (ga_by_apic_id g' ! j) = unshared (ga_by_apic_id g ! j)))"

lemma only_slot_refl [simp]: "only_slot i g g"
  by (simp add: only_slot_def)

lemma only_slot_trans: "only_slot i g g' \<Longrightarrow> only_slot i g' g'' \<Longrightarrow> only_slot i g g''"
  by (simp add: only_slot_def)

text \<open>
  One APIC: its registers keep to the bits the processor manual defines, its slot has a copy of what other
  processors need to know, and its timer was last read before the time \<open>now\<close>.
\<close>

definition lvts_ok :: "apic_lvts \<Rightarrow> bool" where
  "lvts_ok l \<longleftrightarrow> lv_timer l AND NOT LVT_TIMER_MASK = 0 \<and> lv_thermal l AND NOT LVT_DELIVERY_MASK = 0 \<and>
     lv_pmc l AND NOT LVT_DELIVERY_MASK = 0 \<and> length (lv_lint l) = 2 \<and>
     list_all (\<lambda>v. v AND NOT LVT_LINT_MASK = 0) (lv_lint l) \<and> lv_error l AND NOT LVT_ERROR_MASK = 0"

definition timer_ok :: "nat \<Rightarrow> apic_timer \<Rightarrow> bool" where
  "timer_ok now t \<longleftrightarrow> tm_ccr t \<le> tm_icr t \<and> tm_dcr t AND NOT DCR_MASK = 0 \<and> unat (tm_last_time t) \<le> now"

definition vectors_ok :: "local_apic \<Rightarrow> bool" where
  "vectors_ok a \<longleftrightarrow> length (la_irr a) = 8 \<and> length (la_tmr a) = 8 \<and> length (la_auto_eoi a) = 8 \<and> isr_ok (la_isr a) \<and>
     (\<not> la_is_offloaded a \<longrightarrow> la_next_irr a = highest_vector (la_irr a))"

definition base_ok :: "bool \<Rightarrow> u64 \<Rightarrow> bool" where
  "base_ok capable base \<longleftrightarrow> base AND NOT APIC_BASE_ALLOWED = 0 \<and> (base_x2apic base \<longrightarrow> base_enable base \<and> capable)"

definition registers_ok :: "apic_set \<Rightarrow> nat \<Rightarrow> local_apic \<Rightarrow> bool" where
  "registers_ok g now a \<longleftrightarrow>
     la_shared a = unat (la_id a) \<and> la_shared a < length (ga_by_apic_id g) \<and>
     asl_shared (ga_by_apic_id g ! la_shared a) \<noteq> None \<and>
     base_ok (ga_x2apic_capable g) (la_apic_base a) \<and> la_ldr a AND 0x00ffffff = 0 \<and>
     la_svr a AND NOT SVR_MASK = 0 \<and> la_icr a AND NOT ICR_X2APIC_MASK = 0 \<and>
     lvts_ok (la_lvts a) \<and> timer_ok now (la_timer a) \<and> vectors_ok a"

definition slot_mirrors :: "local_apic \<Rightarrow> apic_slot \<Rightarrow> bool" where
  "slot_mirrors a slot \<longleftrightarrow>
     asl_lint slot = lv_lint (la_lvts a) \<and> asl_logical_id slot = ucast (drop_bit 24 (la_ldr a)) \<and>
     asl_hardware_enabled slot = hardware_enabled a \<and> asl_software_enabled slot = software_enabled a \<and>
     asl_x2apic_enabled slot = x2apic_enabled a \<and> asl_cluster_mode slot = la_cluster_mode a"

definition apic_ok :: "apic_set \<Rightarrow> nat \<Rightarrow> local_apic \<Rightarrow> bool" where
  "apic_ok g now a \<longleftrightarrow> registers_ok g now a \<and> slot_mirrors a (ga_by_apic_id g ! la_shared a) \<and>
     la_base_address a = (if xapic_enabled a then Some (push_bit 12 (ucast (base_page (la_apic_base a)))) else None)"

text \<open>What every operation of the APIC with identifier \<open>i\<close> keeps, in the set \<open>g0\<close>.\<close>

definition reg_inv :: "apic_set \<Rightarrow> u32 \<Rightarrow> nat \<Rightarrow> apic_set \<times> local_apic \<Rightarrow> bool" where
  "reg_inv g0 i now = (\<lambda>(g, a). set_ok g \<and> la_id a = i \<and> registers_ok g now a \<and> only_slot (unat i) g0 g)"

definition apic_inv :: "apic_set \<Rightarrow> u32 \<Rightarrow> nat \<Rightarrow> apic_set \<times> local_apic \<Rightarrow> bool" where
  "apic_inv g0 i now = (\<lambda>(g, a). set_ok g \<and> la_id a = i \<and> apic_ok g now a \<and> only_slot (unat i) g0 g)"

lemma slot_mirrors_unshared: "slot_mirrors a (unshared slot) = slot_mirrors a slot"
  by (simp add: slot_mirrors_def unshared_def)

lemma apic_ok_other:
  assumes "apic_ok g now b" "only_slot i g g'" "la_shared b \<noteq> i"
  shows "apic_ok g' now b"
proof -
  have *: "unshared (ga_by_apic_id g' ! la_shared b) = unshared (ga_by_apic_id g ! la_shared b)"
    "asl_shared (ga_by_apic_id g' ! la_shared b) \<noteq> None" "la_shared b < length (ga_by_apic_id g')"
    "ga_x2apic_capable g' = ga_x2apic_capable g"
    using assms unfolding only_slot_def apic_ok_def registers_ok_def by auto
  then have "slot_mirrors b (ga_by_apic_id g' ! la_shared b)"
    using assms(1) slot_mirrors_unshared unfolding apic_ok_def by metis
  then show ?thesis using assms(1) * by (simp add: apic_ok_def registers_ok_def)
qed

text \<open>Time may pass between operations.\<close>

lemma apic_ok_later: "apic_ok g now a \<Longrightarrow> now \<le> later \<Longrightarrow> apic_ok g later a"
  by (auto simp: apic_ok_def registers_ok_def timer_ok_def)

subsection \<open>Requests\<close>

lemma shared_request_ok: "shared_ok sh \<Longrightarrow> shared_ok (fst (shared_request_interrupt sh enabled mode v level auto_eoi))"
  by (simp add: shared_request_interrupt_def shared_ok_def Let_def split: prod.split)

definition slot_requested :: "apic_slot \<Rightarrow> apic_slot \<Rightarrow> bool" where
  "slot_requested slot slot' \<longleftrightarrow> unshared slot' = unshared slot \<and> (slot_ok slot \<longrightarrow> slot_ok slot') \<and>
     (asl_shared slot' = None \<longleftrightarrow> asl_shared slot = None)"

lemma slot_requested_refl [simp]: "slot_requested slot slot"
  by (simp add: slot_requested_def)

lemma slot_request_requested: "slot_requested slot (fst (slot_request_interrupt slot mode v level auto_eoi))"
  using shared_request_ok
  by (auto simp: slot_request_interrupt_def slot_requested_def unshared_def slot_ok_def Let_def split: option.split prod.split)
     (metis fst_conv)

lemma request_slots_requested:
  "list_all2 slot_requested slots (fst (request_slots mode v level keep n slots))"
proof (induction slots arbitrary: n)
  case (Cons slot slots)
  have r: "slot_requested slot (fst (slot_request_interrupt slot mode v level False))" by (rule slot_request_requested)
  show ?case using Cons[of "Suc n"] r
    by (auto simp: list.rel_refl split: prod.split)
qed simp

definition set_requested :: "apic_set \<Rightarrow> apic_set \<Rightarrow> bool" where
  "set_requested g g' \<longleftrightarrow> list_all2 slot_requested (ga_by_apic_id g) (ga_by_apic_id g') \<and>
     g'\<lparr>ga_by_apic_id := []\<rparr> = g\<lparr>ga_by_apic_id := []\<rparr>"

lemma set_requested_refl [simp]: "set_requested g g"
  by (simp add: set_requested_def list.rel_refl)

lemma slot_requested_trans: "slot_requested x y \<Longrightarrow> slot_requested y z \<Longrightarrow> slot_requested x z"
  by (simp add: slot_requested_def)

lemma set_requested_trans: "set_requested g g' \<Longrightarrow> set_requested g' g'' \<Longrightarrow> set_requested g g''"
  unfolding set_requested_def by (auto intro: list_all2_trans[OF slot_requested_trans])

lemma unshared_fields:
  assumes "unshared x = unshared y"
  shows "asl_x2apic_enabled x = asl_x2apic_enabled y" "asl_cluster_mode x = asl_cluster_mode y" "asl_lint x = asl_lint y"
    "asl_hardware_enabled x = asl_hardware_enabled y" "asl_software_enabled x = asl_software_enabled y"
  using assms[THEN arg_cong, of asl_x2apic_enabled] assms[THEN arg_cong, of asl_cluster_mode]
    assms[THEN arg_cong, of asl_lint] assms[THEN arg_cong, of asl_hardware_enabled]
    assms[THEN arg_cong, of asl_software_enabled]
  by (simp_all add: unshared_def)

lemma requested_counts:
  "list_all2 slot_requested xs ys \<Longrightarrow>
     length (filter asl_x2apic_enabled ys) = length (filter asl_x2apic_enabled xs) \<and>
     length (filter asl_cluster_mode ys) = length (filter asl_cluster_mode xs)"
  by (induction rule: list_all2_induct) (auto simp: slot_requested_def dest: unshared_fields)

lemma set_requested_keeps:
  assumes "set_requested g g'"
  shows "set_ok g \<Longrightarrow> set_ok g'" "only_slot i g g'" "apic_ok g now a \<Longrightarrow> apic_ok g' now a"
    "registers_ok g now a \<Longrightarrow> registers_ok g' now a"
proof -
  let ?s = "ga_by_apic_id g" and ?s' = "ga_by_apic_id g'"
  have r: "list_all2 slot_requested ?s ?s'" and g': "g'\<lparr>ga_by_apic_id := []\<rparr> = g\<lparr>ga_by_apic_id := []\<rparr>" using assms by (simp_all add: set_requested_def)
  have f: "ga_x2apic_enabled g' = ga_x2apic_enabled g" "ga_logical_cluster_mode g' = ga_logical_cluster_mode g"
    "ga_by_index g' = ga_by_index g" "ga_x2apic_capable g' = ga_x2apic_capable g"
    "ga_hyperv_enlightenments g' = ga_hyperv_enlightenments g" 
    using g'[THEN arg_cong, of ga_x2apic_enabled] g'[THEN arg_cong, of ga_logical_cluster_mode]
      g'[THEN arg_cong, of ga_by_index] g'[THEN arg_cong, of ga_x2apic_capable]
      g'[THEN arg_cong, of ga_hyperv_enlightenments] by simp_all
  have l: "length ?s' = length ?s" using r list_all2_lengthD by fastforce
  have n: "slot_requested (?s ! j) (?s' ! j)" if "j < length ?s" for j using r that by (simp add: list_all2_nthD)
  show "set_ok g'" if "set_ok g"
    using that n requested_counts[OF r] by (simp add: set_ok_def f l list_all_length slot_requested_def)
  show "only_slot i g g'" using n by (simp add: only_slot_def f l slot_requested_def)
  show rg: "registers_ok g' now a" if ok: "registers_ok g now a"
    using ok n[of "la_shared a"] by (auto simp: registers_ok_def f l slot_requested_def)
  show "apic_ok g' now a" if ok: "apic_ok g now a"
  proof -
    have i: "la_shared a < length ?s" using ok by (simp add: apic_ok_def registers_ok_def)
    have "slot_mirrors a (?s' ! la_shared a)" using n[OF i] ok slot_mirrors_unshared
      unfolding slot_requested_def apic_ok_def by metis
    then show ?thesis using ok rg unfolding apic_ok_def by blast
  qed
qed

lemma request_at_requested: "set_requested g (fst (request_at g i mode v level auto_eoi))"
proof -
  have "list_all2 slot_requested (ga_by_apic_id g)
      ((ga_by_apic_id g)[i := fst (slot_request_interrupt (ga_by_apic_id g ! i) mode v level auto_eoi)])"
    by (cases "i < length (ga_by_apic_id g)")
       (auto simp: list_all2_conv_all_nth nth_list_update slot_request_requested)
  then show ?thesis by (auto simp: request_at_def set_requested_def Let_def list.rel_refl split: prod.split)
qed

lemma request_set_requested: "set_requested g (fst (request_set_interrupt g mode v level keep))"
  using request_slots_requested[of "ga_by_apic_id g" mode v level keep 0]
  by (auto simp: request_set_interrupt_def set_requested_def split: prod.split)

lemma request_cluster_requested: "set_requested g (fst (request_cluster g base logical_id mode v level is))"
proof (induction "is" arbitrary: g)
  case (Cons i "is")
  let ?g = "fst (request_at g (unat (base OR of_nat i)) mode v level False)"
  have "set_requested g ?g" by (rule request_at_requested)
  moreover have "set_requested g (fst (request_cluster ?g base logical_id mode v level is))"
    using calculation Cons[of ?g] by (rule set_requested_trans)
  ultimately show ?case using Cons[of g] by (simp add: Let_def split: prod.split) (metis fst_conv)
qed simp

lemma global_request_requested: "set_requested g (fst (global_request_interrupt g dest mode v level))"
  by (simp add: global_request_interrupt_def request_at_requested request_set_requested request_cluster_requested
      request_broadcast_interrupt_def split: destination.split)

subsection \<open>The state shared with other processors\<close>

lemma get_shared_ok:
  assumes "set_ok g" "registers_ok g now a"
  obtains sh where "get_shared g a = Some sh" "shared_ok sh"
proof -
  have i: "la_shared a < length (ga_by_apic_id g)" using assms(2) by (simp add: registers_ok_def)
  obtain sh where sh: "asl_shared (ga_by_apic_id g ! la_shared a) = Some sh" using assms(2) by (auto simp: registers_ok_def)
  moreover have "slot_ok (ga_by_apic_id g ! la_shared a)" using assms(1) i by (simp add: set_ok_def list_all_length)
  ultimately show thesis using that i by (simp add: get_shared_def slot_ok_def)
qed

lemma put_shared_requested:
  assumes "registers_ok g now a" "shared_ok sh"
  shows "set_requested g (put_shared g a sh)"
proof -
  have "slot_requested (ga_by_apic_id g ! la_shared a) ((ga_by_apic_id g ! la_shared a)\<lparr>asl_shared := Some sh\<rparr>)"
    using assms by (auto simp: slot_requested_def unshared_def slot_ok_def registers_ok_def)
  then show ?thesis
    by (auto simp: put_shared_def set_requested_def list_all2_conv_all_nth nth_list_update')
qed

lemma apic_inv_put:
  assumes "apic_inv g0 i now (g, a)" "shared_ok sh"
  shows "apic_inv g0 i now (put_shared g a sh, a)"
proof -
  have "set_requested g (put_shared g a sh)" using assms by (auto simp: apic_inv_def apic_ok_def intro: put_shared_requested)
  from set_requested_keeps(1-3)[OF this] show ?thesis using assms(1) only_slot_trans by (auto simp: apic_inv_def)
qed

lemma reg_inv_put:
  assumes "reg_inv g0 i now (g, a)" "shared_ok sh"
  shows "reg_inv g0 i now (put_shared g a sh, a)"
proof -
  have "set_requested g (put_shared g a sh)" using assms by (auto simp: reg_inv_def intro: put_shared_requested)
  from set_requested_keeps(1,2,4)[OF this] show ?thesis using assms(1) only_slot_trans by (auto simp: reg_inv_def)
qed

lemma apic_inv_global:
  assumes "apic_inv g0 i now (g, a)" "set_requested g g'"
  shows "apic_inv g0 i now (g', a)"
  using set_requested_keeps(1-3)[OF assms(2)] assms(1) only_slot_trans by (auto simp: apic_inv_def)

lemma apic_inv_reg: "apic_inv g0 i now s \<Longrightarrow> reg_inv g0 i now s"
  by (auto simp: apic_inv_def reg_inv_def apic_ok_def)

lemma apic_inv_shared:
  assumes "apic_inv g0 i now (g, a)"
  obtains sh where "get_shared g a = Some sh" "shared_ok sh"
proof -
  have "set_ok g" "registers_ok g now a" using assms by (auto simp: apic_inv_def apic_ok_def)
  from get_shared_ok[OF this] show thesis using that by blast
qed

text \<open>The fields that only vectors are recorded in.\<close>

definition vec_frame :: "local_apic \<Rightarrow> local_apic" where
  "vec_frame a = a\<lparr>la_irr := [], la_tmr := [], la_auto_eoi := [], la_isr := [], la_next_irr := None, la_active_auto_eoi := False,
     la_needs_offload_reeval := False, la_is_offloaded := False, la_scan_irr := False, la_icr := 0, la_esr := 0, la_version := 0,
     la_stats := apic_stats_new\<rparr>"

lemma vec_frame_fields:
  assumes "vec_frame b = vec_frame a"
  shows "la_id b = la_id a" "la_shared b = la_shared a" "la_apic_base b = la_apic_base a" "la_base_address b = la_base_address a"
    "la_svr b = la_svr a" "la_ldr b = la_ldr a" "la_cluster_mode b = la_cluster_mode a"
    "la_lvts b = la_lvts a" "la_timer b = la_timer a"
  using assms[THEN arg_cong, of la_id] assms[THEN arg_cong, of la_shared] assms[THEN arg_cong, of la_apic_base]
    assms[THEN arg_cong, of la_base_address] assms[THEN arg_cong, of la_svr] assms[THEN arg_cong, of la_ldr]
    assms[THEN arg_cong, of la_cluster_mode] assms[THEN arg_cong, of la_lvts] assms[THEN arg_cong, of la_timer]
  by (simp_all add: vec_frame_def)

text \<open>An operation on vectors keeps the invariant if it keeps the vectors well-formed.\<close>

lemma apic_inv_vectors:
  assumes "apic_inv g0 i now (g, a)" "vec_frame b = vec_frame a" "vectors_ok b" "la_icr b AND NOT ICR_X2APIC_MASK = 0"
  shows "apic_inv g0 i now (g, b)"
proof -
  note f = vec_frame_fields[OF assms(2)]
  have "registers_ok g now b" using assms by (auto simp: apic_inv_def apic_ok_def registers_ok_def f)
  moreover have "slot_mirrors b slot = slot_mirrors a slot" for slot
    by (simp add: slot_mirrors_def hardware_enabled_def software_enabled_def x2apic_enabled_def f)
  moreover have "xapic_enabled b = xapic_enabled a"
    by (simp add: xapic_enabled_def hardware_enabled_def x2apic_enabled_def f)
  ultimately show ?thesis using assms(1) by (simp add: apic_inv_def apic_ok_def f)
qed

lemma apic_inv_scan_irr:
  assumes "apic_inv g0 i now (g, a)"
  shows "apic_inv g0 i now (g, a\<lparr>la_scan_irr := b\<rparr>)"
proof (rule apic_inv_vectors[OF assms])
  show "vec_frame (a\<lparr>la_scan_irr := b\<rparr>) = vec_frame a" by (simp add: vec_frame_def)
  show "vectors_ok (a\<lparr>la_scan_irr := b\<rparr>)" "la_icr (a\<lparr>la_scan_irr := b\<rparr>) AND NOT ICR_X2APIC_MASK = 0"
    using assms by (auto simp: apic_inv_def apic_ok_def registers_ok_def vectors_ok_def)
qed

lemma request_self_inv:
  assumes "apic_inv g0 i now (g, a)"
  shows "returns (request_self g a mode v level) (apic_inv g0 i now)"
proof -
  from apic_inv_shared[OF assms] obtain sh where sh: "get_shared g a = Some sh" "shared_ok sh" .
  then show ?thesis
    using apic_inv_put[OF assms shared_request_ok[OF sh(2)], of "software_enabled a" mode v level False]
    by (auto simp: request_self_def apic_inv_scan_irr split: prod.split)
qed

text \<open>Pulling in the requests: bank by bank, the requested vectors replace what the APIC had for them.\<close>

definition pull_frame :: "local_apic \<Rightarrow> local_apic" where
  "pull_frame a = a\<lparr>la_irr := [], la_tmr := [], la_auto_eoi := [], la_active_auto_eoi := False, la_needs_offload_reeval := False\<rparr>"

definition pulled :: "nat \<Rightarrow> shared_state \<times> local_apic \<Rightarrow> shared_state \<times> local_apic \<Rightarrow> bool" where
  "pulled k = (\<lambda>(sh, a) (sh', a').
     pull_frame a' = pull_frame a \<and> sh'\<lparr>sh_new_irr := []\<rparr> = sh\<lparr>sh_new_irr := []\<rparr> \<and>
     length (sh_new_irr sh') = 8 \<and> length (la_irr a') = 8 \<and> length (la_tmr a') = 8 \<and> length (la_auto_eoi a') = 8 \<and>
     (\<forall>j<8. let new = (if j < k then sh_new_irr sh ! j else 0) in
        sh_new_irr sh' ! j = (if j < k then 0 else sh_new_irr sh ! j) \<and>
        la_irr a' ! j = la_irr a ! j OR new \<and>
        la_tmr a' ! j = (la_tmr a ! j AND NOT new) OR (sh_tmr sh ! j AND new) \<and>
        la_auto_eoi a' ! j = (la_auto_eoi a ! j AND NOT new) OR (sh_auto_eoi sh ! j AND new)))"

lemma shared_frame:
  assumes "sh'\<lparr>sh_new_irr := []\<rparr> = sh\<lparr>sh_new_irr := []\<rparr>"
  shows "sh_tmr sh' = sh_tmr sh" "sh_auto_eoi sh' = sh_auto_eoi sh" "sh_work sh' = sh_work sh"
  using assms[THEN arg_cong, of sh_tmr] assms[THEN arg_cong, of sh_auto_eoi] assms[THEN arg_cong, of sh_work]
  by simp_all

lemma fold_pull_bank:
  assumes "length (la_irr a) = 8" "length (la_tmr a) = 8" "length (la_auto_eoi a) = 8" "shared_ok sh" "k \<le> 8"
  shows "pulled k (sh, a) (fold pull_bank [0..<k] (sh, a))"
  using assms(5)
proof (induction k)
  case 0
  then show ?case using assms by (simp add: pulled_def shared_ok_def)
next
  case (Suc k)
  obtain sh' a' where f: "fold pull_bank [0..<k] (sh, a) = (sh', a')" by fastforce
  then have p: "pulled k (sh, a) (sh', a')" using Suc by simp
  then have e: "sh'\<lparr>sh_new_irr := []\<rparr> = sh\<lparr>sh_new_irr := []\<rparr>" by (simp add: pulled_def)
  have new: "sh_new_irr sh' ! k = sh_new_irr sh ! k" "sh_tmr sh' = sh_tmr sh" "sh_auto_eoi sh' = sh_auto_eoi sh"
    using p Suc(2) shared_frame[OF e] by (simp_all add: pulled_def Let_def)
  show ?case
  proof (cases "sh_new_irr sh ! k = 0")
    case True
    then have "pull_bank k (sh', a') = (sh', a')" using new by (simp add: pull_bank_def)
    then show ?thesis using p True by (auto simp: f pulled_def Let_def less_Suc_eq)
  next
    case False
    then obtain active where "pull_bank k (sh', a') =
        (sh'\<lparr>sh_new_irr := (sh_new_irr sh')[k := 0]\<rparr>,
         a'\<lparr>la_irr := (la_irr a')[k := la_irr a' ! k OR sh_new_irr sh ! k],
           la_tmr := (la_tmr a')[k := (la_tmr a' ! k AND NOT (sh_new_irr sh ! k)) OR (sh_tmr sh ! k AND sh_new_irr sh ! k)],
           la_auto_eoi := (la_auto_eoi a')[k := (la_auto_eoi a' ! k AND NOT (sh_new_irr sh ! k)) OR (sh_auto_eoi sh ! k AND sh_new_irr sh ! k)],
           la_active_auto_eoi := active, la_needs_offload_reeval := True\<rparr>)"
      using new by (auto simp: pull_bank_def Let_def)
    then show ?thesis using p Suc(2)
      by (auto simp: f pulled_def Let_def less_Suc_eq pull_frame_def nth_list_update)
  qed
qed

lemma pulled_shared: "pulled k (sh, a) (sh', a') \<Longrightarrow> shared_ok sh \<Longrightarrow> shared_ok sh'"
proof -
  assume p: "pulled k (sh, a) (sh', a')" "shared_ok sh"
  then have e: "sh'\<lparr>sh_new_irr := []\<rparr> = sh\<lparr>sh_new_irr := []\<rparr>" by (simp add: pulled_def)
  show ?thesis using p shared_frame[OF e] by (simp add: shared_ok_def pulled_def)
qed

subsection \<open>Recomputing the next vector and pulling in requests\<close>

lemma recompute_fields [simp]:
  "la_next_irr (recompute_next_irr a) = highest_vector (la_irr a)" "la_irr (recompute_next_irr a) = la_irr a"
  "la_tmr (recompute_next_irr a) = la_tmr a" "la_auto_eoi (recompute_next_irr a) = la_auto_eoi a"
  "la_isr (recompute_next_irr a) = la_isr a" "la_is_offloaded (recompute_next_irr a) = la_is_offloaded a"
  "la_icr (recompute_next_irr a) = la_icr a" "la_shared (recompute_next_irr a) = la_shared a"
  "vec_frame (recompute_next_irr a) = vec_frame a"
  by (simp_all add: recompute_next_irr_def vec_frame_def split: option.split)

lemma pull_frame_fields:
  assumes "pull_frame b = pull_frame a"
  shows "la_isr b = la_isr a" "la_is_offloaded b = la_is_offloaded a" "la_icr b = la_icr a" "vec_frame b = vec_frame a"
    "la_shared b = la_shared a" "la_svr b = la_svr a"
  using assms[THEN arg_cong, of la_isr] assms[THEN arg_cong, of la_is_offloaded] assms[THEN arg_cong, of la_icr]
    assms[THEN arg_cong, of vec_frame] assms[THEN arg_cong, of la_shared] assms[THEN arg_cong, of la_svr]
  by (simp_all add: pull_frame_def vec_frame_def)

lemma put_shared_cong: "la_shared b = la_shared a \<Longrightarrow> put_shared g b sh = put_shared g a sh"
  by (simp add: put_shared_def)

lemma pull_irr_result:
  assumes "apic_inv g0 i now (g, a)"
  obtains sh a' where "get_shared g a = Some sh" "shared_ok sh"
    "pull_irr g a = Some (put_shared g a (sh\<lparr>sh_new_irr := replicate 8 0\<rparr>), a')"
    "apic_inv g0 i now (put_shared g a (sh\<lparr>sh_new_irr := replicate 8 0\<rparr>), a')"
    "vec_frame a' = vec_frame a" "la_isr a' = la_isr a" "la_is_offloaded a' = la_is_offloaded a" "la_icr a' = la_icr a"
    "la_next_irr a' = highest_vector (la_irr a')"
    "\<And>v. vec_in (la_irr a') v \<longleftrightarrow> vec_in (la_irr a) v \<or> vec_in (sh_new_irr sh) v"
    "\<And>v. vec_in (la_tmr a') v \<longleftrightarrow> (if vec_in (sh_new_irr sh) v then vec_in (sh_tmr sh) v else vec_in (la_tmr a) v)"
    "\<And>v. vec_in (la_auto_eoi a') v \<longleftrightarrow> (if vec_in (sh_new_irr sh) v then vec_in (sh_auto_eoi sh) v else vec_in (la_auto_eoi a) v)"
proof -
  from apic_inv_shared[OF assms] obtain sh where sh: "get_shared g a = Some sh" "shared_ok sh" .
  have vok: "vectors_ok a" "la_icr a AND NOT ICR_X2APIC_MASK = 0" using assms by (auto simp: apic_inv_def apic_ok_def registers_ok_def)
  obtain sh' b where f: "fold pull_bank [0..<8] (sh, a) = (sh', b)" by fastforce
  have "pulled 8 (sh, a) (sh', b)" using fold_pull_bank[of a sh 8] vok sh(2) by (simp add: vectors_ok_def f)
  then have p: "pull_frame b = pull_frame a" "sh'\<lparr>sh_new_irr := []\<rparr> = sh\<lparr>sh_new_irr := []\<rparr>"
    "length (sh_new_irr sh') = 8" "length (la_irr b) = 8" "length (la_tmr b) = 8" "length (la_auto_eoi b) = 8"
    "\<And>j. j < 8 \<Longrightarrow> sh_new_irr sh' ! j = 0" "\<And>j. j < 8 \<Longrightarrow> la_irr b ! j = la_irr a ! j OR sh_new_irr sh ! j"
    "\<And>j. j < 8 \<Longrightarrow> la_tmr b ! j = (la_tmr a ! j AND NOT (sh_new_irr sh ! j)) OR (sh_tmr sh ! j AND sh_new_irr sh ! j)"
    "\<And>j. j < 8 \<Longrightarrow> la_auto_eoi b ! j = (la_auto_eoi a ! j AND NOT (sh_new_irr sh ! j)) OR (sh_auto_eoi sh ! j AND sh_new_irr sh ! j)"
    by (simp_all add: pulled_def Let_def)
  have new: "sh_new_irr sh' = replicate 8 0" by (rule nth_equalityI) (simp_all add: p)
  have s': "sh' = sh\<lparr>sh_new_irr := replicate 8 0\<rparr>"
    using p(2)[THEN arg_cong, of "sh_new_irr_update (\<lambda>_. replicate 8 0)"] new[symmetric] by simp
  let ?a = "(recompute_next_irr b)\<lparr>la_scan_irr := False\<rparr>"
  note pf = pull_frame_fields[OF p(1)]
  let ?g = "put_shared g a (sh\<lparr>sh_new_irr := replicate 8 0\<rparr>)"
  have fr: "vec_frame ?a = vec_frame a" using pf(4) recompute_fields(9)[of b] by (simp add: vec_frame_def)
  have r: "pull_irr g a = Some (?g, ?a)"
    by (simp add: pull_irr_def sh f s' put_shared_cong[of "recompute_next_irr b" a] pf)
  have "apic_inv g0 i now (?g, a)" using apic_inv_put[OF assms] sh(2) by (simp add: shared_ok_def)
  then have "apic_inv g0 i now (?g, ?a)"
    by (rule apic_inv_vectors) (use fr vok in \<open>simp_all add: vectors_ok_def p pf\<close>)
  moreover have "vec_in (la_irr b) v \<longleftrightarrow> vec_in (la_irr a) v \<or> vec_in (sh_new_irr sh) v"
    "vec_in (la_tmr b) v \<longleftrightarrow> (if vec_in (sh_new_irr sh) v then vec_in (sh_tmr sh) v else vec_in (la_tmr a) v)"
    "vec_in (la_auto_eoi b) v \<longleftrightarrow> (if vec_in (sh_new_irr sh) v then vec_in (sh_auto_eoi sh) v else vec_in (la_auto_eoi a) v)" for v
    using u8_bound(2)[of v] by (auto simp: vec_in_def p bit_or_iff bit_and_iff bit_not_iff)
  ultimately show thesis by (intro that[OF sh r _ fr]) (simp_all add: pf)
qed

lemma pull_irr_inv: "apic_inv g0 i now (g, a) \<Longrightarrow> returns (pull_irr g a) (apic_inv g0 i now)"
  by (rule pull_irr_result[of g0 i now g a]) simp_all

lemma bump_fields [simp]:
  "vec_frame (bump c a) = vec_frame a" "la_shared (bump c a) = la_shared a" "la_icr (bump c a) = la_icr a"
  "la_isr (bump c a) = la_isr a" "la_irr (bump c a) = la_irr a" "la_tmr (bump c a) = la_tmr a"
  "la_auto_eoi (bump c a) = la_auto_eoi a" "la_next_irr (bump c a) = la_next_irr a"
  "la_is_offloaded (bump c a) = la_is_offloaded a"
  by (simp_all add: bump_def vec_frame_def)

lemma vectors_ok_bump [simp]: "vectors_ok (bump c a) = vectors_ok a"
  by (simp add: vectors_ok_def)

lemma apic_inv_parts:
  assumes "apic_inv g0 i now (g, a)"
  shows "vectors_ok a" "la_icr a AND NOT ICR_X2APIC_MASK = 0" "lvts_ok (la_lvts a)" "timer_ok now (la_timer a)"
  using assms by (auto simp: apic_inv_def apic_ok_def registers_ok_def)

lemma apic_inv_bump: "apic_inv g0 i now (g, a) \<Longrightarrow> apic_inv g0 i now (g, bump c a)"
  using apic_inv_parts(1,2)[of g0 i now g a] by (auto elim: apic_inv_vectors)

lemma flush_inv:
  assumes "apic_inv g0 i now (g, a)"
  shows "returns (flush g a) (\<lambda>(g, a, w). apic_inv g0 i now (g, a))"
proof -
  from apic_inv_shared[OF assms] obtain sh where sh: "get_shared g a = Some sh" "shared_ok sh" .
  let ?s = "sh\<lparr>sh_work := 0\<rparr>"
  have put: "apic_inv g0 i now (put_shared g a ?s, a)" using apic_inv_put[OF assms, of ?s] sh(2) by (simp add: shared_ok_def)
  then show ?thesis using assms sh(1)
    by (auto simp: flush_def Let_def put_shared_cong[OF bump_fields(2)] intro: apic_inv_bump split: if_splits)
qed

subsection \<open>Updating the slot\<close>

lemma count_update:
  "j < length xs \<Longrightarrow> length (filter P (xs[j := y])) + of_bool (P (xs ! j)) = length (filter P xs) + of_bool (P y)"
proof (induction xs arbitrary: j)
  case (Cons x xs)
  then show ?case by (cases j) auto
qed simp

lemma counter_update:
  assumes "j < length xs" "length xs \<le> 2 ^ 32"
  obtains n where "nat_sub_ck (length (filter P xs)) (of_bool (P (xs ! j))) = Some n"
    "nat_add_ck n (of_bool (P y)) = Some (length (filter P (xs[j := y])))"
proof -
  let ?n = "length (filter P xs) - of_bool (P (xs ! j))"
  have le: "of_bool (P (xs ! j)) \<le> length (filter P xs)"
  proof (cases "P (xs ! j)")
    case True
    then have "xs ! j \<in> set (filter P xs)" using assms(1) by simp
    then have "filter P xs \<noteq> []" by (metis list.set(1) empty_iff)
    then show ?thesis by (simp add: Suc_le_eq of_bool_def)
  qed simp
  have "length (filter P (xs[j := y])) \<le> 2 ^ 32" using length_filter_le[of P "xs[j := y]"] assms(2) by simp
  moreover have "?n + of_bool (P y) = length (filter P (xs[j := y]))" using count_update[OF assms(1), of P y] le by linarith
  ultimately have "nat_add_ck ?n (of_bool (P y)) = Some (length (filter P (xs[j := y])))" by (simp add: nat_add_ck_def)
  then show thesis using that[of ?n] le by simp
qed

text \<open>The slot of an APIC after \<open>update_slot\<close>.\<close>

definition mirror_of :: "local_apic \<Rightarrow> apic_slot \<Rightarrow> apic_slot" where
  "mirror_of a slot = slot\<lparr>asl_lint := lv_lint (la_lvts a), asl_logical_id := ucast (drop_bit 24 (la_ldr a)),
     asl_hardware_enabled := hardware_enabled a, asl_software_enabled := software_enabled a,
     asl_x2apic_enabled := x2apic_enabled a, asl_cluster_mode := la_cluster_mode a\<rparr>"

definition with_base_address :: "local_apic \<Rightarrow> local_apic" where
  "with_base_address a = a\<lparr>la_base_address :=
     (if xapic_enabled a then Some (push_bit 12 (ucast (base_page (la_apic_base a)))) else None)\<rparr>"

lemma update_slot_result:
  assumes "set_ok g" "registers_ok g now a"
  defines "s' \<equiv> (ga_by_apic_id g)[la_shared a := mirror_of a (ga_by_apic_id g ! la_shared a)]"
  shows "update_slot g a = Some (g\<lparr>ga_x2apic_enabled := length (filter asl_x2apic_enabled s'),
    ga_logical_cluster_mode := length (filter asl_cluster_mode s'), ga_by_apic_id := s'\<rparr>, with_base_address a)"
proof -
  let ?s = "ga_by_apic_id g" and ?slot = "mirror_of a (ga_by_apic_id g ! la_shared a)"
  have j: "la_shared a = unat (la_id a)" "la_shared a < length ?s" and len: "length ?s \<le> 2 ^ 32"
    using assms(1,2) by (auto simp: registers_ok_def set_ok_def)
  have x2: "(base_enable (la_apic_base a) \<and> base_x2apic (la_apic_base a)) = x2apic_enabled a"
    using assms(2) by (auto simp: registers_ok_def base_ok_def x2apic_enabled_def)
  obtain n1 where n1: "nat_sub_ck (ga_x2apic_enabled g) (of_bool (asl_x2apic_enabled (?s ! la_shared a))) = Some n1"
    "nat_add_ck n1 (of_bool (x2apic_enabled a)) = Some (length (filter asl_x2apic_enabled s'))"
    using counter_update[OF j(2) len, of asl_x2apic_enabled ?slot] assms(1) by (auto simp: s'_def set_ok_def mirror_of_def)
  obtain n2 where n2: "nat_sub_ck (ga_logical_cluster_mode g) (of_bool (asl_cluster_mode (?s ! la_shared a))) = Some n2"
    "nat_add_ck n2 (of_bool (la_cluster_mode a)) = Some (length (filter asl_cluster_mode s'))"
    using counter_update[OF j(2) len, of asl_cluster_mode ?slot] assms(1) by (auto simp: s'_def set_ok_def mirror_of_def)
  have e: "hardware_enabled (a\<lparr>la_base_address := x\<rparr>) = hardware_enabled a"
    "software_enabled (a\<lparr>la_base_address := x\<rparr>) = software_enabled a" for x
    by (simp_all add: hardware_enabled_def software_enabled_def)
  show ?thesis
    using n1 n2 j by (simp add: update_slot_def Let_def x2 e with_base_address_def s'_def mirror_of_def)
qed

lemma update_slot_inv:
  assumes "reg_inv g0 i now (g, a)"
  shows "returns (update_slot g a) (apic_inv g0 i now)"
proof -
  let ?s = "ga_by_apic_id g" and ?j = "la_shared a"
  have r: "registers_ok g now a" and s: "set_ok g" and i: "i = la_id a" and o: "only_slot ?j g0 g"
    using assms by (auto simp: reg_inv_def registers_ok_def)
  have j: "?j < length ?s" "asl_shared (?s ! ?j) \<noteq> None" "?j = unat (la_id a)" using r by (auto simp: registers_ok_def)
  define s' where "s' = ?s[?j := mirror_of a (?s ! ?j)]"
  define g' where "g' = g\<lparr>ga_x2apic_enabled := length (filter asl_x2apic_enabled s'),
    ga_logical_cluster_mode := length (filter asl_cluster_mode s'), ga_by_apic_id := s'\<rparr>"
  have "slot_ok (mirror_of a (?s ! ?j))"
    using s j r by (auto simp: set_ok_def list_all_length slot_ok_def mirror_of_def registers_ok_def lvts_ok_def)
  then have "list_all slot_ok s'" using s by (auto simp: s'_def set_ok_def list_all_length nth_list_update')
  then have "set_ok g'" using s by (simp add: set_ok_def g'_def s'_def)
  moreover have "only_slot ?j g0 g'" using o j(1,2)
    by (auto simp: only_slot_def g'_def s'_def mirror_of_def nth_list_update')
  moreover have "registers_ok g' now (with_base_address a)"
    using r j by (auto simp: registers_ok_def g'_def s'_def mirror_of_def with_base_address_def vectors_ok_def)
  moreover have "slot_mirrors (with_base_address a) (s' ! ?j)"
    using j(1) by (simp add: s'_def slot_mirrors_def mirror_of_def with_base_address_def hardware_enabled_def
        software_enabled_def x2apic_enabled_def)
  ultimately show ?thesis
    using update_slot_result[OF s r] i j(3)
    by (auto simp: apic_inv_def apic_ok_def g'_def s'_def with_base_address_def xapic_enabled_def hardware_enabled_def x2apic_enabled_def)
qed

subsection \<open>Reserved bits\<close>

lemma within_iff: "w AND NOT m = 0 \<longleftrightarrow> (\<forall>n. bit w n \<longrightarrow> bit m n)" for w m :: "'a::len word"
proof
  assume z: "w AND NOT m = 0"
  show "\<forall>n. bit w n \<longrightarrow> bit m n"
  proof (intro allI impI)
    fix n assume b: "bit w n"
    have "\<not> bit (w AND NOT m) n" using z by simp
    then show "bit m n" using b by (simp add: bit_and_iff bit_not_iff bit_imp_le_length)
  qed
next
  assume "\<forall>n. bit w n \<longrightarrow> bit m n"
  then show "w AND NOT m = 0" by (intro bit_word_eqI) (simp add: bit_and_iff bit_not_iff)
qed

lemma within_and [simp]: "(w AND m) AND NOT m = 0" for w m :: "'a::len word"
  by (simp add: within_iff bit_and_iff)

lemma within_put_bit: "w AND NOT m = 0 \<Longrightarrow> bit m n \<Longrightarrow> put_bit n b w AND NOT m = 0" for w m :: "'a::len word"
  by (simp add: within_iff bit_put_bit)

lemma lvt_masks_16 [simp]:
  "bit LVT_TIMER_MASK 16" "bit LVT_DELIVERY_MASK 16" "bit LVT_LINT_MASK 16" "bit LVT_ERROR_MASK 16"
  by (code_simp+)

lemma lvt_set_masked_within: "w AND NOT m = 0 \<Longrightarrow> bit m 16 \<Longrightarrow> lvt_set_masked w AND NOT m = 0"
  by (simp add: lvt_set_masked_def within_put_bit)

lemma effective_lvt_within: "w AND NOT m = 0 \<Longrightarrow> bit m 16 \<Longrightarrow> effective_lvt a w AND NOT m = 0"
  by (simp add: effective_lvt_def lvt_set_masked_within)

lemma lvts_ok_masked: "lvts_ok l \<Longrightarrow> lvts_ok (mask_lvts l)"
  by (simp add: lvts_ok_def mask_lvts_def lvt_set_masked_within list.pred_map comp_def list_all_length)

lemma base_ok_reset: "base_ok capable (put_bit 11 True (put_bit 8 b (set_field 12 24 (ucast APIC_BASE_PAGE) 0)))"
  unfolding base_ok_def by (cases b) (simp, code_simp)+

lemma base_ok_requested:
  assumes "v AND NOT APIC_BASE_ALLOWED = 0" "\<not> (base_x2apic (put_bit 8 b v) \<and> (\<not> base_enable (put_bit 8 b v) \<or> \<not> capable))"
  shows "base_ok capable (put_bit 8 b v)"
proof -
  have "bit APIC_BASE_ALLOWED 8" by code_simp
  then show ?thesis using assms within_put_bit[OF assms(1), of 8 b] by (auto simp: base_ok_def)
qed

subsection \<open>Reset and the base register\<close>

lemma highest_vector_zero [simp]: "highest_vector (replicate 8 0) = None"
  by code_simp

lemma reset_registers_inv:
  assumes "reg_inv g0 i now (g, a)"
  shows "returns (reset_registers g a) (apic_inv g0 i now)"
proof -
  have "set_ok g" "registers_ok g now a" using assms by (auto simp: reg_inv_def)
  from get_shared_ok[OF this] obtain sh where sh: "get_shared g a = Some sh" by blast
  have svr: "put_bit 8 b 0xff AND NOT SVR_MASK = 0" for b by (cases b) (simp, code_simp)+
  have lvt: "lvt_set_masked 0 AND NOT m = 0" if "bit m 16" for m by (rule lvt_set_masked_within) (simp_all add: that)
  show ?thesis unfolding reset_registers_def sh using assms
    by (simp add: sh svr) (rule update_slot_inv, auto simp: reg_inv_def registers_ok_def lvts_ok_def lvt timer_ok_def vectors_ok_def svr)
qed

lemma reg_inv_base: "reg_inv g0 i now (g, a) \<Longrightarrow> base_ok (ga_x2apic_capable g) base \<Longrightarrow> reg_inv g0 i now (g, a\<lparr>la_apic_base := base\<rparr>)"
  by (auto simp: reg_inv_def registers_ok_def vectors_ok_def)

lemma apic_reset_inv:
  assumes "reg_inv g0 i now (g, a)" "\<not> la_is_offloaded a"
  shows "returns (apic_reset g a) (apic_inv g0 i now)"
proof -
  have "set_ok g" "registers_ok g now a" using assms(1) by (auto simp: reg_inv_def)
  from get_shared_ok[OF this] obtain sh where sh: "get_shared g a = Some sh" by blast
  have "returns (reset_registers g (a\<lparr>la_apic_base := put_bit 11 True (put_bit 8 (sh_vp_index sh = 0) (set_field 12 24 (ucast APIC_BASE_PAGE) 0))\<rparr>))
    (apic_inv g0 i now)" by (rule reset_registers_inv) (rule reg_inv_base[OF assms(1) base_ok_reset])
  moreover have "returns (get_shared h b) (\<lambda>sh. apic_inv g0 i now (put_shared h b (sh\<lparr>sh_work := 0, sh_new_irr := replicate 8 0\<rparr>), b))"
    if inv: "apic_inv g0 i now (h, b)" for h b
  proof -
    from apic_inv_shared[OF inv] obtain sh' where "get_shared h b = Some sh'" "shared_ok sh'" .
    then show ?thesis using apic_inv_put[OF inv] by (simp add: shared_ok_def)
  qed
  ultimately show ?thesis by (auto simp: apic_reset_def sh assms(2) elim!: returns_mono)
qed

lemma set_apic_base_inner_inv:
  assumes "apic_inv g0 i now (g, a)"
  shows "returns (set_apic_base_inner g a v) (\<lambda>(g, a, res). apic_inv g0 i now (g, a))"
proof -
  let ?new = "put_bit 8 (base_bsp (la_apic_base a)) v"
  have up: "returns (update_slot h (b\<lparr>la_apic_base := ?new\<rparr>)) (apic_inv g0 i now)"
    if "apic_inv g0 i now (h, b)" "v AND NOT APIC_BASE_ALLOWED = 0"
      "\<not> (base_x2apic ?new \<and> (\<not> base_enable ?new \<or> \<not> ga_x2apic_capable g))" for h b
  proof -
    have "ga_x2apic_capable h = ga_x2apic_capable g" using that(1) assms by (auto simp: apic_inv_def only_slot_def)
    then show ?thesis using apic_inv_reg[OF that(1)] base_ok_requested[OF that(2,3)]
      by (intro update_slot_inv reg_inv_base) simp_all
  qed
  have "returns (if base_enable (la_apic_base a) \<and> \<not> base_enable ?new then reset_registers g a else Some (g, a)) (apic_inv g0 i now)"
    using assms reset_registers_inv[OF apic_inv_reg[OF assms]] by simp
  then have two: "returns (do {
       (g, a) \<leftarrow> (if base_enable (la_apic_base a) \<and> \<not> base_enable ?new then reset_registers g a else Some (g, a));
       (g, a) \<leftarrow> update_slot g (a\<lparr>la_apic_base := ?new\<rparr>);
       Some (g, a, Inr ())
     }) (\<lambda>(g, a, res). apic_inv g0 i now (g, a))"
    if "v AND NOT APIC_BASE_ALLOWED = 0" "\<not> (base_x2apic ?new \<and> (\<not> base_enable ?new \<or> \<not> ga_x2apic_capable g))"
    by (rule returns_bindI) (auto intro!: returns_bindI[OF up[OF _ that]])
  show ?thesis unfolding set_apic_base_inner_def Let_def by (intro returns_ifI two) (use assms in \<open>simp_all\<close>)
qed

text \<open>The fields that the slot of the APIC mirrors.\<close>

definition slot_key :: "local_apic \<Rightarrow> u32 \<times> nat \<times> u64 \<times> u64 option \<times> u32 \<times> u32 \<times> bool \<times> u32 list" where
  "slot_key a = (la_id a, la_shared a, la_apic_base a, la_base_address a, la_svr a, la_ldr a, la_cluster_mode a,
     lv_lint (la_lvts a))"

subsection \<open>Timer\<close>

lemma apic_inv_local:
  assumes "apic_inv g0 i now (g, a)" "slot_key b = slot_key a" "lvts_ok (la_lvts b)" "timer_ok now (la_timer b)"
    "vectors_ok b" "la_icr b AND NOT ICR_X2APIC_MASK = 0"
  shows "apic_inv g0 i now (g, b)"
proof -
  have f: "la_id b = la_id a" "la_shared b = la_shared a" "la_apic_base b = la_apic_base a" "la_base_address b = la_base_address a"
    "la_svr b = la_svr a" "la_ldr b = la_ldr a" "la_cluster_mode b = la_cluster_mode a" "lv_lint (la_lvts b) = lv_lint (la_lvts a)"
    using assms(2) by (simp_all add: slot_key_def)
  have "registers_ok g now b" using assms by (auto simp: apic_inv_def apic_ok_def registers_ok_def f)
  moreover have "slot_mirrors b slot = slot_mirrors a slot" for slot
    by (simp add: slot_mirrors_def hardware_enabled_def software_enabled_def x2apic_enabled_def f)
  moreover have "xapic_enabled b = xapic_enabled a"
    by (simp add: xapic_enabled_def hardware_enabled_def x2apic_enabled_def f)
  ultimately show ?thesis using assms(1) by (simp add: apic_inv_def apic_ok_def f)
qed

lemma apic_inv_timer:
  "apic_inv g0 i now (g, a) \<Longrightarrow> timer_ok now t \<Longrightarrow> apic_inv g0 i now (g, a\<lparr>la_timer := t\<rparr>)"
  using apic_inv_parts[of g0 i now g a] apic_inv_local[of g0 i now g a "a\<lparr>la_timer := t\<rparr>"]
  by (simp add: slot_key_def vectors_ok_def)

lemma request_self_result:
  assumes "apic_inv g0 i now (g, a)"
  shows "returns (request_self g a mode v level) (\<lambda>(g', a'). apic_inv g0 i now (g', a') \<and> (\<exists>b. a' = a\<lparr>la_scan_irr := b\<rparr>))"
proof -
  from apic_inv_shared[OF assms] obtain sh where sh: "get_shared g a = Some sh" "shared_ok sh" .
  then show ?thesis
    using apic_inv_put[OF assms shared_request_ok[OF sh(2)], of "software_enabled a" mode v level False]
    by (auto simp: request_self_def intro: apic_inv_scan_irr split: prod.split)
qed

lemma shift_bound: "unat (dcr_divider_shift dcr) \<le> 7"
proof -
  have "x AND 7 \<le> 7" for x :: u8 by (rule word_and_le1)
  then show ?thesis by (simp add: dcr_divider_shift_def Let_def word_le_nat_alt)
qed

lemma unat_push_bit: "unat w * 2 ^ k < 2 ^ 64 \<Longrightarrow> k < 64 \<Longrightarrow> unat (push_bit k w) = unat w * 2 ^ k" for w :: u64
  by (simp add: push_bit_eq_mult unat_word_ariths unat_2p)

lemma update_timeout_inv:
  assumes "apic_inv g0 i now (g, a)"
  shows "returns (update_timeout a t) (\<lambda>a'. apic_inv g0 i now (g, a'))"
proof -
  let ?s = "unat (dcr_divider_shift (tm_dcr (la_timer a)))" and ?c = "tm_ccr (la_timer a)"
  let ?t = "push_bit ?s (ucast ?c :: u64)"
  have c: "unat (ucast ?c :: u64) = unat ?c" "unat ?c < 2 ^ 32"
    using unsigned_less[of ?c, where 'a = nat] by (simp_all add: unat_ucast_up)
  have "(2 :: nat) ^ ?s \<le> 2 ^ 7" using shift_bound by (rule power_increasing) simp
  then have m: "unat ?c * 2 ^ ?s \<le> 2 ^ 32 * 2 ^ 7" using c(2) by (intro mult_le_mono) simp_all
  moreover have "?s < 64" using shift_bound[of "tm_dcr (la_timer a)"] by linarith
  ultimately have "unat ?t = unat ?c * 2 ^ ?s" using unat_push_bit[of "ucast ?c" ?s] c(1) by simp
  then have "returns (mul_ck ?t NANOS_PER_TICK) (\<lambda>_. True)" using m by (simp add: mul_ck_def NANOS_PER_TICK_def)
  moreover have "apic_inv g0 i now (g, a\<lparr>la_timer := (la_timer a)\<lparr>tm_next_timeout := x\<rparr>\<rparr>)" for x
    by (rule apic_inv_timer[OF assms]) (use apic_inv_parts(4)[OF assms] in \<open>simp add: timer_ok_def\<close>)
  ultimately show ?thesis by (auto simp: update_timeout_def Let_def elim!: returns_mono)
qed

lemma not_bit_63: "unat w < 2 ^ 63 \<Longrightarrow> \<not> bit w 63" for w :: u64
proof -
  assume "unat w < 2 ^ 63"
  then have "unat (drop_bit 63 w) = 0" by (simp add: unat_drop_bit_eq drop_bit_eq_div[where 'a = nat])
  then show ?thesis by (simp add: bit_iff_odd_drop_bit unat_eq_0)
qed

lemma vmtime_checked_sub_ok: "t0 \<le> t \<Longrightarrow> unat t < 2 ^ 63 \<Longrightarrow> vmtime_checked_sub t t0 = Some ((unat t - unat t0) * 100)"
  using not_bit_63[of "t - t0"] by (simp add: vmtime_checked_sub_def unat_sub word_le_nat_alt)


text \<open>The new time stamp of the count never passes the present.\<close>

lemma timer_advance_inv:
  assumes inv: "apic_inv g0 i (unat t) (g, a)" and le: "ccr \<le> tm_icr (la_timer a)"
    and "unat raw \<le> (unat t - unat (tm_last_time (la_timer a))) * 100" "unat shift \<le> 7"
  shows "returns (timer_advance a ccr (drop_bit (unat shift) (raw div NANOS_PER_TICK)) shift) (\<lambda>a'. apic_inv g0 i (unat t) (g, a'))"
proof -
  let ?q = "raw div NANOS_PER_TICK" and ?k = "unat shift" and ?t0 = "tm_last_time (la_timer a)"
  have q: "unat ?q = unat raw div 5" by (simp add: NANOS_PER_TICK_def unat_div)
  have d: "unat (drop_bit ?k ?q) * 2 ^ ?k \<le> unat raw div 5" by (simp add: unat_drop_bit_eq drop_bit_eq_div[where 'a = nat] q)
  have "unat raw < 2 ^ 64" using unsigned_less[of raw, where 'a = nat] by simp
  then have "unat (drop_bit ?k ?q) * 2 ^ ?k < 2 ^ 64" using d by linarith
  then have p: "unat (push_bit ?k (drop_bit ?k ?q)) = unat (drop_bit ?k ?q) * 2 ^ ?k" using assms(4) by (intro unat_push_bit) auto
  let ?e = "unat (push_bit ?k (drop_bit ?k ?q)) * 5"
  have e: "?e \<le> unat raw" using d p by linarith
  then have "unat (push_bit ?k (drop_bit ?k ?q)) * unat NANOS_PER_TICK < 2 ^ LENGTH(64)"
    using \<open>unat raw < 2 ^ 64\<close> by (simp add: NANOS_PER_TICK_def)
  then obtain n where n: "mul_ck (push_bit ?k (drop_bit ?k ?q)) NANOS_PER_TICK = Some n" by (simp add: mul_ck_def)
  have un: "unat n = ?e" using mul_ck_unat[OF n] by (simp add: NANOS_PER_TICK_def)
  have t0: "unat ?t0 \<le> unat t" using apic_inv_parts(4)[OF inv] by (simp add: timer_ok_def)
  have "unat n div 100 \<le> unat t - unat ?t0" using e assms(3) un by linarith
  then have "unat ?t0 + unat n div 100 \<le> unat t" using t0 by linarith
  then have "unat (vmtime_wrapping_add ?t0 (unat n)) \<le> unat t"
    using unsigned_less[of t, where 'a = nat] by (simp add: vmtime_wrapping_add_def unat_of_nat del: of_nat_add)
  then show ?thesis using apic_inv_parts(4)[OF inv] le
    by (simp add: timer_advance_def n) (rule apic_inv_timer[OF inv], simp add: timer_ok_def)
qed

lemma ucast_below: "x < ucast c \<Longrightarrow> (ucast x :: u32) \<le> c" for x :: u64 and c :: u32
proof -
  assume "x < ucast c"
  then have "unat x < unat c" by (simp add: word_less_nat_alt unat_ucast_up)
  then show ?thesis using unsigned_less[of c, where 'a = nat] by (simp add: word_le_nat_alt unsigned_ucast_eq take_bit_nat_eq_self)
qed

lemma sub_ck_le: "y \<le> x \<Longrightarrow> returns (sub_ck x y) (\<lambda>c. c \<le> x)" for x y :: "'a::len word"
  by (simp add: sub_ck_def word_le_nat_alt unat_sub)

text \<open>The count after a reload of the periodic timer.\<close>

lemma reload_ok:
  fixes remaining :: u64 and icr :: u32
  assumes "icr \<noteq> 0"
  shows "returns (if remaining < ucast icr then sub_ck icr (ucast remaining)
      else do { assert_that (icr \<noteq> 0); sub_ck icr (ucast (remaining mod ucast icr)) }) (\<lambda>c. c \<le> icr)"
proof -
  have "(ucast icr :: u64) \<noteq> 0" using assms by (simp add: word_unat_eq_iff unat_ucast_up)
  then have "remaining mod ucast icr < ucast icr" by (simp add: word_less_nat_alt unat_mod word_unat_eq_iff)
  then show ?thesis using assms by (simp add: sub_ck_le ucast_below)
qed

lemma eval_time_inv:
  assumes inv: "apic_inv g0 i (unat t) (g, a)" and t: "unat t < 2 ^ 63"
  shows "returns (eval_time g a t) (apic_inv g0 i (unat t))"
proof (cases "tm_ccr (la_timer a) = 0")
  case True
  then show ?thesis using inv by (simp add: eval_time_def)
next
  case False
  let ?tm = "la_timer a" and ?shift = "dcr_divider_shift (tm_dcr (la_timer a))"
  have ok: "timer_ok (unat t) ?tm" using apic_inv_parts(4)[OF inv] .
  define nanos where "nanos = (unat t - unat (tm_last_time ?tm)) * 100"
  have sub: "vmtime_checked_sub t (tm_last_time ?tm) = Some nanos"
    using ok t by (simp add: vmtime_checked_sub_ok timer_ok_def word_le_nat_alt nanos_def)
  define raw :: u64 where "raw = of_nat nanos"
  have raw: "unat raw \<le> (unat t - unat (tm_last_time ?tm)) * 100" by (simp add: raw_def nanos_def unat_of_nat del: of_nat_mult)
  let ?counts = "drop_bit (unat ?shift) (raw div NANOS_PER_TICK)"
  have icr: "tm_icr ?tm \<noteq> 0" using ok False by (auto simp: timer_ok_def)
  have adv: "returns (timer_advance b ccr ?counts ?shift) (\<lambda>a'. apic_inv g0 i (unat t) (h, a'))"
    if "apic_inv g0 i (unat t) (h, b)" "la_timer b = ?tm" "ccr \<le> tm_icr ?tm" for h b ccr
    using timer_advance_inv[OF that(1), of ccr raw ?shift] that(2,3) raw shift_bound by simp
  have fire: "returns (if \<not> lvt_masked (lv_timer (la_lvts a)) then request_self g a FIXED (lvt_vector (lv_timer (la_lvts a))) False else Some (g, a))
      (\<lambda>(h, b). apic_inv g0 i (unat t) (h, b) \<and> la_timer b = ?tm)"
    using inv request_self_result[OF inv, of FIXED "lvt_vector (lv_timer (la_lvts a))" False] by (auto elim!: returns_mono)
  have stop: "apic_inv g0 i (unat t) (h, b\<lparr>la_timer := (la_timer b)\<lparr>tm_ccr := 0\<rparr>\<rparr>)" if "apic_inv g0 i (unat t) (h, b)" for h b
    by (rule apic_inv_timer[OF that]) (use apic_inv_parts(4)[OF that] in \<open>simp add: timer_ok_def\<close>)
  let ?P = "apic_inv g0 i (unat t)" and ?icr = "tm_icr ?tm" and ?ccr = "tm_ccr ?tm"
  have periodic: "returns (do {
        remaining \<leftarrow> sub_ck ?counts (ucast ?ccr);
        ccr \<leftarrow> (if remaining < ucast ?icr then sub_ck ?icr (ucast remaining)
               else do { assert_that (?icr \<noteq> 0); sub_ck ?icr (ucast (remaining mod ucast ?icr)) });
        a \<leftarrow> timer_advance b ccr ?counts ?shift;
        Some (h, a)
      }) ?P" if "ucast ?ccr \<le> ?counts" "?P (h, b)" "la_timer b = ?tm" for h b
    by (rule returns_bindI[OF sub_ck_le[OF that(1)]], rule returns_bindI[OF reload_ok[OF icr]],
        rule returns_bindI[OF adv[OF that(2,3)]]) simp_all
  have fired: "returns (do {
      (g, a) \<leftarrow> (if \<not> lvt_masked (lv_timer (la_lvts a)) then request_self g a FIXED (lvt_vector (lv_timer (la_lvts a))) False else Some (g, a));
      if lvt_timer_mode lvt = ONE_SHOT then Some (g, a\<lparr>la_timer := (la_timer a)\<lparr>tm_ccr := 0\<rparr>\<rparr>)
      else do {
        remaining \<leftarrow> sub_ck ?counts (ucast ?ccr);
        ccr \<leftarrow> (if remaining < ucast ?icr then sub_ck ?icr (ucast remaining)
               else do { assert_that (?icr \<noteq> 0); sub_ck ?icr (ucast (remaining mod ucast ?icr)) });
        a \<leftarrow> timer_advance a ccr ?counts ?shift;
        Some (g, a)
      } }) ?P" if "ucast ?ccr \<le> ?counts" for lvt
    by (rule returns_bindI[OF fire], clarify, rule returns_ifI) (rule iffD2[OF returns_Some], erule stop, erule periodic[OF that])
  have pending: "returns (do { ccr \<leftarrow> sub_ck ?ccr (ucast ?counts); a \<leftarrow> timer_advance a ccr ?counts ?shift; Some (g, a) }) ?P"
    if "\<not> ucast ?ccr \<le> ?counts"
  proof -
    have lt: "?counts < ucast ?ccr" and le: "?ccr \<le> ?icr" using that ok by (simp_all add: timer_ok_def)
    show ?thesis
      by (rule returns_bindI[OF sub_ck_le[OF ucast_below[OF lt]]], rule returns_bindI[OF adv[OF inv refl]])
         (use le in \<open>auto intro: order_trans\<close>)
  qed
  show ?thesis
    by (simp only: eval_time_def Let_def False if_False sub Option.bind_lunit raw_def[symmetric])
       (rule returns_ifI, erule fired, erule pending)
qed

subsection \<open>Delivering interrupts\<close>

lemma scan_inv:
  assumes inv: "apic_inv g0 i (unat t) (g, a)" and t: "unat t < 2 ^ 63"
  shows "returns (scan g a t timeout scan_irr) (\<lambda>(g, a, timeout, w). apic_inv g0 i (unat t) (g, a))"
proof -
  let ?P = "apic_inv g0 i (unat t)"
  have step: "returns (if vmtime_is_after t n then do { (g, a) \<leftarrow> eval_time g a t; a \<leftarrow> update_timeout a t; Some (g, a) } else Some (g, a)) ?P" for n
    by (rule returns_ifI, rule returns_bindI[OF eval_time_inv[OF inv t]])
       (use inv in \<open>auto intro: returns_mono[OF update_timeout_inv]\<close>)
  have timer: "returns (case tm_next_timeout (la_timer a) of
       None \<Rightarrow> Some (g, a, timeout)
     | Some next_timeout \<Rightarrow> do {
         (g, a) \<leftarrow> (if vmtime_is_after t next_timeout then do { (g, a) \<leftarrow> eval_time g a t; a \<leftarrow> update_timeout a t; Some (g, a) }
                  else Some (g, a));
         Some (g, a, case tm_next_timeout (la_timer a) of None \<Rightarrow> timeout | Some t \<Rightarrow> set_timeout_if_before timeout t)
       }) (\<lambda>(g, a, timeout). ?P (g, a))"
    by (cases "tm_next_timeout (la_timer a)")
       (use inv in simp, simp only: option.case, rule returns_bindI[OF step], auto)
  have pull: "returns (if b then pull_irr h c else Some (h, c)) ?P" if "?P (h, c)" for b h c
    using that pull_irr_inv[OF that] by simp
  have rest: "returns (do {
       (g, a, r) \<leftarrow> flush h b;
       (g, a) \<leftarrow> (if scan_irr \<or> la_scan_irr a then pull_irr g a else Some (g, a));
       Some (g, a, timeout, if \<not> la_is_offloaded a then r\<lparr>wk_interrupt := next_irr a\<rparr> else r)
     }) (\<lambda>(g, a, timeout, w). ?P (g, a))" if "?P (h, b)" for h b timeout
    by (rule returns_bindI[OF flush_inv[OF that]], clarify, rule returns_bindI[OF pull]) auto
  have "returns (Some (g, a, timeout, no_work)) (\<lambda>(g, a, timeout, w). ?P (g, a))" using inv by simp
  then show ?thesis unfolding scan_def
    by (rule returns_ifI) (rule returns_bindI[OF timer], simp only: split_paired_all prod.case, erule rest)
qed

lemma acknowledge_inv:
  assumes inv: "apic_inv g0 i now (g, a)" and "\<not> la_is_offloaded a" "next_irr a = Some v"
  shows "returns (apic_acknowledge_interrupt a v) (\<lambda>a'. apic_inv g0 i now (g, a'))"
proof -
  note parts = apic_inv_parts[OF inv]
  have n: "la_next_irr a = Some v" "priority (isr_top_or_0 (la_isr a)) < priority v"
    using assms(3) by (auto simp: next_irr_def isr_top_or_0_def priority_def split: if_splits option.splits)
  then have "16 \<le> v" using priority_bounds(2)[of v] by (simp add: word_less_nat_alt)
  then have push: "isr_push (la_isr a) v = Some (la_isr a @ [v])" "isr_ok (la_isr a @ [v])"
    using isr_push_ok parts(1) n(2) by (auto simp: vectors_ok_def)
  obtain bank m where bm: "bank_mask v = (bank, m)" by fastforce
  let ?a = "recompute_next_irr (a\<lparr>la_irr := (la_irr a)[bank := la_irr a ! bank AND NOT m]\<rparr>)"
  have "apic_inv g0 i now (g, bump st_interrupt_update (?a\<lparr>la_isr := s\<rparr>))" if "isr_ok s" for s
    by (rule apic_inv_bump, rule apic_inv_vectors[OF inv])
       (use that parts(1,2) in \<open>auto simp: vectors_ok_def vec_frame_def recompute_next_irr_def split: option.split\<close>)
  moreover have "isr_ok (la_isr a)" using parts(1) by (simp add: vectors_ok_def)
  ultimately show ?thesis using push assms(2) n(1) by (simp add: apic_acknowledge_interrupt_def bm Let_def)
qed

lemma request_fixed_inv:
  assumes "apic_inv g0 i now (g, a)" "length irr = 8"
  shows "apic_inv g0 i now (g, request_fixed_interrupts a irr)"
proof -
  note parts = apic_inv_parts[OF assms(1)]
  show ?thesis unfolding request_fixed_interrupts_def Let_def
    by (cases "hardware_enabled a \<and> software_enabled a", simp, rule apic_inv_vectors[OF assms(1)])
       (use parts(1,2) assms in \<open>auto simp: vectors_ok_def vec_frame_def recompute_next_irr_def split: option.split\<close>)
qed

subsection \<open>Offload\<close>

lemma accumulate_inv:
  assumes inv: "apic_inv g0 i now (g, a)" and "la_is_offloaded a" "length irr = 8"
  shows "returns (accumulate_from_offload a irr isr) (\<lambda>a'. apic_inv g0 i now (g, a') \<and> la_is_offloaded a' \<and>
    la_next_irr a' = highest_vector (la_irr a') \<and> slot_key a' = slot_key a)"
proof -
  note parts = apic_inv_parts[OF inv]
  obtain s where s: "isr_load_from_bits (map2 (OR) (isr_to_bits (la_isr a)) isr) = Some s" "isr_ok s"
    using isr_load_from_bits_ok by blast
  let ?a = "recompute_next_irr (a\<lparr>la_irr := map2 (OR) (la_irr a) irr, la_isr := s\<rparr>)"
  have "apic_inv g0 i now (g, ?a\<lparr>la_needs_offload_reeval := True\<rparr>)"
    by (rule apic_inv_vectors[OF inv])
       (use s(2) parts(1,2) assms in \<open>auto simp: vectors_ok_def vec_frame_def recompute_next_irr_def split: option.split\<close>)
  then show ?thesis using s(1) assms(2)
    by (simp add: accumulate_from_offload_def slot_key_def recompute_next_irr_def split: option.split)
qed

lemma offload_inv:
  assumes inv: "apic_inv g0 i now (g, a)"
  shows "apic_inv g0 i now (g, enable_offload a)" "apic_inv g0 i now (g, fst (push_to_offload a))"
    "la_is_offloaded a \<Longrightarrow> length irr = 8 \<Longrightarrow> returns (disable_offload a irr isr) (\<lambda>a'. apic_inv g0 i now (g, a') \<and> \<not> la_is_offloaded a')"
proof -
  note parts = apic_inv_parts[OF inv]
  show "apic_inv g0 i now (g, enable_offload a)"
    by (rule apic_inv_vectors[OF inv]) (use parts(1,2) in \<open>auto simp: enable_offload_def vectors_ok_def vec_frame_def\<close>)
  have "apic_inv g0 i now (g, bump st_offload_push_update (a\<lparr>la_irr := replicate 8 0, la_isr := [], la_needs_offload_reeval := False\<rparr>))"
    if "la_is_offloaded a"
    by (rule apic_inv_bump, rule apic_inv_vectors[OF inv]) (use that parts(1,2) in \<open>auto simp: vectors_ok_def vec_frame_def\<close>)
  then show "apic_inv g0 i now (g, fst (push_to_offload a))" using inv by (simp add: push_to_offload_def)
  show "returns (disable_offload a irr isr) (\<lambda>a'. apic_inv g0 i now (g, a') \<and> \<not> la_is_offloaded a')"
    if o: "la_is_offloaded a" "length irr = 8"
    unfolding disable_offload_def
  proof (rule returns_bindI[OF accumulate_inv[OF inv o]])
    fix b assume b: "apic_inv g0 i now (g, b) \<and> la_is_offloaded b \<and> la_next_irr b = highest_vector (la_irr b) \<and> slot_key b = slot_key a"
    have "apic_inv g0 i now (g, b\<lparr>la_is_offloaded := False\<rparr>)"
      by (rule apic_inv_vectors[of g0 i now g b]) (use b apic_inv_parts[of g0 i now g b] in \<open>auto simp: vectors_ok_def vec_frame_def\<close>)
    then show "returns (Some (b\<lparr>la_is_offloaded := False\<rparr>)) (\<lambda>a'. apic_inv g0 i now (g, a') \<and> \<not> la_is_offloaded a')" by simp
  qed
qed

subsection \<open>Register access\<close>

text \<open>The client keeps its time and hands over banks of eight words.\<close>

definition client_ok :: "u64 \<Rightarrow> apic_client \<Rightarrow> bool" where
  "client_ok t c \<longleftrightarrow> cl_now c = t \<and> length (fst (cl_offload c)) = 8 \<and> length (snd (cl_offload c)) = 8"

definition acc_inv :: "apic_set \<Rightarrow> u32 \<Rightarrow> u64 \<Rightarrow> apic_access \<Rightarrow> bool" where
  "acc_inv g0 i t = (\<lambda>(g, a, c). apic_inv g0 i (unat t) (g, a) \<and> client_ok t c)"

lemma client_ok_updates [simp]:
  "client_ok t (call_client calls c) = client_ok t c" "client_ok t (c\<lparr>cl_cr8 := v\<rparr>) = client_ok t c"
  by (simp_all add: client_ok_def call_client_def)

lemma slot_key_bump [simp]: "slot_key (bump c a) = slot_key a"
  by (simp add: slot_key_def bump_def)

lemma ensure_state_local_inv:
  assumes "apic_inv g0 i now (g, a)" "client_ok t c"
  shows "returns (ensure_state_local a c) (\<lambda>(a', c'). apic_inv g0 i now (g, a') \<and> client_ok t c' \<and> slot_key a' = slot_key a)"
proof (cases "la_is_offloaded a")
  case True
  obtain irr isr where o: "cl_offload c = (irr, isr)" "length irr = 8" using assms(2) by (cases "cl_offload c") (auto simp: client_ok_def)
  have reeval: "apic_inv g0 i now (g, b\<lparr>la_needs_offload_reeval := True\<rparr>)" if "apic_inv g0 i now (g, b)" for b
    by (rule apic_inv_vectors[OF that]) (use apic_inv_parts[OF that] in \<open>auto simp: vectors_ok_def vec_frame_def\<close>)
  have key: "slot_key (b\<lparr>la_needs_offload_reeval := True\<rparr>) = slot_key b" for b by (simp add: slot_key_def)
  have client: "client_ok t (c\<lparr>cl_offload := (replicate 8 0, replicate 8 0)\<rparr>)" using assms(2) by (simp add: client_ok_def)
  have "returns (do { a \<leftarrow> accumulate_from_offload a irr isr;
      Some ((bump st_offload_pull_update a)\<lparr>la_needs_offload_reeval := True\<rparr>, c\<lparr>cl_offload := (replicate 8 0, replicate 8 0)\<rparr>) })
    (\<lambda>(a', c'). apic_inv g0 i now (g, a') \<and> client_ok t c' \<and> slot_key a' = slot_key a)"
    by (rule returns_bindI[OF accumulate_inv[OF assms(1) True o(2)]]) (auto simp: key client intro!: reeval apic_inv_bump)
  then show ?thesis using True by (simp add: ensure_state_local_def o)
next
  case False
  then show ?thesis using assms by (simp add: ensure_state_local_def)
qed

lemma eoi_inv:
  assumes "apic_inv g0 i now (g, a)" "client_ok t c"
  shows "returns (apic_eoi a c lazy) (\<lambda>(a', c'). apic_inv g0 i now (g, a') \<and> client_ok t c')"
proof -
  have pop: "apic_inv g0 i now (g, b\<lparr>la_isr := butlast (la_isr b)\<rparr>)" if "apic_inv g0 i now (g, b)" for b
    by (rule apic_inv_vectors[OF that])
       (use apic_inv_parts[OF that] in \<open>auto simp: vectors_ok_def vec_frame_def isr_pop_ok\<close>)
  show ?thesis unfolding apic_eoi_def
    by (rule returns_bindI[OF ensure_state_local_inv[OF assms]])
       (auto simp: isr_pop_def Let_def intro!: apic_inv_bump pop split: option.split prod.split)
qed

lemma get_ppr_inv:
  assumes "apic_inv g0 i now (g, a)" "client_ok t c"
  shows "returns (get_ppr a c) (\<lambda>(a', c', v). apic_inv g0 i now (g, a') \<and> client_ok t c')"
  unfolding get_ppr_def by (rule returns_bindI[OF ensure_state_local_inv[OF assms]]) (auto simp: Let_def)

lemma shorthand_cases: "icr_destination_shorthand icr \<in> {SHORTHAND_NONE, SHORTHAND_SELF, ALL_INCLUDING_SELF, ALL_EXCLUDING_SELF}"
proof -
  let ?x = "icr_destination_shorthand icr"
  have "take_bit 2 ?x = ?x"
    by (rule bit_word_eqI) (auto simp: icr_destination_shorthand_def bit_take_bit_iff bit_unsigned_iff bit_get_field)
  then have "unat ?x = take_bit 2 (unat ?x)" by (metis unsigned_take_bit_eq)
  then have "unat ?x < 4" using take_bit_nat_less_exp[of 2 "unat ?x"] by simp
  then have "unat ?x \<in> {0, 1, 2, 3}" by auto
  then show ?thesis by (auto simp: SHORTHAND_NONE_def SHORTHAND_SELF_def ALL_INCLUDING_SELF_def ALL_EXCLUDING_SELF_def word_unat_eq_iff)
qed

lemma handle_ipi_inv:
  assumes "acc_inv g0 i t s"
  shows "returns (handle_ipi s icr) (acc_inv g0 i t)"
proof -
  obtain g a c where s: "s = (g, a, c)" by (cases s)
  have inv: "apic_inv g0 i (unat t) (g, a)" "client_ok t c" using assms by (simp_all add: acc_inv_def s)
  have send: "acc_inv g0 i t (let (g, wakes) = global_request_interrupt g dest mode v False in (g, bump k a, call_client (map Wake wakes) c))"
    for dest mode v k
    using apic_inv_global[OF apic_inv_bump[OF inv(1)] global_request_requested] inv(2)
    by (auto simp: acc_inv_def split: prod.split) (metis fst_conv)
  have self: "returns (do { (g, a) \<leftarrow> request_self g (bump k a) mode v level; Some (g, a, c) }) (acc_inv g0 i t)" for k mode v level
    by (rule returns_bindI[OF request_self_inv[OF apic_inv_bump[OF inv(1)]]]) (auto simp: acc_inv_def inv(2))
  have none: "returns (Some (g, a, c)) (acc_inv g0 i t)" using assms s by simp
  show ?thesis unfolding handle_ipi_def s Let_def prod.case
    by (intro returns_ifI none self iffD2[OF returns_Some])
       (use send[unfolded Let_def] shorthand_cases[of icr] in \<open>auto split: destination.split\<close>)
qed

lemma read_register_inv:
  assumes "acc_inv g0 i t s" "unat t < 2 ^ 63"
  shows "returns (read_register s register) (\<lambda>(s', v). acc_inv g0 i t s')"
proof -
  obtain g a c where s: "s = (g, a, c)" by (cases s)
  have inv: "apic_inv g0 i (unat t) (g, a)" "client_ok t c" using assms by (simp_all add: acc_inv_def s)
  then have now: "cl_now c = t" by (simp add: client_ok_def)
  let ?P = "\<lambda>(s', v). acc_inv g0 i t s'"
  have plain: "returns (Some ((g, a, c), v)) ?P" for v using inv by (simp add: acc_inv_def)
  have ppr: "returns (do { (a, c, v) \<leftarrow> get_ppr a c; Some ((g, a, c), Some v) }) ?P"
    by (rule returns_bindI[OF get_ppr_inv[OF inv]]) (auto simp: acc_inv_def)
  have isr: "returns (do { (a, c) \<leftarrow> ensure_state_local a c; Some ((g, a, c), f a) }) ?P" for f
    by (rule returns_bindI[OF ensure_state_local_inv[OF inv]]) (auto simp: acc_inv_def)
  have tmr: "returns (do { (g, a) \<leftarrow> pull_irr g b; Some ((g, a, k), f a) }) ?P"
    if "apic_inv g0 i (unat t) (g, b)" "client_ok t k" for f b k
    by (rule returns_bindI[OF pull_irr_inv[OF that(1)]]) (auto simp: acc_inv_def that(2))
  have irr: "returns (do { (a, c) \<leftarrow> ensure_state_local a c; (g, a) \<leftarrow> pull_irr g a; Some ((g, a, c), f a) }) ?P" for f
    by (rule returns_bindI[OF ensure_state_local_inv[OF inv]]) (simp only: split_paired_all prod.case, elim conjE, erule tmr)
  have ccr: "returns (do { (g, a) \<leftarrow> eval_time g a (cl_now c); Some ((g, a, c), f a) }) ?P" for f
    unfolding now by (rule returns_bindI[OF eval_time_inv[OF inv(1) assms(2)]]) (auto simp: acc_inv_def inv(2))
  show ?thesis unfolding read_register_def s Let_def prod.case
    by (intro returns_ifI plain ppr isr tmr inv irr ccr)
qed

lemma write_svr_inv:
  assumes "acc_inv g0 i t s"
  shows "returns (write_svr s v) (acc_inv g0 i t)"
proof -
  obtain g a c where s: "s = (g, a, c)" by (cases s)
  have inv: "apic_inv g0 i (unat t) (g, a)" "client_ok t c" using assms by (simp_all add: acc_inv_def s)
  let ?set = "\<lambda>a. (let a = a\<lparr>la_svr := v AND SVR_MASK\<rparr> in if \<not> software_enabled a then a\<lparr>la_lvts := mask_lvts (la_lvts a)\<rparr> else a)"
  have reg: "reg_inv g0 i (unat t) (h, ?set b)" if "apic_inv g0 i (unat t) (h, b)" for h b
    using that lvts_ok_masked by (auto simp: apic_inv_def apic_ok_def reg_inv_def registers_ok_def vectors_ok_def Let_def)
  have up: "returns (do { (g, a) \<leftarrow> update_slot h (?set b); Some (g, a, k) }) (acc_inv g0 i t)"
    if "apic_inv g0 i (unat t) (h, b)" "client_ok t k" for h b k
    by (rule returns_bindI[OF update_slot_inv[OF reg[OF that(1)]]]) (auto simp: acc_inv_def that(2))
  have pull: "returns (do { (g, a) \<leftarrow> pull_irr g b; (g, a) \<leftarrow> update_slot g (?set a); Some (g, a, k) }) (acc_inv g0 i t)"
    if "apic_inv g0 i (unat t) (g, b)" "client_ok t k" for b k
    by (rule returns_bindI[OF pull_irr_inv[OF that(1)]]) (simp only: split_paired_all prod.case, erule up[OF _ that(2)])
  show ?thesis unfolding write_svr_def s Let_def prod.case
    by (rule returns_bindI[OF ensure_state_local_inv[OF inv]])
       (simp only: split_paired_all prod.case, elim conjE, erule pull[unfolded Let_def])
qed

lemma write_timer_inv:
  assumes "apic_inv g0 i (unat t) (g, a)" "unat t < 2 ^ 63"
  shows "returns (write_timer_icr a t v) (\<lambda>a'. apic_inv g0 i (unat t) (g, a'))"
    "returns (write_timer_dcr g a t v) (apic_inv g0 i (unat t))"
proof -
  have tm: "apic_inv g0 i (unat t) (g, a\<lparr>la_timer := (la_timer a)\<lparr>tm_icr := v, tm_ccr := v, tm_last_time := t\<rparr>\<rparr>)"
    by (rule apic_inv_timer[OF assms(1)]) (use apic_inv_parts(4)[OF assms(1)] in \<open>simp add: timer_ok_def\<close>)
  show "returns (write_timer_icr a t v) (\<lambda>a'. apic_inv g0 i (unat t) (g, a'))"
    unfolding write_timer_icr_def by (rule update_timeout_inv[OF tm])
  have dcr: "apic_inv g0 i (unat t) (h, b\<lparr>la_timer := (la_timer b)\<lparr>tm_dcr := v AND DCR_MASK\<rparr>\<rparr>)"
    if "apic_inv g0 i (unat t) (h, b)" for h b
    by (rule apic_inv_timer[OF that]) (use apic_inv_parts(4)[OF that] in \<open>simp add: timer_ok_def\<close>)
  show "returns (write_timer_dcr g a t v) (apic_inv g0 i (unat t))"
    unfolding write_timer_dcr_def
    by (rule returns_bindI[OF eval_time_inv[OF assms]], simp only: split_paired_all prod.case)
       (rule returns_bindI[OF update_timeout_inv[OF dcr]], auto)
qed

lemma icr_masks:
  "(w AND ICR_XAPIC_MASK) AND NOT ICR_X2APIC_MASK = 0" "(w AND ICR_X2APIC_MASK) AND NOT ICR_X2APIC_MASK = 0"
proof -
  have "ICR_XAPIC_MASK AND NOT ICR_X2APIC_MASK = 0" by code_simp
  then show "(w AND ICR_XAPIC_MASK) AND NOT ICR_X2APIC_MASK = 0" by (simp add: and.assoc)
qed simp

lemma acc_inv_icr:
  assumes "acc_inv g0 i t (g, a, c)" "icr AND NOT ICR_X2APIC_MASK = 0"
  shows "acc_inv g0 i t (g, a\<lparr>la_icr := icr\<rparr>, c)"
proof -
  have inv: "apic_inv g0 i (unat t) (g, a)" using assms by (simp add: acc_inv_def)
  have "apic_inv g0 i (unat t) (g, a\<lparr>la_icr := icr\<rparr>)"
    by (rule apic_inv_local[OF inv]) (use apic_inv_parts[OF inv] assms in \<open>auto simp: slot_key_def vectors_ok_def\<close>)
  then show ?thesis using assms by (simp add: acc_inv_def)
qed

lemma lvts_ok_write:
  assumes "lvts_ok l"
  shows "lvts_ok (l\<lparr>lv_timer := effective_lvt a (v AND LVT_TIMER_MASK)\<rparr>)"
    "lvts_ok (l\<lparr>lv_thermal := effective_lvt a (v AND LVT_DELIVERY_MASK)\<rparr>)"
    "lvts_ok (l\<lparr>lv_pmc := effective_lvt a (v AND LVT_DELIVERY_MASK)\<rparr>)"
    "lvts_ok (l\<lparr>lv_error := effective_lvt a (v AND LVT_ERROR_MASK)\<rparr>)"
    "lvts_ok (l\<lparr>lv_lint := (lv_lint l)[j := effective_lvt a (v AND LVT_LINT_MASK)]\<rparr>)"
  using assms by (auto simp: lvts_ok_def effective_lvt_within list_all_length nth_list_update')

lemma write_register_inv:
  assumes "acc_inv g0 i t s" "unat t < 2 ^ 63" "register = REG_DFR \<Longrightarrow> \<not> x2apic_enabled (fst (snd s)) \<Longrightarrow> dfr_cluster_mode v \<noteq> None"
  shows "returns (write_register s register v) (\<lambda>(s', ok). acc_inv g0 i t s')"
proof -
  obtain g a c where s: "s = (g, a, c)" by (cases s)
  have inv: "apic_inv g0 i (unat t) (g, a)" "client_ok t c" using assms by (simp_all add: acc_inv_def s)
  then have now: "cl_now c = t" by (simp add: client_ok_def)
  note parts = apic_inv_parts[OF inv(1)]
  let ?P = "\<lambda>(s', ok). acc_inv g0 i t s'"
  have plain: "returns (Some ((g, a, c), ok)) ?P" for ok using inv by (simp add: acc_inv_def)
  have tpr: "returns (Some ((g, a, c\<lparr>cl_cr8 := x\<rparr>), True)) ?P" for x using inv by (simp add: acc_inv_def)
  have eoi: "returns (do { (a, c) \<leftarrow> apic_eoi a c False; Some ((g, a, c), True) }) ?P"
    by (rule returns_bindI[OF eoi_inv[OF inv]]) (auto simp: acc_inv_def)
  have slot: "returns (do { (g, a) \<leftarrow> update_slot g b; Some ((g, a, c), True) }) ?P" if "reg_inv g0 i (unat t) (g, b)" for b
    by (rule returns_bindI[OF update_slot_inv[OF that]]) (auto simp: acc_inv_def inv(2))
  have ldr: "reg_inv g0 i (unat t) (g, a\<lparr>la_ldr := v AND 0xff000000\<rparr>)"
  proof -
    have "(v AND 0xff000000) AND 0xffffff = 0" by (simp add: and.assoc)
    then show ?thesis using apic_inv_reg[OF inv(1)] by (auto simp: reg_inv_def registers_ok_def vectors_ok_def)
  qed
  have dfr: "reg_inv g0 i (unat t) (g, a\<lparr>la_cluster_mode := b\<rparr>)" for b
    using apic_inv_reg[OF inv(1)] by (auto simp: reg_inv_def registers_ok_def vectors_ok_def)
  have svr: "returns (do { s \<leftarrow> write_svr (g, a, c) v; Some (s, True) }) ?P"
    by (rule returns_bindI[OF write_svr_inv]) (use assms(1) s in simp_all)
  have esr: "returns (Some ((g, a\<lparr>la_esr := 0\<rparr>, c), True)) ?P"
    using apic_inv_local[OF inv(1), of "a\<lparr>la_esr := 0\<rparr>"] parts inv(2) by (auto simp: slot_key_def vectors_ok_def acc_inv_def)
  have ipi: "returns (do { s \<leftarrow> handle_ipi (g, a\<lparr>la_icr := w AND ICR_XAPIC_MASK\<rparr>, c) (w AND ICR_XAPIC_MASK); Some (s, True) }) ?P" for w
    by (rule returns_bindI[OF handle_ipi_inv[OF acc_inv_icr]]) (use assms(1) s icr_masks in simp_all)
  have icr1: "returns (Some ((g, a\<lparr>la_icr := w AND ICR_XAPIC_MASK\<rparr>, c), True)) ?P" for w
    using acc_inv_icr[OF assms(1)[unfolded s] icr_masks(1)] by simp
  have lvts: "returns (Some ((g, a\<lparr>la_lvts := l\<rparr>, c), True)) ?P" if "lvts_ok l" "lv_lint l = lv_lint (la_lvts a)" for l
    using apic_inv_local[OF inv(1), of "a\<lparr>la_lvts := l\<rparr>"] parts inv(2) that by (auto simp: slot_key_def vectors_ok_def acc_inv_def)
  note lok = lvts_ok_write[OF parts(3), where a = a and v = v]
  have lint: "reg_inv g0 i (unat t) (g, a\<lparr>la_lvts := l\<rparr>)" if "lvts_ok l" for l
    using apic_inv_reg[OF inv(1)] that by (auto simp: reg_inv_def registers_ok_def vectors_ok_def)
  have ticr: "returns (do { a \<leftarrow> write_timer_icr a (cl_now c) v; Some ((g, a, c), True) }) ?P"
    unfolding now by (rule returns_bindI[OF write_timer_inv(1)[OF inv(1) assms(2)]]) (auto simp: acc_inv_def inv(2))
  have tdcr: "returns (do { (g, a) \<leftarrow> write_timer_dcr g a (cl_now c) v; Some ((g, a, c), True) }) ?P"
    unfolding now by (rule returns_bindI[OF write_timer_inv(2)[OF inv(1) assms(2)]]) (auto simp: acc_inv_def inv(2))
  have self: "returns (do { (g, a) \<leftarrow> request_self g (bump k a) FIXED w False; Some ((g, a, c), True) }) ?P" for k w
    by (rule returns_bindI[OF request_self_inv[OF apic_inv_bump[OF inv(1)]]]) (auto simp: acc_inv_def inv(2))
  have cluster: "returns (do { b \<leftarrow> dfr_cluster_mode v; (g, a) \<leftarrow> update_slot g (a\<lparr>la_cluster_mode := b\<rparr>); Some ((g, a, c), True) }) ?P"
    if "register = REG_DFR \<and> \<not> x2apic_enabled a"
    by (rule returns_bindI[where P = "\<lambda>_. True"]) (use that assms(3) slot[OF dfr] in \<open>auto simp: s returns_iff\<close>)
  show ?thesis unfolding write_register_def s Let_def prod.case
    by (intro returns_ifI plain tpr eoi slot ldr cluster svr esr ipi icr1 ticr tdcr self lint[OF lok(5)]
        lvts[OF lok(1)] lvts[OF lok(2)] lvts[OF lok(3)] lvts[OF lok(4)]) simp_all
qed

subsection \<open>Memory-mapped and model-specific registers\<close>

text \<open>The word of a memory-mapped write.\<close>

definition mmio_word :: "u64 \<Rightarrow> u8 list \<Rightarrow> u32" where
  "mmio_word address data =
     (let offset = unat (address AND 3)
      in of_le_bytes (splice offset (take (min (length data) (4 - offset)) data) (replicate 4 0)))"

lemma mmio_inv:
  assumes "acc_inv g0 i t s" "unat t < 2 ^ 63"
  shows "returns (apic_mmio_read s address len) (\<lambda>(s', v). acc_inv g0 i t s')"
    "(ucast (drop_bit 4 address) = REG_DFR \<Longrightarrow> dfr_cluster_mode (mmio_word address data) \<noteq> None) \<Longrightarrow>
       returns (apic_mmio_write s address data) (acc_inv g0 i t)"
proof -
  show "returns (apic_mmio_read s address len) (\<lambda>(s', v). acc_inv g0 i t s')" unfolding apic_mmio_read_def Let_def
    by (rule returns_ifI, simp add: assms(1), rule returns_bindI[OF read_register_inv[OF assms]]) auto
  assume d: "ucast (drop_bit 4 address) = REG_DFR \<Longrightarrow> dfr_cluster_mode (mmio_word address data) \<noteq> None"
  have "returns (write_register s (ucast (drop_bit 4 address)) (mmio_word address data)) (\<lambda>(s', ok). acc_inv g0 i t s')"
    by (rule write_register_inv[OF assms d])
  then show "returns (apic_mmio_write s address data) (acc_inv g0 i t)"
    unfolding apic_mmio_write_def Let_def mmio_word_def
    by (intro returns_ifI) (simp add: assms(1), erule returns_bindI, auto)
qed

lemma msr_read_inv:
  assumes "acc_inv g0 i t s" "unat t < 2 ^ 63"
  shows "returns (msr_read s msr) (\<lambda>(s', v). acc_inv g0 i t s')"
proof -
  let ?P = "\<lambda>(s', v). acc_inv g0 i t s'"
  have plain: "returns (Some (s, v)) ?P" for v :: "msr_error + u64" using assms by simp
  have reg: "returns (do { (s, v) \<leftarrow> read_register s r; Some (s, case v of None \<Rightarrow> Inl MsrInvalidAccess | Some v \<Rightarrow> Inr (ucast v)) }) ?P" for r
    by (rule returns_bindI[OF read_register_inv[OF assms]]) auto
  obtain g a c where s: "s = (g, a, c)" by (cases s)
  show ?thesis using plain reg unfolding msr_read_def Let_def s prod.case by (intro returns_ifI)
qed

lemma write_apic_base_inv:
  assumes "acc_inv g0 i t s"
  shows "returns (write_apic_base s v) (\<lambda>(s', r). acc_inv g0 i t s')"
proof -
  obtain g a c where s: "s = (g, a, c)" by (cases s)
  have inv: "apic_inv g0 i (unat t) (g, a)" "client_ok t c" using assms by (simp_all add: acc_inv_def s)
  have rest: "returns (do { (g, a, res) \<leftarrow> set_apic_base_inner g b v;
       Some (case res of Inl _ \<Rightarrow> ((g, a, k), Inl MsrInvalidAccess)
             | Inr _ \<Rightarrow> ((g, a, call_client [SetApicBase (la_apic_base a)] k), Inr ())) }) (\<lambda>(s', r). acc_inv g0 i t s')"
    if "apic_inv g0 i (unat t) (g, b)" "client_ok t k" for b k
    by (rule returns_bindI[OF set_apic_base_inner_inv[OF that(1)]]) (auto simp: acc_inv_def that(2) split: sum.split)
  show ?thesis unfolding write_apic_base_def s Let_def prod.case
    by (rule returns_bindI[OF ensure_state_local_inv[OF inv]])
       (simp only: split_paired_all prod.case, elim conjE, erule rest)
qed

lemma msr_write_inv:
  assumes "acc_inv g0 i t s" "unat t < 2 ^ 63"
  shows "returns (msr_write s msr v) (\<lambda>(s', r). acc_inv g0 i t s')"
proof -
  obtain g a c where s: "s = (g, a, c)" by (cases s)
  have inv: "apic_inv g0 i (unat t) (g, a)" "client_ok t c" using assms by (simp_all add: acc_inv_def s)
  let ?P = "\<lambda>(s', r). acc_inv g0 i t s'"
  have plain: "returns (Some (s, r)) ?P" for r :: "msr_error + unit" using assms by simp
  have reg: "returns (do { (s, valid) \<leftarrow> write_register s r (ucast v); Some (s, if valid then Inr () else Inl MsrInvalidAccess) }) ?P"
    if "x2apic_enabled a" for r
    by (rule returns_bindI[OF write_register_inv[OF assms]]) (use that in \<open>auto simp: s\<close>)
  have icr: "returns (write_icr s w) ?P" if "w AND NOT ICR_X2APIC_MASK = 0" for w
    unfolding write_icr_def s Let_def prod.case
    by (rule returns_bindI[OF handle_ipi_inv[OF acc_inv_icr[OF assms(1)[unfolded s] that]]]) simp
  have eoi: "returns (do { (a, c) \<leftarrow> apic_eoi a c False; Some ((g, a, c), Inr ()) }) ?P"
    by (rule returns_bindI[OF eoi_inv[OF inv]]) (auto simp: acc_inv_def)
  have tpr: "returns (Some ((g, a, c\<lparr>cl_cr8 := x\<rparr>), Inr ())) ?P" for x using inv by (simp add: acc_inv_def)
  show ?thesis using plain reg icr icr_masks eoi tpr write_apic_base_inv[OF assms(1)]
    unfolding msr_write_def Let_def s prod.case by (intro returns_ifI) simp_all
qed

subsection \<open>Save and restore\<close>

lemma save_inv:
  assumes "apic_inv g0 i now (g, a)" "\<not> la_is_offloaded a"
  shows "returns (apic_save g a) (\<lambda>(g, a, st). apic_inv g0 i now (g, a))"
  using assms(2) by (simp add: apic_save_def Let_def) (rule returns_mono[OF pull_irr_inv[OF assms(1)]], auto)

text \<open>The saved states of the APIC with identifier \<open>i\<close>.\<close>

definition saved_ok :: "u32 \<Rightarrow> saved_apic \<Rightarrow> bool" where
  "saved_ok i st \<longleftrightarrow>
     (let r = sa_registers st in
      (if base_x2apic (sa_apic_base st) then rg_id r else drop_bit 24 (rg_id r)) = i \<and>
      dfr_cluster_mode (rg_dfr r) \<noteq> None \<and> rg_svr r AND NOT SVR_MASK = 0 \<and>
      length (rg_irr r) = 8 \<and> length (rg_tmr r) = 8 \<and> length (rg_isr r) = 8 \<and> length (sa_auto_eoi st) = 8 \<and>
      (ucast (fst (rg_icr r)) OR push_bit 32 (ucast (snd (rg_icr r))) :: u64) AND NOT ICR_X2APIC_MASK = 0 \<and>
      lvts_ok \<lparr>lv_timer = rg_lvt_timer r, lv_thermal = rg_lvt_thermal r, lv_pmc = rg_lvt_pmc r,
               lv_lint = [rg_lvt_lint0 r, rg_lvt_lint1 r], lv_error = rg_lvt_error r\<rparr> \<and>
      rg_timer_dcr r AND NOT DCR_MASK = 0)"

lemma update_slot_fields: "update_slot g a = Some (g', a') \<Longrightarrow> a' = with_base_address a"
  by (auto simp: update_slot_def with_base_address_def bind_eq_Some_conv Let_def)

lemma reset_registers_fields:
  "reset_registers g a = Some (g', a') \<Longrightarrow> tm_ccr (la_timer a') = 0 \<and> la_is_offloaded a' = la_is_offloaded a"
  by (auto simp: reset_registers_def bind_eq_Some_conv with_base_address_def dest!: update_slot_fields)

lemma apic_reset_fields: "apic_reset g a = Some (g', a') \<Longrightarrow> tm_ccr (la_timer a') = 0 \<and> \<not> la_is_offloaded a'"
  by (auto simp: apic_reset_def bind_eq_Some_conv dest!: reset_registers_fields split: if_splits)

lemma set_apic_base_inner_fields:
  assumes "set_apic_base_inner g a v = Some (g', a', res)" "tm_ccr (la_timer a) = 0" "\<not> la_is_offloaded a"
  shows "tm_ccr (la_timer a') = 0" "\<not> la_is_offloaded a'" "res = Inr () \<Longrightarrow> base_x2apic (la_apic_base a') = base_x2apic v"
  using assms by (auto simp: set_apic_base_inner_def bind_eq_Some_conv with_base_address_def Let_def base_x2apic_def bit_put_bit
      dest!: update_slot_fields reset_registers_fields split: if_splits)

text \<open>The registers that \<open>restore\<close> loads.\<close>

definition restored_vectors :: "saved_apic \<Rightarrow> bool \<Rightarrow> local_apic \<Rightarrow> local_apic" where
  "restored_vectors st cluster a =
     (let r = sa_registers st;
          a = a\<lparr>la_id := (if x2apic_enabled a then rg_id r else drop_bit 24 (rg_id r)), la_version := rg_version r\<rparr>;
          a = (if \<not> x2apic_enabled a then a\<lparr>la_ldr := rg_ldr r AND 0xff000000\<rparr> else a)
      in recompute_next_irr (a\<lparr>la_cluster_mode := cluster, la_svr := rg_svr r, la_irr := rg_irr r, la_tmr := rg_tmr r,
           la_auto_eoi := sa_auto_eoi st\<rparr>))"

definition restored :: "saved_apic \<Rightarrow> u8 list \<Rightarrow> local_apic \<Rightarrow> local_apic" where
  "restored st isr a =
     (let r = sa_registers st in
      a\<lparr>la_isr := isr, la_esr := rg_esr r, la_icr := ucast (fst (rg_icr r)) OR push_bit 32 (ucast (snd (rg_icr r))),
        la_lvts := \<lparr>lv_timer = effective_lvt a (rg_lvt_timer r), lv_thermal = effective_lvt a (rg_lvt_thermal r),
          lv_pmc = effective_lvt a (rg_lvt_pmc r), lv_lint = [effective_lvt a (rg_lvt_lint0 r), effective_lvt a (rg_lvt_lint1 r)],
          lv_error = effective_lvt a (rg_lvt_error r)\<rparr>,
        la_timer := (la_timer a)\<lparr>tm_icr := rg_timer_icr r, tm_dcr := rg_timer_dcr r\<rparr>\<rparr>)"

lemma apic_restore_alt:
  "apic_restore g a st = do {
     assert_that (\<not> la_is_offloaded a);
     (g, a, res) \<leftarrow> set_apic_base_inner g a (sa_apic_base st);
     case res of
       Inl e \<Rightarrow> Some (g, a, Inl e)
     | Inr _ \<Rightarrow>
         if \<not> hardware_enabled a then Some (g, a, Inr ())
         else do {
           cluster \<leftarrow> dfr_cluster_mode (rg_dfr (sa_registers st));
           isr \<leftarrow> isr_load_from_bits (rg_isr (sa_registers st));
           (g, a) \<leftarrow> update_slot g (restored st isr (restored_vectors st cluster a));
           Some (g, a\<lparr>la_needs_offload_reeval := True\<rparr>, Inr ())
         }
   }"
  by (simp only: apic_restore_def restored_def restored_vectors_def Let_def)

lemma restored_inv:
  assumes inv: "apic_inv g0 i now (g, a)" and "saved_ok i st" "tm_ccr (la_timer a) = 0"
    "base_x2apic (la_apic_base a) = base_x2apic (sa_apic_base st)" "isr_ok isr"
  shows "reg_inv g0 i now (g, restored st isr (restored_vectors st cluster a))"
proof -
  let ?r = "sa_registers st" and ?v = "restored_vectors st cluster a"
  have a: "set_ok g" "registers_ok g now a" "only_slot (unat i) g0 g" "la_id a = i"
    using inv by (auto simp: apic_inv_def apic_ok_def)
  have l: "(w AND 0xff000000) AND 0xffffff = 0" for w :: u32 by (simp add: and.assoc)
  have v: "la_id ?v = i" "la_shared ?v = la_shared a" "la_apic_base ?v = la_apic_base a" "la_ldr ?v AND 0xffffff = 0"
    "la_svr ?v = rg_svr ?r" "la_irr ?v = rg_irr ?r" "la_tmr ?v = rg_tmr ?r" "la_auto_eoi ?v = sa_auto_eoi st"
    "la_timer ?v = la_timer a" "la_next_irr ?v = highest_vector (rg_irr ?r)"
    using assms(2,4) a(2) l
    by (auto simp: restored_vectors_def recompute_next_irr_def x2apic_enabled_def Let_def saved_ok_def registers_ok_def split: option.split)
  have lvts: "lvts_ok \<lparr>lv_timer = effective_lvt ?v (rg_lvt_timer ?r), lv_thermal = effective_lvt ?v (rg_lvt_thermal ?r),
      lv_pmc = effective_lvt ?v (rg_lvt_pmc ?r), lv_lint = [effective_lvt ?v (rg_lvt_lint0 ?r), effective_lvt ?v (rg_lvt_lint1 ?r)],
      lv_error = effective_lvt ?v (rg_lvt_error ?r)\<rparr>"
    using assms(2) by (auto simp: saved_ok_def Let_def lvts_ok_def effective_lvt_within)
  have "timer_ok now (la_timer a\<lparr>tm_icr := rg_timer_icr ?r, tm_dcr := rg_timer_dcr ?r\<rparr>)"
    using a(2) assms(2,3) by (auto simp: registers_ok_def timer_ok_def saved_ok_def Let_def)
  then show ?thesis using a assms(2,5) v lvts
    by (auto simp: reg_inv_def registers_ok_def restored_def Let_def vectors_ok_def saved_ok_def)
qed

lemma restore_inv:
  assumes inv: "apic_inv g0 i now (g, a)" and off: "\<not> la_is_offloaded a" "tm_ccr (la_timer a) = 0" and st: "saved_ok i st"
  shows "returns (apic_restore g a st) (\<lambda>(g, a, res). apic_inv g0 i now (g, a))"
proof -
  let ?P = "\<lambda>(g, a, res). apic_inv g0 i now (g, a)"
  obtain g1 a1 res where base: "set_apic_base_inner g a (sa_apic_base st) = Some (g1, a1, res)" "apic_inv g0 i now (g1, a1)"
    using set_apic_base_inner_inv[OF inv, of "sa_apic_base st"] by (auto simp: returns_iff)
  note f = set_apic_base_inner_fields[OF base(1) off(2,1)]
  obtain cluster where cluster: "dfr_cluster_mode (rg_dfr (sa_registers st)) = Some cluster" using st by (auto simp: saved_ok_def Let_def)
  obtain isr where isr: "isr_load_from_bits (rg_isr (sa_registers st)) = Some isr" "isr_ok isr" using isr_load_from_bits_ok by blast
  have reeval: "apic_inv g0 i now (h, b\<lparr>la_needs_offload_reeval := True\<rparr>)" if "apic_inv g0 i now (h, b)" for h b
    by (rule apic_inv_vectors[OF that]) (use apic_inv_parts[OF that] in \<open>auto simp: vectors_ok_def vec_frame_def\<close>)
  have "returns (do { (g, a) \<leftarrow> update_slot g1 (restored st isr (restored_vectors st cluster a1));
      Some (g, a\<lparr>la_needs_offload_reeval := True\<rparr>, Inr ()) }) ?P" if "res = Inr ()"
    by (rule returns_bindI[OF update_slot_inv[OF restored_inv[OF base(2) st f(1) f(3)[OF that] isr(2)]]]) (auto intro: reeval)
  then show ?thesis using base(2) off(1) cluster isr(1)
    by (cases res) (auto simp: apic_restore_alt base(1))
qed

end
