(* ===== verification/LocalApicMachine.thy ===== *)
theory LocalApicMachine
  imports LocalApicSafety
begin

text \<open>
  The machine whose steps are the operations of a set of local APICs: adding a processor, requests of devices
  and of the synthetic interrupt controller, and the operations of each virtual processor on its own APIC. It is
  an \<open>invariant_machine\<close> for the well-formedness of \<open>LocalApicSafety\<close>.
\<close>

subsection \<open>The machine\<close>

text \<open>
  The operations of a virtual processor on its APIC, with the client it passes; \<open>AcknowledgeNext\<close> and
  \<open>LazyEoi\<close> follow the contract of their callers: acknowledge what \<open>scan\<close> reported, and end lazily only what
  is pending. The operations that assert that the APIC is not offloaded are issued after offload is disabled.
  A restore follows a reset.
\<close>

datatype vp_op =
    ReadMmio u64 nat | WriteMmio u64 "u8 list" | ReadMsr u32 | WriteMsr u32 u64 | GetPpr
  | ScanWork "u64 option" bool | AcknowledgeNext | LazyEoi | FixedRequests "u32 list"
  | EnableOffload | DisableOffload | PushOffload | ResetApic | SetBase u64 | SaveApic | RestoreApic saved_apic

fun vp_step :: "vp_op \<Rightarrow> apic_access \<Rightarrow> apic_access option" where
  "vp_step (ReadMmio address len) s = do { (s, _) \<leftarrow> apic_mmio_read s address len; Some s }"
| "vp_step (WriteMmio address data) s = apic_mmio_write s address data"
| "vp_step (ReadMsr msr) s = do { (s, _) \<leftarrow> msr_read s msr; Some s }"
| "vp_step (WriteMsr msr v) s = do { (s, _) \<leftarrow> msr_write s msr v; Some s }"
| "vp_step GetPpr (g, a, c) = do { (a, c, _) \<leftarrow> get_ppr a c; Some (g, a, c) }"
| "vp_step (ScanWork timeout scan_irr) (g, a, c) = do { (g, a, _, _) \<leftarrow> scan g a (cl_now c) timeout scan_irr; Some (g, a, c) }"
| "vp_step AcknowledgeNext (g, a, c) =
     (case next_irr a of
        Some v \<Rightarrow> if la_is_offloaded a then Some (g, a, c) else do { a \<leftarrow> apic_acknowledge_interrupt a v; Some (g, a, c) }
      | None \<Rightarrow> Some (g, a, c))"
| "vp_step LazyEoi (g, a, c) =
     (if is_lazy_eoi_pending a then do { (a, c) \<leftarrow> lazy_eoi a c; Some (g, a, c) } else Some (g, a, c))"
| "vp_step (FixedRequests irr) (g, a, c) = Some (g, request_fixed_interrupts a irr, c)"
| "vp_step EnableOffload (g, a, c) = Some (g, enable_offload a, c)"
| "vp_step DisableOffload (g, a, c) =
     (if la_is_offloaded a
      then do { a \<leftarrow> disable_offload a (fst (cl_offload c)) (snd (cl_offload c)); Some (g, a, c) }
      else Some (g, a, c))"
| "vp_step PushOffload (g, a, c) = Some (g, fst (push_to_offload a), c)"
| "vp_step ResetApic (g, a, c) = (if la_is_offloaded a then Some (g, a, c) else do { (g, a) \<leftarrow> apic_reset g a; Some (g, a, c) })"
| "vp_step (SetBase v) (g, a, c) =
     (if la_is_offloaded a then Some (g, a, c) else do { (g, a, _) \<leftarrow> set_apic_base g a v; Some (g, a, c) })"
| "vp_step SaveApic (g, a, c) =
     (if la_is_offloaded a then Some (g, a, c) else do { (g, a, _) \<leftarrow> apic_save g a; Some (g, a, c) })"
| "vp_step (RestoreApic st) (g, a, c) =
     (if la_is_offloaded a then Some (g, a, c)
      else do { (g, a) \<leftarrow> apic_reset g a; (g, a, _) \<leftarrow> apic_restore g a st; Some (g, a, c) })"

text \<open>What the environment may pass; a write of the destination format register must name one of its two formats.\<close>

fun vp_op_ok :: "u32 \<Rightarrow> vp_op \<Rightarrow> bool" where
  "vp_op_ok i (WriteMmio address data) \<longleftrightarrow>
     (ucast (drop_bit 4 address) = REG_DFR \<longrightarrow> dfr_cluster_mode (mmio_word address data) \<noteq> None)"
| "vp_op_ok i (FixedRequests irr) \<longleftrightarrow> length irr = 8"
| "vp_op_ok i (RestoreApic st) \<longleftrightarrow> saved_ok i st"
| "vp_op_ok i _ \<longleftrightarrow> True"

lemma lazy_eoi_inv:
  assumes "apic_inv g0 i now (g, a)" "client_ok t c" "is_lazy_eoi_pending a"
  shows "returns (lazy_eoi a c) (\<lambda>(a', c'). apic_inv g0 i now (g, a') \<and> client_ok t c')"
  using eoi_inv[OF assms(1,2)] assms(3) by (simp add: lazy_eoi_def)

lemma reset_restore_inv:
  assumes "apic_inv g0 i now (g, a)" "\<not> la_is_offloaded a" "saved_ok i st"
  shows "returns (do { (g, a) \<leftarrow> apic_reset g a; (g, a, _) \<leftarrow> apic_restore g a st; Some (g, a, c) })
    (\<lambda>(g, a, c'). apic_inv g0 i now (g, a) \<and> c' = c)"
proof -
  have reset: "returns (apic_reset g a) (\<lambda>(h, b). apic_inv g0 i now (h, b) \<and> tm_ccr (la_timer b) = 0 \<and> \<not> la_is_offloaded b)"
    using apic_reset_inv[OF apic_inv_reg[OF assms(1)] assms(2)] by (auto simp: returns_iff dest: apic_reset_fields)
  have "returns (do { (g, a, _) \<leftarrow> apic_restore h b st; Some (g, a, c) }) (\<lambda>(g, a, c'). apic_inv g0 i now (g, a) \<and> c' = c)"
    if "apic_inv g0 i now (h, b)" "tm_ccr (la_timer b) = 0" "\<not> la_is_offloaded b" for h b
    by (rule returns_bindI[OF restore_inv[OF that(1,3,2) assms(3)]]) auto
  then show ?thesis by (auto simp del: returns_bind intro!: returns_bindI[OF reset])
qed

lemma vp_step_inv:
  assumes "acc_inv g0 i t s" "unat t < 2 ^ 63" "vp_op_ok i op"
  shows "returns (vp_step op s) (acc_inv g0 i t)"
proof -
  obtain g a c where s: "s = (g, a, c)" by (cases s)
  have inv: "apic_inv g0 i (unat t) (g, a)" "client_ok t c" using assms by (simp_all add: acc_inv_def s)
  have len: "length (fst (cl_offload c)) = 8" and now: "cl_now c = t" using inv(2) by (simp_all add: client_ok_def)
  have acc: "acc_inv g0 i t (h, b, k)" if "apic_inv g0 i (unat t) (h, b)" "client_ok t k" for h b k
    using that by (simp add: acc_inv_def)
  show ?thesis
  proof (cases op)
    case ReadMmio then show ?thesis by (simp del: returns_bind) (rule returns_bindI[OF mmio_inv(1)[OF assms(1,2)]], auto)
  next
    case WriteMmio then show ?thesis using mmio_inv(2)[OF assms(1,2)] assms(3) by simp
  next
    case ReadMsr then show ?thesis by (simp del: returns_bind) (rule returns_bindI[OF msr_read_inv[OF assms(1,2)]], auto)
  next
    case WriteMsr then show ?thesis by (simp del: returns_bind) (rule returns_bindI[OF msr_write_inv[OF assms(1,2)]], auto)
  next
    case GetPpr then show ?thesis by (simp add: s del: returns_bind) (rule returns_bindI[OF get_ppr_inv[OF inv]], auto intro: acc)
  next
    case ScanWork then show ?thesis
      by (simp add: s now del: returns_bind) (rule returns_bindI[OF scan_inv[OF inv(1) assms(2)]], auto intro: acc[OF _ inv(2)])
  next
    case AcknowledgeNext then show ?thesis
      using inv by (auto simp: s acc split: option.split intro!: returns_mono[OF acknowledge_inv[OF inv(1)]])
  next
    case LazyEoi then show ?thesis
      using inv by (auto simp: s acc intro!: returns_mono[OF lazy_eoi_inv[OF inv]])
  next
    case FixedRequests then show ?thesis using assms(3) request_fixed_inv[OF inv(1)] inv(2) by (simp add: s acc)
  next
    case DisableOffload then show ?thesis
      using inv len by (auto simp: s acc intro!: returns_mono[OF offload_inv(3)[OF inv(1)]])
  next
    case ResetApic then show ?thesis
      using inv by (auto simp: s acc intro!: returns_mono[OF apic_reset_inv[OF apic_inv_reg[OF inv(1)]]])
  next
    case SetBase then show ?thesis
      using inv by (auto simp: s acc set_apic_base_def intro!: returns_mono[OF set_apic_base_inner_inv[OF inv(1)]])
  next
    case SaveApic then show ?thesis using inv by (auto simp: s acc intro!: returns_mono[OF save_inv[OF inv(1)]])
  next
    case RestoreApic then show ?thesis using reset_restore_inv[OF inv(1)] assms(3) inv
      by (auto simp: s acc simp del: returns_bind intro!: returns_mono[OF reset_restore_inv[OF inv(1)]])
  qed (use offload_inv(1,2)[OF inv(1)] inv(2) in \<open>simp_all add: s acc\<close>)
qed

text \<open>
  The set of APICs, the APIC of every virtual processor by its identifier, and the clock that the clients read;
  the clock stops before \<open>2 ^ 63\<close> units of 100ns. Devices and the synthetic interrupt controller request
  interrupts at any time between the operations of the processors.
\<close>

record apic_machine =
  mc_set :: apic_set
  mc_apics :: "u32 \<Rightarrow> local_apic option"
  mc_clock :: nat

datatype apic_event =
    AddApic u32 u32 bool | Tick nat | Msi u64 u32 | LintPulse u32 nat | Synic u32 u8 bool | VpEvent u32 apic_client vp_op

definition apic_machine_new :: "bool \<Rightarrow> bool \<Rightarrow> apic_machine" where
  "apic_machine_new x2apic_capable hyperv =
     \<lparr>mc_set = apic_set_build x2apic_capable hyperv, mc_apics = (\<lambda>_. None), mc_clock = 0\<rparr>"

fun apic_step :: "apic_machine \<Rightarrow> apic_event \<Rightarrow> apic_machine option" where
  "apic_step m (AddApic vp_index i enabled) =
     (case mc_apics m i of
        Some _ \<Rightarrow> Some m
      | None \<Rightarrow> do { (g, a) \<leftarrow> add_apic (mc_set m) vp_index i enabled; Some (m\<lparr>mc_set := g, mc_apics := (mc_apics m)(i \<mapsto> a)\<rparr>) })"
| "apic_step m (Tick d) = Some (if mc_clock m + d < 2 ^ 63 then m\<lparr>mc_clock := mc_clock m + d\<rparr> else m)"
| "apic_step m (Msi address data) = Some (m\<lparr>mc_set := fst (request_interrupt (mc_set m) address data)\<rparr>)"
| "apic_step m (LintPulse vp_index n) = do { (g, _) \<leftarrow> lint (mc_set m) vp_index n; Some (m\<lparr>mc_set := g\<rparr>) }"
| "apic_step m (Synic vp_index v auto_eoi) = Some (m\<lparr>mc_set := fst (synic_interrupt (mc_set m) vp_index v auto_eoi)\<rparr>)"
| "apic_step m (VpEvent i c op) =
     (case mc_apics m i of
        None \<Rightarrow> Some m
      | Some a \<Rightarrow> do {
          (g, a, _) \<leftarrow> vp_step op (mc_set m, a, c\<lparr>cl_now := of_nat (mc_clock m)\<rparr>);
          Some (m\<lparr>mc_set := g, mc_apics := (mc_apics m)(i \<mapsto> a)\<rparr>)
        })"

fun apic_event_ok :: "apic_event \<Rightarrow> bool" where
  "apic_event_ok (LintPulse vp_index n) \<longleftrightarrow> n < 2"
| "apic_event_ok (VpEvent i c op) \<longleftrightarrow>
     vp_op_ok i op \<and> length (fst (cl_offload c)) = 8 \<and> length (snd (cl_offload c)) = 8"
| "apic_event_ok _ \<longleftrightarrow> True"

definition machine_ok :: "apic_machine \<Rightarrow> bool" where
  "machine_ok m \<longleftrightarrow> mc_clock m < 2 ^ 63 \<and> set_ok (mc_set m) \<and>
     (\<forall>i. mc_apics m i = None \<longrightarrow> unat i < length (ga_by_apic_id (mc_set m)) \<longrightarrow>
        asl_shared (ga_by_apic_id (mc_set m) ! unat i) = None) \<and>
     (\<forall>i a. mc_apics m i = Some a \<longrightarrow> la_id a = i \<and> apic_ok (mc_set m) (mc_clock m) a)"

lemma machine_ok_requested:
  assumes "machine_ok m" "set_requested (mc_set m) g"
  shows "machine_ok (m\<lparr>mc_set := g\<rparr>)"
proof -
  note k = set_requested_keeps[OF assms(2)]
  have "only_slot 0 (mc_set m) g" by (rule k(2))
  then show ?thesis using assms(1) k(1,3) by (auto simp: machine_ok_def only_slot_def)
qed

text \<open>A step of the APIC \<open>i\<close>, for which the other APICs must be well-formed.\<close>

definition others_ok :: "u32 \<Rightarrow> apic_machine \<Rightarrow> bool" where
  "others_ok i m \<longleftrightarrow> mc_clock m < 2 ^ 63 \<and>
     (\<forall>j. j \<noteq> i \<longrightarrow> mc_apics m j = None \<longrightarrow> unat j < length (ga_by_apic_id (mc_set m)) \<longrightarrow>
        asl_shared (ga_by_apic_id (mc_set m) ! unat j) = None) \<and>
     (\<forall>j a. j \<noteq> i \<longrightarrow> mc_apics m j = Some a \<longrightarrow> la_id a = j \<and> apic_ok (mc_set m) (mc_clock m) a)"

lemma machine_ok_apic:
  assumes "others_ok i m" "apic_inv (mc_set m) i (mc_clock m) (g, a)"
  shows "machine_ok (m\<lparr>mc_set := g, mc_apics := (mc_apics m)(i \<mapsto> a)\<rparr>)"
proof -
  have o: "only_slot (unat i) (mc_set m) g" and a: "set_ok g" "la_id a = i" "apic_ok g (mc_clock m) a"
    using assms(2) by (auto simp: apic_inv_def)
  have "apic_ok g (mc_clock m) b \<and> la_id b = j" if "mc_apics m j = Some b" "j \<noteq> i" for j b
  proof -
    have b: "la_id b = j" "apic_ok (mc_set m) (mc_clock m) b" using assms(1) that by (auto simp: others_ok_def)
    then have "la_shared b \<noteq> unat i" using that(2) by (auto simp: apic_ok_def registers_ok_def word_unat_eq_iff)
    then show ?thesis using apic_ok_other[OF b(2) o] b(1) by simp
  qed
  moreover have "asl_shared (ga_by_apic_id g ! unat j) = None"
    if "mc_apics m j = None" "j \<noteq> i" "unat j < length (ga_by_apic_id g)" for j
    using assms(1) that o by (auto simp: others_ok_def only_slot_def)
  ultimately show ?thesis using assms(1) a by (auto simp: machine_ok_def others_ok_def)
qed

lemma vp_event_ok:
  assumes "machine_ok m" "apic_event_ok (VpEvent i c op)"
  shows "returns (apic_step m (VpEvent i c op)) machine_ok"
proof (cases "mc_apics m i")
  case None
  then show ?thesis using assms by simp
next
  case (Some a)
  let ?t = "of_nat (mc_clock m) :: u64"
  have t: "unat ?t = mc_clock m" "unat ?t < 2 ^ 63" using assms(1) by (auto simp: machine_ok_def unat_of_nat)
  have "acc_inv (mc_set m) i ?t (mc_set m, a, c\<lparr>cl_now := ?t\<rparr>)"
    using assms Some t(1) by (auto simp: machine_ok_def acc_inv_def apic_inv_def client_ok_def)
  moreover have others: "others_ok i m" using assms(1) by (simp add: machine_ok_def others_ok_def)
  ultimately have "returns (vp_step op (mc_set m, a, c\<lparr>cl_now := ?t\<rparr>)) (acc_inv (mc_set m) i ?t)"
    using assms(2) vp_step_inv[OF _ t(2)] by simp
  then show ?thesis using Some
    by (auto elim!: returns_mono intro!: machine_ok_apic[OF others] simp: acc_inv_def t(1))
qed

lemma lint_requested:
  assumes "set_ok g" "n < 2"
  shows "returns (lint g vp_index n) (\<lambda>(g', _). set_requested g g')"
proof (cases "slot_of_index g vp_index")
  case (Some i)
  then have i: "i < length (ga_by_apic_id g)"
    by (auto simp: slot_of_index_def bind_eq_Some_conv split: if_splits)
  then have "length (asl_lint (ga_by_apic_id g ! i)) = 2" using assms(1) by (simp add: set_ok_def list_all_length slot_ok_def)
  then obtain lvt where "index_ck (asl_lint (ga_by_apic_id g ! i)) n = Some lvt" using assms(2) by (simp add: index_ck_def)
  then show ?thesis using Some request_at_requested[of g i "lvt_delivery_mode lvt" "lvt_vector lvt" False False]
    by (simp add: lint_def split_beta)
qed (simp add: lint_def)

lemma synic_requested: "set_requested g (fst (synic_interrupt g vp_index v auto_eoi))"
  by (simp add: synic_interrupt_def request_at_requested split: option.split)

subsection \<open>Adding an APIC\<close>

lemma grow_nth: "j < length xs \<Longrightarrow> grow n x xs ! j = xs ! j" "n \<le> length (grow n x xs)" "length xs \<le> length (grow n x xs)"
  "length (grow n x xs) = max n (length xs)" "j < length (grow n x xs) \<Longrightarrow> length xs \<le> j \<Longrightarrow> grow n x xs ! j = x"
  by (auto simp: grow_def nth_append)

lemma filter_grow: "\<not> P x \<Longrightarrow> length (filter P (grow n x xs)) = length (filter P xs)"
  by (simp add: grow_def)

text \<open>The slots with a new APIC \<open>j\<close>.\<close>

definition added_slots :: "nat \<Rightarrow> shared_state \<Rightarrow> apic_slot list \<Rightarrow> apic_slot list" where
  "added_slots j sh slots = (let grown = grow (j + 1) apic_slot_empty slots in grown[j := (grown ! j)\<lparr>asl_shared := Some sh\<rparr>])"

lemma added_slots_nth:
  "length (added_slots j sh slots) = max (j + 1) (length slots)"
  "k < length slots \<Longrightarrow> k \<noteq> j \<Longrightarrow> added_slots j sh slots ! k = slots ! k"
  "k < length (added_slots j sh slots) \<Longrightarrow> k \<noteq> j \<Longrightarrow> \<not> k < length slots \<Longrightarrow> added_slots j sh slots ! k = apic_slot_empty"
  "asl_shared (added_slots j sh slots ! j) = Some sh"
  by (auto simp: added_slots_def Let_def grow_nth)

lemma added_slots_count:
  assumes "\<And>s x. P (s\<lparr>asl_shared := x\<rparr>) = P s" "\<not> P apic_slot_empty"
  shows "length (filter P (added_slots j sh slots)) = length (filter P slots)"
proof -
  have "j < length (grow (j + 1) apic_slot_empty slots)" by (simp add: grow_nth(4))
  from count_update[OF this, of P "(grow (j + 1) apic_slot_empty slots ! j)\<lparr>asl_shared := Some sh\<rparr>"] show ?thesis
    using assms filter_grow[of P apic_slot_empty "j + 1" slots] by (simp add: added_slots_def Let_def)
qed

lemma added_slots_ok:
  assumes "list_all slot_ok slots" "shared_ok sh"
  shows "list_all slot_ok (added_slots j sh slots)"
proof -
  have empty: "slot_ok apic_slot_empty" by (simp add: slot_ok_def apic_slot_empty_def)
  have "list_all slot_ok (grow (j + 1) apic_slot_empty slots)" using assms(1) empty by (auto simp: grow_def list_all_iff)
  then show ?thesis using assms(2)
    by (auto simp: added_slots_def Let_def list_all_length nth_list_update' slot_ok_def)
qed

lemma add_apic_ok:
  assumes "machine_ok m" "mc_apics m i = None"
  shows "returns (apic_step m (AddApic vp_index i enabled)) machine_ok"
proof -
  let ?g = "mc_set m" and ?j = "unat i" and ?old = "ga_by_apic_id (mc_set m)"
  define sh where "sh = shared_state_new vp_index enabled"
  define slots where "slots = added_slots ?j sh ?old"
  define g1 where "g1 = ?g\<lparr>ga_by_apic_id := slots, ga_by_index := (grow (unat vp_index + 1) 0xffffffff (ga_by_index ?g))[unat vp_index := i]\<rparr>"
  have ok: "set_ok ?g" using assms(1) by (simp add: machine_ok_def)
  note nth = added_slots_nth[where j = ?j and sh = sh and slots = ?old, folded slots_def]
  have none: "asl_shared (grow (?j + 1) apic_slot_empty ?old ! ?j) = None"
    using assms by (cases "?j < length ?old") (auto simp: machine_ok_def grow_nth apic_slot_empty_def)
  have "shared_ok sh" by (simp add: sh_def shared_state_new_def shared_ok_def)
  then have s1: "set_ok g1" using ok unsigned_less[of i, where 'a = nat] added_slots_ok[of ?old sh ?j]
      added_slots_count[of asl_x2apic_enabled ?j sh ?old] added_slots_count[of asl_cluster_mode ?j sh ?old]
    by (simp add: set_ok_def g1_def nth(1) apic_slot_empty_def flip: slots_def)
  have r1: "registers_ok g1 (mc_clock m) (local_apic_new i)"
    using nth(1,4) by (simp add: registers_ok_def local_apic_new_def g1_def base_ok_def base_x2apic_def lvts_ok_def timer_ok_def vectors_ok_def)
  have "apic_ok g1 (mc_clock m) a" if "apic_ok ?g (mc_clock m) a" "la_id a \<noteq> i" for a
    using that nth(1) nth(2)[of "la_shared a"] by (auto simp: apic_ok_def registers_ok_def g1_def word_unat_eq_iff)
  moreover have "asl_shared (slots ! unat k) = None" if "mc_apics m k = None" "k \<noteq> i" "unat k < length slots" for k
    using that assms(1) nth(2)[of "unat k"] nth(3)[of "unat k"]
    by (cases "unat k < length ?old") (auto simp: machine_ok_def word_unat_eq_iff apic_slot_empty_def)
  ultimately have o1: "others_ok i (m\<lparr>mc_set := g1\<rparr>)"
    using assms(1) by (auto simp: others_ok_def machine_ok_def) (auto simp: g1_def)
  have "reg_inv g1 i (mc_clock m) (g1, local_apic_new i)" using s1 r1 by (simp add: reg_inv_def local_apic_new_def)
  then have "returns (apic_reset g1 (local_apic_new i)) (apic_inv g1 i (mc_clock m))"
    by (rule apic_reset_inv) (simp add: local_apic_new_def)
  moreover have "add_apic ?g vp_index i enabled = apic_reset g1 (local_apic_new i)"
    using none by (simp add: add_apic_def Let_def g1_def slots_def sh_def added_slots_def)
  ultimately show ?thesis using assms(2) machine_ok_apic[OF o1] by (auto elim!: returns_mono)
qed

lemma apic_step_ok:
  assumes "machine_ok m" "apic_event_ok e"
  shows "returns (apic_step m e) machine_ok"
proof (cases e)
  case (AddApic vp_index i enabled)
  then show ?thesis using add_apic_ok[OF assms(1), of i vp_index enabled] assms(1) by (cases "mc_apics m i") auto
next
  case (Tick d)
  then show ?thesis using assms(1) apic_ok_later[of "mc_set m" "mc_clock m" _ "mc_clock m + d"] by (auto simp: machine_ok_def)
next
  case (LintPulse vp_index n)
  have "returns (lint (mc_set m) vp_index n) (\<lambda>(g', _). set_requested (mc_set m) g')"
    by (rule lint_requested) (use assms LintPulse in \<open>simp_all add: machine_ok_def\<close>)
  then show ?thesis using machine_ok_requested[OF assms(1)] LintPulse by (auto elim!: returns_mono)
next
  case (VpEvent i c op)
  then show ?thesis using vp_event_ok[OF assms(1), of i c op] assms(2) by simp
qed (use machine_ok_requested[OF assms(1)] synic_requested global_request_requested in \<open>auto simp: request_interrupt_def Let_def\<close>)

interpretation am: invariant_machine apic_step apic_event_ok machine_ok
  by unfold_locales (use apic_step_ok in \<open>auto simp: returns_iff\<close>)

lemma machine_ok_new: "machine_ok (apic_machine_new x2apic_capable hyperv)"
  by (simp add: machine_ok_def apic_machine_new_def apic_set_build_def set_ok_def)

subsection \<open>Properties\<close>

text \<open>C3. From an empty set of APICs, no sequence of added processors, device and synthetic interrupts, pulses of
  the local interrupt pins, and operations of the processors (register access in both modes, inter-processor
  interrupts, timer, acknowledgement, end of interrupt, offload, reset, save and restore) panics, as long as
  every write to the destination format register names a format. Afterwards the counters of the set equal the
  number of slots in X2APIC and cluster mode, and for every APIC the registers keep to their defined bits, the
  in-service vectors have strictly increasing priorities, the next vector is the highest requested one, and the
  slot that other processors consult mirrors the registers.\<close>

theorem apic_runs_well_formed:
  assumes "list_all apic_event_ok es"
  shows "\<exists>m. run_steps apic_step (apic_machine_new x2apic_capable hyperv) es = Some m \<and> set_ok (mc_set m) \<and>
    (\<forall>i a. mc_apics m i = Some a \<longrightarrow> la_id a = i \<and> apic_ok (mc_set m) (mc_clock m) a)"
  using am.run_inv[OF machine_ok_new[of x2apic_capable hyperv] assms] unfolding machine_ok_def by blast

theorem apic_runs_well_formed_witness:
  "\<exists>m. run_steps apic_step (apic_machine_new True True)
      [AddApic 0 0 True, AddApic 1 1 True, Tick 5, Msi 0xfee01000 0x8051,
       VpEvent 1 \<lparr>cl_cr8 = 0, cl_now = 0, cl_offload = (replicate 8 0, replicate 8 0), cl_calls = []\<rparr> (ScanWork None True),
       VpEvent 1 \<lparr>cl_cr8 = 0, cl_now = 0, cl_offload = (replicate 8 0, replicate 8 0), cl_calls = []\<rparr> AcknowledgeNext,
       VpEvent 1 \<lparr>cl_cr8 = 0, cl_now = 0, cl_offload = (replicate 8 0, replicate 8 0), cl_calls = []\<rparr>
         (WriteMmio 0xfee000e0 [0xff, 0xff, 0xff, 0x0f]),
       VpEvent 0 \<lparr>cl_cr8 = 0, cl_now = 0, cl_offload = (replicate 8 0, replicate 8 0), cl_calls = []\<rparr>
         (WriteMmio 0xfee00300 [0x61, 0, 0x0c, 0])] = Some m \<and>
    set_ok (mc_set m) \<and> (\<forall>i a. mc_apics m i = Some a \<longrightarrow> la_id a = i \<and> apic_ok (mc_set m) (mc_clock m) a)"
proof (rule apic_runs_well_formed)
  have "dfr_cluster_mode (mmio_word 0xfee000e0 [0xff, 0xff, 0xff, 0x0f]) \<noteq> None" by code_simp
  moreover have "(ucast (drop_bit 4 (0xfee00300 :: u64)) :: u8) \<noteq> REG_DFR" by code_simp
  ultimately show "list_all apic_event_ok
      [AddApic 0 0 True, AddApic 1 1 True, Tick 5, Msi 0xfee01000 0x8051,
       VpEvent 1 \<lparr>cl_cr8 = 0, cl_now = 0, cl_offload = (replicate 8 0, replicate 8 0), cl_calls = []\<rparr> (ScanWork None True),
       VpEvent 1 \<lparr>cl_cr8 = 0, cl_now = 0, cl_offload = (replicate 8 0, replicate 8 0), cl_calls = []\<rparr> AcknowledgeNext,
       VpEvent 1 \<lparr>cl_cr8 = 0, cl_now = 0, cl_offload = (replicate 8 0, replicate 8 0), cl_calls = []\<rparr>
         (WriteMmio 0xfee000e0 [0xff, 0xff, 0xff, 0x0f]),
       VpEvent 0 \<lparr>cl_cr8 = 0, cl_now = 0, cl_offload = (replicate 8 0, replicate 8 0), cl_calls = []\<rparr>
         (WriteMmio 0xfee00300 [0x61, 0, 0x0c, 0])]" by simp
qed

end
