(* ===== verification/LocalApicDelivery.thy ===== *)
theory LocalApicDelivery
  imports LocalApicSafety
begin

text \<open>
  What the local APIC delivers: the effect of one scan, acknowledgement and end of interrupt on the sets of
  requested and in-service vectors, the loop of a processor that services all its interrupts, and two faults, of
  the destination format register and of the timer.
\<close>

subsection \<open>One round of delivery\<close>

text \<open>What is requested of an APIC, at the APIC or still in its shared state.\<close>

definition pending :: "shared_state \<Rightarrow> local_apic \<Rightarrow> u8 \<Rightarrow> bool" where
  "pending sh a v \<longleftrightarrow> vec_in (la_irr a) v \<or> vec_in (sh_new_irr sh) v"

definition level :: "shared_state \<Rightarrow> local_apic \<Rightarrow> u8 \<Rightarrow> bool" where
  "level sh a v \<longleftrightarrow> (if vec_in (sh_new_irr sh) v then vec_in (sh_tmr sh) v else vec_in (la_tmr a) v)"

definition auto_ended :: "shared_state \<Rightarrow> local_apic \<Rightarrow> u8 \<Rightarrow> bool" where
  "auto_ended sh a v \<longleftrightarrow> (if vec_in (sh_new_irr sh) v then vec_in (sh_auto_eoi sh) v else vec_in (la_auto_eoi a) v)"

lemma get_put_shared [simp]: "la_shared a < length (ga_by_apic_id g) \<Longrightarrow> la_shared b = la_shared a \<Longrightarrow> get_shared (put_shared g a sh) b = Some sh"
  by (simp add: get_shared_def put_shared_def)

lemma apic_inv_index: "apic_inv g0 i now (g, a) \<Longrightarrow> la_shared a < length (ga_by_apic_id g)"
  by (auto simp: apic_inv_def apic_ok_def registers_ok_def)

definition stat_frame :: "local_apic \<Rightarrow> local_apic" where
  "stat_frame a = a\<lparr>la_stats := apic_stats_new\<rparr>"

lemma stat_frame_bump [simp]: "stat_frame (bump k a) = stat_frame a"
  by (simp add: stat_frame_def bump_def)

lemma stat_frame_fields:
  assumes "stat_frame b = stat_frame a"
  shows "la_irr b = la_irr a" "la_tmr b = la_tmr a" "la_auto_eoi b = la_auto_eoi a" "la_isr b = la_isr a"
    "la_is_offloaded b = la_is_offloaded a" "la_shared b = la_shared a" "vec_frame b = vec_frame a"
    "la_next_irr b = la_next_irr a" "la_icr b = la_icr a"
  using assms[THEN arg_cong, of la_irr] assms[THEN arg_cong, of la_tmr] assms[THEN arg_cong, of la_auto_eoi]
    assms[THEN arg_cong, of la_isr] assms[THEN arg_cong, of la_is_offloaded] assms[THEN arg_cong, of la_shared]
    assms[THEN arg_cong, of vec_frame] assms[THEN arg_cong, of la_next_irr] assms[THEN arg_cong, of la_icr]
  by (simp_all add: stat_frame_def vec_frame_def)

lemma flush_result:
  assumes "apic_inv g0 i now (g, a)" "get_shared g a = Some sh"
  obtains g' a' r where "flush g a = Some (g', a', r)" "apic_inv g0 i now (g', a')"
    "get_shared g' a' = Some (sh\<lparr>sh_work := 0\<rparr>)" "stat_frame a' = stat_frame a"
proof -
  obtain g' a' r where f: "flush g a = Some (g', a', r)" "apic_inv g0 i now (g', a')"
    using flush_inv[OF assms(1)] by (auto simp: returns_iff)
  then have a': "stat_frame a' = stat_frame a" and g': "g' = (if sh_work sh = 0 then g else put_shared g a (sh\<lparr>sh_work := 0\<rparr>))"
    using assms(2) by (auto simp: flush_def Let_def put_shared_def split: if_splits)
  have "get_shared g' a' = Some (sh\<lparr>sh_work := 0\<rparr>)"
    using g' assms(2) apic_inv_index[OF assms(1)] stat_frame_fields(6)[OF a'] by (auto simp: get_shared_def put_shared_def)
  then show thesis using that f a' by blast
qed

lemma scan_result:
  assumes inv: "apic_inv g0 i now (g, a)" and sh: "get_shared g a = Some sh"
    and "hardware_enabled a" "\<not> la_is_offloaded a" "tm_next_timeout (la_timer a) = None"
  obtains g' a' sh' w where "scan g a t timeout True = Some (g', a', timeout, w)" "apic_inv g0 i now (g', a')"
    "get_shared g' a' = Some sh'" "wk_interrupt w = next_irr a'" "vec_frame a' = vec_frame a" "la_isr a' = la_isr a"
    "\<not> la_is_offloaded a'" "la_next_irr a' = highest_vector (la_irr a')"
    "\<And>v. vec_in (la_irr a') v = pending sh a v" "\<And>v. vec_in (la_tmr a') v = level sh a v"
    "\<And>v. vec_in (la_auto_eoi a') v = auto_ended sh a v" "sh_new_irr sh' = replicate 8 0"
proof -
  from flush_result[OF inv sh] obtain g1 a1 r where f: "flush g a = Some (g1, a1, r)" "apic_inv g0 i now (g1, a1)"
    "get_shared g1 a1 = Some (sh\<lparr>sh_work := 0\<rparr>)" "stat_frame a1 = stat_frame a" .
  note ff = stat_frame_fields[OF f(4)]
  show thesis
  proof (rule pull_irr_result[OF f(2)])
    fix sh2 a2 assume p: "get_shared g1 a1 = Some sh2" "shared_ok sh2"
      "pull_irr g1 a1 = Some (put_shared g1 a1 (sh2\<lparr>sh_new_irr := replicate 8 0\<rparr>), a2)"
      "apic_inv g0 i now (put_shared g1 a1 (sh2\<lparr>sh_new_irr := replicate 8 0\<rparr>), a2)"
      "vec_frame a2 = vec_frame a1" "la_isr a2 = la_isr a1" "la_is_offloaded a2 = la_is_offloaded a1" "la_icr a2 = la_icr a1"
      "la_next_irr a2 = highest_vector (la_irr a2)"
      "\<And>v. vec_in (la_irr a2) v \<longleftrightarrow> vec_in (la_irr a1) v \<or> vec_in (sh_new_irr sh2) v"
      "\<And>v. vec_in (la_tmr a2) v \<longleftrightarrow> (if vec_in (sh_new_irr sh2) v then vec_in (sh_tmr sh2) v else vec_in (la_tmr a1) v)"
      "\<And>v. vec_in (la_auto_eoi a2) v \<longleftrightarrow> (if vec_in (sh_new_irr sh2) v then vec_in (sh_auto_eoi sh2) v else vec_in (la_auto_eoi a1) v)"
    let ?g = "put_shared g1 a1 (sh2\<lparr>sh_new_irr := replicate 8 0\<rparr>)"
    have s2: "sh2 = sh\<lparr>sh_work := 0\<rparr>" using p(1) f(3) by simp
    have "scan g a t timeout True = Some (?g, a2, timeout, r\<lparr>wk_interrupt := next_irr a2\<rparr>)"
      using assms(3-5) f(1) p(3,7) ff by (simp add: scan_def)
    moreover have "get_shared ?g a2 = Some (sh2\<lparr>sh_new_irr := replicate 8 0\<rparr>)"
      by (rule get_put_shared[OF apic_inv_index[OF f(2)] vec_frame_fields(2)[OF p(5)]])
    ultimately show thesis
    proof (rule that[OF _ p(4)])
      show "wk_interrupt (r\<lparr>wk_interrupt := next_irr a2\<rparr>) = next_irr a2" "sh_new_irr (sh2\<lparr>sh_new_irr := replicate 8 0\<rparr>) = replicate 8 0"
        by simp_all
      show "vec_frame a2 = vec_frame a" "la_isr a2 = la_isr a" "\<not> la_is_offloaded a2" "la_next_irr a2 = highest_vector (la_irr a2)"
        using p(5-9) ff assms(4) by simp_all
      show "vec_in (la_irr a2) v = pending sh a v" "vec_in (la_tmr a2) v = level sh a v" "vec_in (la_auto_eoi a2) v = auto_ended sh a v" for v
        unfolding p(10-12) pending_def level_def auto_ended_def using ff s2 by simp_all
    qed
  qed
qed

lemma acknowledge_result:
  assumes inv: "apic_inv g0 i now (g, a)" and off: "\<not> la_is_offloaded a" and n: "next_irr a = Some v"
  obtains a' where "apic_acknowledge_interrupt a v = Some a'" "apic_inv g0 i now (g, a')" "vec_frame a' = vec_frame a"
    "la_isr a' = (if vec_in (la_auto_eoi a) v then la_isr a else la_isr a @ [v])" "\<not> la_is_offloaded a'"
    "la_tmr a' = la_tmr a" "la_auto_eoi a' = la_auto_eoi a" "\<And>w. vec_in (la_irr a') w \<longleftrightarrow> w \<noteq> v \<and> vec_in (la_irr a) w"
proof -
  obtain a' where a': "apic_acknowledge_interrupt a v = Some a'" "apic_inv g0 i now (g, a')"
    using acknowledge_inv[OF assms] by (auto simp: returns_iff)
  have len: "length (la_irr a) = 8" using apic_inv_parts(1)[OF inv] by (simp add: vectors_ok_def)
  have bm: "bank_mask v = (unat v div 32, snd (bank_mask v))" by (simp add: bank_mask_def)
  have auto: "la_auto_eoi a ! (unat v div 32) AND snd (bank_mask v) = 0 \<longleftrightarrow> \<not> vec_in (la_auto_eoi a) v"
    by (simp add: vec_in_def bank_mask_zero)
  obtain isr where isr: "isr = (if vec_in (la_auto_eoi a) v then la_isr a else la_isr a @ [v])"
    and a'': "a' = bump st_interrupt_update
      ((recompute_next_irr (a\<lparr>la_irr := (la_irr a)[unat v div 32 := la_irr a ! (unat v div 32) AND NOT (snd (bank_mask v))]\<rparr>))\<lparr>la_isr := isr\<rparr>)"
    using a'(1) off by (subst (asm) apic_acknowledge_interrupt_def, subst (asm) bm)
       (auto simp: auto isr_push_def bind_eq_Some_conv Let_def split: if_splits)
  show thesis
  proof (rule that[OF a'])
    show "vec_frame a' = vec_frame a" by (simp add: a'' bump_def vec_frame_def recompute_next_irr_def split: option.split)
    show "vec_in (la_irr a') w \<longleftrightarrow> w \<noteq> v \<and> vec_in (la_irr a) w" for w using vec_in_update(2)[OF len] by (simp add: a'')
  qed (use a'' isr off in simp_all)
qed

lemma eoi_result:
  assumes "\<not> la_is_offloaded a" "la_isr a = s @ [v]"
  obtains a' where "apic_eoi a c lazy = Some (a', if vec_in (la_tmr a) v then call_client [Eoi v] c else c)"
    "stat_frame a' = stat_frame (a\<lparr>la_isr := s\<rparr>)"
proof -
  have "la_tmr a ! (unat v div 32) AND snd (bank_mask v) = 0 \<longleftrightarrow> \<not> vec_in (la_tmr a) v" by (simp add: vec_in_def bank_mask_zero)
  then have t: "la_tmr a ! (unat v div 32) AND 2 ^ unat (v mod 32) = 0 \<longleftrightarrow> \<not> vec_in (la_tmr a) v" by (simp add: bank_mask_def)
  have "\<exists>a'. apic_eoi a c lazy = Some (a', if vec_in (la_tmr a) v then call_client [Eoi v] c else c) \<and>
      stat_frame a' = stat_frame (a\<lparr>la_isr := s\<rparr>)"
    using assms by (simp add: apic_eoi_def ensure_state_local_def isr_pop_def isr_top_def Let_def bank_mask_def t)
  then show thesis using that by blast
qed

subsection \<open>Reading the timer\<close>

primrec read_ccr_times :: "nat \<Rightarrow> apic_access \<Rightarrow> apic_access option" where
  "read_ccr_times 0 s = Some s"
| "read_ccr_times (Suc n) s = do { (s, _) \<leftarrow> read_register s REG_TIMER_CCR; read_ccr_times n s }"

lemma eval_time_divide_8:
  assumes "dcr_divider_shift (tm_dcr (la_timer a)) = 3" "now = tm_last_time (la_timer a) + 1" "2 < unat (tm_ccr (la_timer a))"
  shows "eval_time g a now = Some (g, a\<lparr>la_timer := (la_timer a)\<lparr>tm_ccr := tm_ccr (la_timer a) - 2\<rparr>\<rparr>)"
proof -
  let ?t = "la_timer a"
  have sub: "vmtime_checked_sub now (tm_last_time ?t) = Some 100" using assms(2) by (simp add: vmtime_checked_sub_def)
  have c: "drop_bit 3 (of_nat 100 div NANOS_PER_TICK) = (2 :: u64)" by (simp add: NANOS_PER_TICK_def)
  have ge: "\<not> (ucast (tm_ccr ?t) :: u64) \<le> 2" using assms(3) by (simp add: word_le_nat_alt unat_ucast_up)
  have "tm_ccr ?t \<noteq> 0" "2 \<le> tm_ccr ?t" using assms(3) by (auto simp: word_le_nat_alt)
  moreover have "mul_ck (push_bit 3 2) NANOS_PER_TICK = Some 80" by (simp add: mul_ck_def NANOS_PER_TICK_def)
  ultimately show ?thesis using ge sub c assms(1)
    by (simp add: eval_time_def Let_def timer_advance_def sub_ck_def vmtime_wrapping_add_def)
qed

subsection \<open>The destination format register\<close>

lemma low_bits: "address AND 0xfff = 0xe0 \<Longrightarrow> address AND 0xf = 0 \<and> address AND 3 = 0 \<and> (ucast (drop_bit 4 address) :: u8) = 0x0e"
  for address :: u64
proof -
  assume a: "address AND 0xfff = 0xe0"
  have m: "(0xfff :: u64) = mask 12" by code_simp
  have "address AND 0xf = (address AND 0xfff) AND 0xf" "address AND 3 = (address AND 0xfff) AND 3"
    by (simp_all add: and.assoc)
  moreover have "(ucast (drop_bit 4 address) :: u8) = ucast (drop_bit 4 (address AND 0xfff))"
    unfolding m by (intro bit_word_eqI) (auto simp: bit_unsigned_iff bit_drop_bit_eq bit_and_iff bit_mask_iff)
  ultimately show ?thesis by (simp add: a)
qed

lemma dfr_other_format: "drop_bit 28 v \<noteq> 0 \<Longrightarrow> drop_bit 28 v \<noteq> 0xf \<Longrightarrow> dfr_cluster_mode v = None"
proof -
  assume v: "drop_bit 28 v \<noteq> 0" "drop_bit 28 v \<noteq> 0xf"
  have "drop_bit 28 (v OR 0x0fffffff) = drop_bit 28 v" by (simp add: drop_bit_or)
  moreover have "drop_bit 28 CLUSTERED_MODE = 0" "drop_bit 28 FLAT_MODE = 0xf" by (code_simp+)
  ultimately show ?thesis using v by (metis dfr_cluster_mode_def)
qed

subsection \<open>Servicing all interrupts\<close>

text \<open>A processor that takes every interrupt its APIC offers and ends it at once.\<close>

partial_function (option) service :: "apic_access \<Rightarrow> (apic_access \<times> u8 list) option" where
  "service s =
     (let (g, a, c) = s in do {
        (g, a, timeout, w) \<leftarrow> scan g a (cl_now c) None True;
        case wk_interrupt w of
          None \<Rightarrow> Some ((g, a, c), [])
        | Some v \<Rightarrow> do {
            a \<leftarrow> apic_acknowledge_interrupt a v;
            (a, c) \<leftarrow> (if la_isr a = [] then Some (a, c) else apic_eoi a c False);
            (s, vs) \<leftarrow> service (g, a, c);
            Some (s, v # vs)
          }
      })"

definition ready :: "apic_set \<Rightarrow> u32 \<Rightarrow> nat \<Rightarrow> apic_set \<times> local_apic \<Rightarrow> bool" where
  "ready g0 i now = (\<lambda>(g, a). apic_inv g0 i now (g, a) \<and> hardware_enabled a \<and> software_enabled a \<and>
     \<not> la_is_offloaded a \<and> la_isr a = [] \<and> tm_next_timeout (la_timer a) = None)"

lemma ready_frame:
  assumes "ready g0 i now (g, a)" "vec_frame b = vec_frame a" "apic_inv g0 i now (h, b)" "\<not> la_is_offloaded b" "la_isr b = []"
  shows "ready g0 i now (h, b)"
  using assms vec_frame_fields[OF assms(2)] by (simp add: ready_def hardware_enabled_def software_enabled_def)

lemma next_irr_ready:
  assumes "ready g0 i now (g, a)"
  shows "next_irr a = None \<Longrightarrow> vec_in (la_irr a) v \<Longrightarrow> v < 16"
    "next_irr a = Some v \<Longrightarrow> 16 \<le> v \<and> vec_in (la_irr a) v" "next_irr a = Some v \<Longrightarrow> vec_in (la_irr a) w \<Longrightarrow> w \<le> v"
proof -
  have r: "length (la_irr a) = 8" "la_next_irr a = highest_vector (la_irr a)" "software_enabled a" "la_isr a = []"
    using assms apic_inv_parts(1) by (auto simp: ready_def vectors_ok_def)
  have p: "0 < priority u \<longleftrightarrow> 16 \<le> u" for u using priority_bounds(2)[of u] by (simp add: word_less_nat_alt Suc_le_eq)
  show "v < 16" if "next_irr a = None" "vec_in (la_irr a) v"
    using that r p highest_vector_None[of "la_irr a"] highest_vector_Some[of "la_irr a"]
    by (auto simp: next_irr_def isr_top_def not_le split: option.splits if_splits)
       (metis dual_order.strict_trans2 not_le)
  show "16 \<le> v \<and> vec_in (la_irr a) v" if "next_irr a = Some v"
    using that r p highest_vector_Some[of "la_irr a"] by (auto simp: next_irr_def isr_top_def split: option.splits if_splits)
  show "w \<le> v" if "next_irr a = Some v" "vec_in (la_irr a) w"
    using that r highest_vector_Some[of "la_irr a"] by (auto simp: next_irr_def isr_top_def split: option.splits if_splits)
qed

definition deliverable :: "shared_state \<Rightarrow> local_apic \<Rightarrow> u8 set" where
  "deliverable sh a = {v. 16 \<le> v \<and> pending sh a v}"

lemma scan_ready:
  assumes r: "ready g0 i now (g, a)" and sh: "get_shared g a = Some sh"
  obtains g1 a1 sh1 w where "scan g a t None True = Some (g1, a1, None, w)" "ready g0 i now (g1, a1)"
    "get_shared g1 a1 = Some sh1" "wk_interrupt w = next_irr a1" "\<forall>v. vec_in (la_irr a1) v = pending sh a v"
    "\<forall>v. vec_in (la_tmr a1) v = level sh a v" "\<forall>v. vec_in (la_auto_eoi a1) v = auto_ended sh a v"
    "sh_new_irr sh1 = replicate 8 0" "next_irr a1 = (if deliverable sh a = {} then None else Some (Max (deliverable sh a)))"
proof -
  have inv: "apic_inv g0 i now (g, a)" and en: "hardware_enabled a" "\<not> la_is_offloaded a" "tm_next_timeout (la_timer a) = None" "la_isr a = []"
    using r by (auto simp: ready_def)
  obtain g1 a1 sh1 w where s: "scan g a t None True = Some (g1, a1, None, w)" "apic_inv g0 i now (g1, a1)"
    "get_shared g1 a1 = Some sh1" "wk_interrupt w = next_irr a1" "vec_frame a1 = vec_frame a" "la_isr a1 = la_isr a"
    "\<not> la_is_offloaded a1" "\<forall>v. vec_in (la_irr a1) v = pending sh a v" "\<forall>v. vec_in (la_tmr a1) v = level sh a v"
    "\<forall>v. vec_in (la_auto_eoi a1) v = auto_ended sh a v" "sh_new_irr sh1 = replicate 8 0"
    by (rule scan_result[OF inv sh en(1-3)]) blast
  have r1: "ready g0 i now (g1, a1)" by (rule ready_frame[OF r s(5,2,7)]) (simp add: s(6) en(4))
  have del: "deliverable sh a = {v. 16 \<le> v \<and> vec_in (la_irr a1) v}" using s(8) by (simp add: deliverable_def)
  have "next_irr a1 = (if deliverable sh a = {} then None else Some (Max (deliverable sh a)))"
  proof (cases "next_irr a1")
    case None
    then have "deliverable sh a = {}" using next_irr_ready(1)[OF r1] by (auto simp: del not_le)
    then show ?thesis using None by simp
  next
    case (Some v)
    then have "v \<in> deliverable sh a" "\<And>w. w \<in> deliverable sh a \<Longrightarrow> w \<le> v" using next_irr_ready(2,3)[OF r1] by (auto simp: del)
    then show ?thesis using Some by (auto intro: Max_eqI[symmetric])
  qed
  then show thesis using that s r1 by blast
qed

lemma end_ready:
  assumes r: "ready g0 i now (g, a)" and n: "next_irr a = Some m"
  obtains a' where "do { a \<leftarrow> apic_acknowledge_interrupt a m; if la_isr a = [] then Some (a, c) else apic_eoi a c False } =
      Some (a', if vec_in (la_tmr a) m \<and> \<not> vec_in (la_auto_eoi a) m then call_client [Eoi m] c else c)"
    "ready g0 i now (g, a')" "la_shared a' = la_shared a" "la_tmr a' = la_tmr a" "la_auto_eoi a' = la_auto_eoi a"
    "\<forall>w. vec_in (la_irr a') w \<longleftrightarrow> w \<noteq> m \<and> vec_in (la_irr a) w"
proof -
  have inv: "apic_inv g0 i now (g, a)" and off: "\<not> la_is_offloaded a" and e: "la_isr a = []" using r by (auto simp: ready_def)
  obtain a2 where k: "apic_acknowledge_interrupt a m = Some a2" "apic_inv g0 i now (g, a2)" "vec_frame a2 = vec_frame a"
    "la_isr a2 = (if vec_in (la_auto_eoi a) m then [] else [m])" "\<not> la_is_offloaded a2" "la_tmr a2 = la_tmr a"
    "la_auto_eoi a2 = la_auto_eoi a" "\<forall>w. vec_in (la_irr a2) w \<longleftrightarrow> w \<noteq> m \<and> vec_in (la_irr a) w"
    by (rule acknowledge_result[OF inv off n]) (use e in auto)
  show thesis
  proof (cases "vec_in (la_auto_eoi a) m")
    case True
    then have "ready g0 i now (g, a2)" using ready_frame[OF r k(3,2,5)] k(4) by simp
    then show thesis using that[of a2] k True vec_frame_fields(2)[OF k(3)] by simp
  next
    case False
    then have isr: "la_isr a2 = [] @ [m]" using k(4) by simp
    from eoi_result[OF k(5) isr] obtain a3 where e3: "apic_eoi a2 c False = Some (a3, if vec_in (la_tmr a2) m then call_client [Eoi m] c else c)"
      "stat_frame a3 = stat_frame (a2\<lparr>la_isr := []\<rparr>)" .
    note f = stat_frame_fields[OF e3(2)] 
    have v3: "vec_frame a3 = vec_frame a2" using f(7) by (simp add: vec_frame_def)
    have "apic_inv g0 i now (g, a3)" by (rule apic_inv_vectors[OF k(2) v3]) (use apic_inv_parts(1,2)[OF k(2)] f in \<open>simp_all add: vectors_ok_def\<close>)
    then have "ready g0 i now (g, a3)" using ready_frame[OF r, of a3 g] v3 k(3,5) f by simp
    then show thesis using that[of a3] k False isr e3 f vec_frame_fields(2)[OF k(3)] by simp
  qed
qed

lemma service_round:
  assumes r: "ready g0 i now (g, a)" and sh: "get_shared g a = Some sh" and ne: "deliverable sh a \<noteq> {}"
  defines "m \<equiv> Max (deliverable sh a)"
  obtains g' a' sh' where
    "service (g, a, c) = do {
       (s, vs) \<leftarrow> service (g', a', if level sh a m \<and> \<not> auto_ended sh a m then call_client [Eoi m] c else c);
       Some (s, m # vs)
     }"
    "ready g0 i now (g', a')" "get_shared g' a' = Some sh'" "deliverable sh' a' = deliverable sh a - {m}"
    "level sh' a' = level sh a" "auto_ended sh' a' = auto_ended sh a"
proof -
  obtain g1 a1 sh1 w where s: "scan g a (cl_now c) None True = Some (g1, a1, None, w)" "ready g0 i now (g1, a1)"
    "get_shared g1 a1 = Some sh1" "wk_interrupt w = next_irr a1" "\<forall>v. vec_in (la_irr a1) v = pending sh a v"
    "\<forall>v. vec_in (la_tmr a1) v = level sh a v" "\<forall>v. vec_in (la_auto_eoi a1) v = auto_ended sh a v"
    "sh_new_irr sh1 = replicate 8 0" "next_irr a1 = (if deliverable sh a = {} then None else Some (Max (deliverable sh a)))"
    by (rule scan_ready[OF r sh])
  then have n: "next_irr a1 = Some m" using ne by (simp add: m_def)
  let ?c = "if level sh a m \<and> \<not> auto_ended sh a m then call_client [Eoi m] c else c"
  obtain a2 where e: "do { a \<leftarrow> apic_acknowledge_interrupt a1 m; if la_isr a = [] then Some (a, c) else apic_eoi a c False } = Some (a2, ?c)"
    "ready g0 i now (g1, a2)" "la_shared a2 = la_shared a1" "la_tmr a2 = la_tmr a1" "la_auto_eoi a2 = la_auto_eoi a1"
    "\<forall>w. vec_in (la_irr a2) w \<longleftrightarrow> w \<noteq> m \<and> vec_in (la_irr a1) w"
    using s(6,7) by (rule_tac end_ready[OF s(2) n, of c]) auto
  have "service (g, a, c) = do { (s, vs) \<leftarrow> service (g1, a2, ?c); Some (s, m # vs) }"
    using s(1,4) n e(1) by (subst service.simps) (auto simp: bind_eq_Some_conv)
  moreover have "get_shared g1 a2 = Some sh1" using s(3) e(3) by (simp add: get_shared_def)
  moreover have "deliverable sh1 a2 = deliverable sh a - {m}" using e(6) s(5,8) by (auto simp: deliverable_def pending_def)
  moreover have "level sh1 a2 = level sh a" "auto_ended sh1 a2 = auto_ended sh a"
    using s(6-8) e(4,5) by (auto simp: level_def[of sh1] auto_ended_def[of sh1])
  ultimately show thesis using that e(2) by blast
qed

lemma sorted_list_Max:
  "finite S \<Longrightarrow> S \<noteq> {} \<Longrightarrow> sorted_list_of_set S = sorted_list_of_set (S - {Max S}) @ [Max S]" for S :: "'a::linorder set"
proof -
  assume f: "finite S" "S \<noteq> {}"
  have "sorted (sorted_list_of_set (S - {Max S}) @ [Max S])" using f by (auto simp: sorted_append)
  moreover have "distinct (sorted_list_of_set (S - {Max S}) @ [Max S])" using f by simp
  moreover have "set (sorted_list_of_set (S - {Max S}) @ [Max S]) = S" using f Max_in[OF f] by (simp add: insert_absorb)
  ultimately show ?thesis using f sorted_distinct_set_unique[of "sorted_list_of_set S" "sorted_list_of_set (S - {Max S}) @ [Max S]"] by simp
qed

lemma service_ready:
  assumes "ready g0 i now (g, a)" "get_shared g a = Some sh"
  shows "\<exists>g' a' c'. service (g, a, c) = Some ((g', a', c'), rev (sorted_list_of_set (deliverable sh a))) \<and> ready g0 i now (g', a') \<and>
    (\<exists>sh'. get_shared g' a' = Some sh' \<and> deliverable sh' a' = {}) \<and>
    cl_calls c' = map Eoi (filter (\<lambda>v. level sh a v \<and> \<not> auto_ended sh a v) (sorted_list_of_set (deliverable sh a))) @ cl_calls c"
  using assms
proof (induction "card (deliverable sh a)" arbitrary: g a sh c)
  case 0
  then have e: "deliverable sh a = {}" by simp
  obtain g1 a1 sh1 w where s: "scan g a (cl_now c) None True = Some (g1, a1, None, w)" "ready g0 i now (g1, a1)"
    "wk_interrupt w = next_irr a1" "next_irr a1 = None" "get_shared g1 a1 = Some sh1" "deliverable sh1 a1 = deliverable sh a"
    using e by (rule_tac scan_ready[OF 0(2,3), of "cl_now c"]) (auto simp: deliverable_def pending_def)
  then show ?case by (subst service.simps) (simp add: e)
next
  case (Suc n)
  then have ne: "deliverable sh a \<noteq> {}" by auto
  define m where "m = Max (deliverable sh a)"
  let ?c = "if level sh a m \<and> \<not> auto_ended sh a m then call_client [Eoi m] c else c"
  obtain g' a' sh' where r: "service (g, a, c) = do { (s, vs) \<leftarrow> service (g', a', ?c); Some (s, m # vs) }"
    "ready g0 i now (g', a')" "get_shared g' a' = Some sh'" "deliverable sh' a' = deliverable sh a - {m}"
    "level sh' a' = level sh a" "auto_ended sh' a' = auto_ended sh a"
    using service_round[OF Suc(3,4) ne, of c] unfolding m_def by metis
  have "m \<in> deliverable sh a" unfolding m_def using ne by (intro Max_in) simp_all
  then have "n = card (deliverable sh' a')" using Suc(2) r(4) by simp
  from Suc(1)[OF this r(2,3), of ?c] show ?case
    using r sorted_list_Max[OF _ ne] by (auto simp: call_client_def m_def)
qed

subsection \<open>Properties\<close>

text \<open>C5. A processor with no interrupt in service that takes every interrupt its enabled APIC offers and ends it
  at once is done after finitely many: it is given exactly the pending vectors of 16 and above, the highest first,
  has none in service at the end, and the interrupt controllers are told of the end of exactly those that were
  level-triggered and are not ended automatically.\<close>

theorem service_finishes:
  assumes "set_ok g" "apic_ok g now a" "get_shared g a = Some sh" "hardware_enabled a" "software_enabled a"
    "\<not> la_is_offloaded a" "la_isr a = []" "tm_next_timeout (la_timer a) = None"
  shows "\<exists>g' a' c'. service (g, a, c) = Some ((g', a', c'), rev (sorted_list_of_set {v. 16 \<le> v \<and> pending sh a v})) \<and>
    apic_ok g' now a' \<and> la_isr a' = [] \<and>
    cl_calls c' = map Eoi (filter (\<lambda>v. level sh a v \<and> \<not> auto_ended sh a v)
      (sorted_list_of_set {v. 16 \<le> v \<and> pending sh a v})) @ cl_calls c"
proof -
  have "ready g (la_id a) now (g, a)" using assms by (simp add: ready_def apic_inv_def)
  from service_ready[OF this assms(3), of c] show ?thesis by (auto simp: ready_def apic_inv_def deliverable_def)
qed

theorem service_finishes_witness:
  "let sh = (shared_state_new 0 True)\<lparr>sh_new_irr := isr_to_bits [0x31, 0x52], sh_tmr := isr_to_bits [0x52]\<rparr>;
       slot = apic_slot_empty\<lparr>asl_hardware_enabled := True, asl_software_enabled := True, asl_shared := Some sh\<rparr>;
       g = (apic_set_build True True)\<lparr>ga_by_apic_id := [slot], ga_by_index := [0]\<rparr>;
       a = (local_apic_new 0)\<lparr>la_apic_base := 0xfee00900, la_base_address := Some 0xfee00000, la_svr := 0x1ff\<rparr>;
       c = \<lparr>cl_cr8 = 0, cl_now = 0, cl_offload = (replicate 8 0, replicate 8 0), cl_calls = []\<rparr>
   in \<exists>g' a' c'. service (g, a, c) = Some ((g', a', c'), [0x52, 0x31]) \<and> la_isr a' = [] \<and> cl_calls c' = [Eoi 0x52]"
proof -
  define sh where "sh = (shared_state_new 0 True)\<lparr>sh_new_irr := isr_to_bits [0x31, 0x52], sh_tmr := isr_to_bits [0x52]\<rparr>"
  define slot where "slot = apic_slot_empty\<lparr>asl_hardware_enabled := True, asl_software_enabled := True, asl_shared := Some sh\<rparr>"
  define g where "g = (apic_set_build True True)\<lparr>ga_by_apic_id := [slot], ga_by_index := [0]\<rparr>"
  define a where "a = (local_apic_new 0)\<lparr>la_apic_base := 0xfee00900, la_base_address := Some 0xfee00000, la_svr := 0x1ff\<rparr>"
  have en: "hardware_enabled a" "software_enabled a" "\<not> x2apic_enabled a" "xapic_enabled a"
    by (simp_all add: a_def hardware_enabled_def software_enabled_def x2apic_enabled_def xapic_enabled_def base_enable_def base_x2apic_def svr_enable_def)
  have base: "base_ok True 0xfee00900" "(0x1ff :: u32) AND NOT SVR_MASK = 0" "push_bit 12 (ucast (base_page 0xfee00900)) = (0xfee00000 :: u64)"
    by (simp_all add: base_ok_def) (code_simp+)
  have ok: "set_ok g"
    by (simp add: set_ok_def g_def slot_def slot_ok_def shared_ok_def sh_def shared_state_new_def apic_slot_empty_def apic_set_build_def)
  have aok: "apic_ok g 0 a"
    using en base by (simp add: apic_ok_def registers_ok_def slot_mirrors_def)
      (simp add: a_def g_def slot_def local_apic_new_def apic_set_build_def apic_slot_empty_def lvts_ok_def timer_ok_def vectors_ok_def)
  have sh: "get_shared g a = Some sh" by (simp add: get_shared_def g_def a_def local_apic_new_def slot_def)
  have p: "{v. 16 \<le> v \<and> pending sh a v} = {0x31, 0x52}" by (auto simp: pending_def a_def local_apic_new_def sh_def)
  have l: "level sh a 0x52" "\<not> level sh a 0x31" "\<not> auto_ended sh a v" for v
    by (simp_all add: level_def auto_ended_def sh_def shared_state_new_def a_def local_apic_new_def)
  have o: "sorted_list_of_set {0x31, 0x52 :: u8} = [0x31, 0x52]" by simp
  have "\<not> la_is_offloaded a" "la_isr a = []" "tm_next_timeout (la_timer a) = None" by (simp_all add: a_def local_apic_new_def)
  from service_finishes[OF ok aok sh en(1,2) this, unfolded p o,
      of "\<lparr>cl_cr8 = 0, cl_now = 0, cl_offload = (replicate 8 0, replicate 8 0), cl_calls = []\<rparr>"]
  show ?thesis unfolding Let_def sh_def[symmetric] slot_def[symmetric] g_def[symmetric] a_def[symmetric]
    by (auto simp: l)
qed

text \<open>C32. A guest that writes the destination format register of its APIC with a value whose top four bits are
  neither all zero nor all ones makes the virtual machine monitor panic: the write reaches
  \<open>unreachable!\<close> in \<open>cluster_mode\<close>.\<close>

theorem dfr_write_panics:
  fixes v :: u32
  assumes "xapic_enabled a" "address AND 0xfff = 0xe0" "drop_bit 28 v \<noteq> 0" "drop_bit 28 v \<noteq> 0xf"
  shows "apic_mmio_write (g, a, c) address (le_bytes 4 v) = None"
proof -
  note low = low_bits[OF assms(2)]
  have "is_valid_apic_access address" using low by (simp add: is_valid_apic_access_def)
  moreover have "\<not> x2apic_enabled a" using assms(1) by (simp add: xapic_enabled_def)
  moreover have "(of_le_bytes (le_bytes 4 v) :: u32) = v" by (simp add: of_le_bytes_le_bytes take_bit_word_eq_self)
  moreover have "splice 0 (le_bytes 4 v) (replicate 4 0) = le_bytes 4 v" by (simp add: splice_def)
  ultimately show ?thesis using assms(1) low dfr_other_format[OF assms(3,4)]
    by (simp add: apic_mmio_write_def write_register_def apic_regs)
qed

theorem dfr_write_panics_witness:
  "apic_mmio_write
     (apic_set_build True True, (local_apic_new 0)\<lparr>la_apic_base := 0xfee00800\<rparr>,
      \<lparr>cl_cr8 = 0, cl_now = 0, cl_offload = (replicate 8 0, replicate 8 0), cl_calls = []\<rparr>)
     0xfee000e0 (le_bytes 4 (0x10000000 :: u32)) = None"
proof (rule dfr_write_panics)
  show "xapic_enabled ((local_apic_new 0)\<lparr>la_apic_base := 0xfee00800\<rparr>)"
    by (simp add: xapic_enabled_def hardware_enabled_def x2apic_enabled_def base_enable_def base_x2apic_def)
qed simp_all

text \<open>C33. With the divider of the timer at 8, reading the current count again at the same time takes more
  counts off: two for every read, 100ns after the timer was armed. The time stamp of the count is kept in
  units of 100ns, and the 80ns that two counts take are rounded down to nothing.\<close>

theorem timer_runs_down_by_reading:
  assumes "dcr_divider_shift (tm_dcr (la_timer a)) = 3" "cl_now c = tm_last_time (la_timer a) + 1"
    "2 * n < unat (tm_ccr (la_timer a))"
  shows "read_ccr_times n (g, a, c) =
    Some (g, a\<lparr>la_timer := (la_timer a)\<lparr>tm_ccr := tm_ccr (la_timer a) - of_nat (2 * n)\<rparr>\<rparr>, c)"
  using assms
proof (induction n arbitrary: a)
  case (Suc n)
  let ?t = "la_timer a"
  let ?a = "a\<lparr>la_timer := ?t\<lparr>tm_ccr := tm_ccr ?t - 2\<rparr>\<rparr>"
  have c: "unat (tm_ccr ?t - 2) = unat (tm_ccr ?t) - 2" using Suc(4) by (simp add: unat_sub word_le_nat_alt)
  have "eval_time g a (cl_now c) = Some (g, ?a)" using eval_time_divide_8[OF Suc(2,3)] Suc(4) by simp
  then have "read_ccr_times (Suc n) (g, a, c) = read_ccr_times n (g, ?a, c)"
    by (simp add: read_register_def apic_regs)
  also have "\<dots> = Some (g, ?a\<lparr>la_timer := (la_timer ?a)\<lparr>tm_ccr := tm_ccr (la_timer ?a) - of_nat (2 * n)\<rparr>\<rparr>, c)"
    by (rule Suc(1)) (use Suc(2-4) c in simp_all)
  finally show ?case by (simp add: algebra_simps)
qed simp

theorem timer_runs_down_by_reading_witness:
  "read_ccr_times 40
     (apic_set_build True True, (local_apic_new 0)\<lparr>la_timer := \<lparr>tm_icr = 100, tm_ccr = 100, tm_dcr = 2, tm_last_time = 0, tm_next_timeout = None\<rparr>\<rparr>,
      \<lparr>cl_cr8 = 0, cl_now = 1, cl_offload = (replicate 8 0, replicate 8 0), cl_calls = []\<rparr>) =
   Some (apic_set_build True True, (local_apic_new 0)\<lparr>la_timer := \<lparr>tm_icr = 100, tm_ccr = 20, tm_dcr = 2, tm_last_time = 0, tm_next_timeout = None\<rparr>\<rparr>,
      \<lparr>cl_cr8 = 0, cl_now = 1, cl_offload = (replicate 8 0, replicate 8 0), cl_calls = []\<rparr>)"
proof -
  let ?a = "(local_apic_new 0)\<lparr>la_timer := \<lparr>tm_icr = 100, tm_ccr = 100, tm_dcr = 2, tm_last_time = 0, tm_next_timeout = None\<rparr>\<rparr>"
  have "dcr_divider_shift 2 = 3" by code_simp
  then show ?thesis
    using timer_runs_down_by_reading[of ?a "\<lparr>cl_cr8 = 0, cl_now = 1, cl_offload = (replicate 8 0, replicate 8 0), cl_calls = []\<rparr>" 40 "apic_set_build True True"]
    by simp
qed

end
