(* ===== verification/InterruptPath.thy ===== *)
theory InterruptPath imports IoApic LocalApicMachine LocalApicDelivery
begin

text \<open>
  The path of an interrupt line across components: the IO-APIC (\<open>IoApic\<close>) calls its routing object, the
  partition keeps a route per line (\<open>vmm_core/virt/src/irqcon.rs\<close>) and sends the message of the route to the
  local APICs (\<open>LocalApic\<close>), a processor takes the interrupt and ends it (\<open>LocalApicDelivery\<close>), and the end of
  a level-triggered one goes back to the IO-APIC. The partition is the one of \<open>virt_whp\<close> with the emulated
  APIC. The calls that a component makes on another are recorded by the first and carried out by the second
  when the operation of the first returns, in the order they were made.
\<close>

subsection \<open>Routes of interrupt lines\<close>

definition IRQ_LINES :: nat where "IRQ_LINES = 24"

type_synonym irq_routes = "(u64 \<times> u32) option list"

definition irq_routes_new :: irq_routes where
  "irq_routes_new = replicate IRQ_LINES None"

definition set_irq_route :: "irq_routes \<Rightarrow> u8 \<Rightarrow> (u64 \<times> u32) option \<Rightarrow> irq_routes option" where
  "set_irq_route routes irq request = do {
     assert_that (unat irq < length routes);
     Some (routes[unat irq := request])
   }"

text \<open>\<open>assert_irq\<close> returns the request it passes to its caller, if there is a route.\<close>

definition routes_assert_irq :: "irq_routes \<Rightarrow> u8 \<Rightarrow> (u64 \<times> u32) option option" where
  "routes_assert_irq routes irq = index_ck routes (unat irq)"

subsection \<open>The platform\<close>

text \<open>
  The IO-APIC, the routes of the partition and the set of local APICs, with the processors woken, in order. The
  calls that an operation of the IO-APIC made on its routing object are carried out on the partition: a route is
  stored, and an assertion is sent to the local APICs as the message of its route.
\<close>

record platform =
  pl_ioapic :: ioapic
  pl_routes :: irq_routes
  pl_apics :: apic_set
  pl_wakes :: "u32 list"

definition partition_interrupt :: "platform \<Rightarrow> u64 \<times> u32 \<Rightarrow> platform" where
  "partition_interrupt p request =
     (let (g, wakes) = request_interrupt (pl_apics p) (fst request) (snd request)
      in p\<lparr>pl_apics := g, pl_wakes := pl_wakes p @ wakes\<rparr>)"

definition partition_assert_irq :: "platform \<Rightarrow> u8 \<Rightarrow> platform option" where
  "partition_assert_irq p irq = do {
     request \<leftarrow> routes_assert_irq (pl_routes p) irq;
     Some (case request of None \<Rightarrow> p | Some request \<Rightarrow> partition_interrupt p request)
   }"

definition partition_set_irq_route :: "platform \<Rightarrow> u8 \<Rightarrow> (u64 \<times> u32) option \<Rightarrow> platform option" where
  "partition_set_irq_route p irq request = do {
     routes \<leftarrow> set_irq_route (pl_routes p) irq request;
     Some (p\<lparr>pl_routes := routes\<rparr>)
   }"

fun perform_call :: "routing_call \<Rightarrow> platform \<Rightarrow> platform option" where
  "perform_call (RouteAssert irq) p = partition_assert_irq p irq"
| "perform_call (SetRoute irq request) p = partition_set_irq_route p irq request"

definition run_ioapic :: "(ioapic \<Rightarrow> ioapic option) \<Rightarrow> platform \<Rightarrow> platform option" where
  "run_ioapic f p = do {
     d \<leftarrow> f (pl_ioapic p);
     let calls = rev (take (length (io_routing d) - length (io_routing (pl_ioapic p))) (io_routing d));
     for_each perform_call calls (p\<lparr>pl_ioapic := d\<rparr>)
   }"

definition platform_set_irq :: "platform \<Rightarrow> u32 \<Rightarrow> bool \<Rightarrow> platform option" where
  "platform_set_irq p n high = run_ioapic (\<lambda>d. ioapic_set_irq d n high) p"

text \<open>The end of an interrupt that a local APIC reports to its client.\<close>

definition chipset_handle_eoi :: "platform \<Rightarrow> u8 \<Rightarrow> platform option" where
  "chipset_handle_eoi p vector = run_ioapic (\<lambda>d. ioapic_handle_eoi d (ucast vector)) p"

subsection \<open>Messages\<close>

lemma msi_fields:
  "msia_destination_mode_logical (msi_address d x l h) = l"
  "msia_destination (msi_address d x l h) = d" "msia_extended_destination (msi_address d x l h) = x"
  "msid_vector (msi_data l m t v) = v" "msid_trigger_mode_level (msi_data l m t v) = t"
  "msid_delivery_mode (msi_data l FIXED t v) = FIXED"
proof -
  show "msia_destination_mode_logical (msi_address d x l h) = l"
    by (simp add: msia_destination_mode_logical_def msi_address_def bit_put_bit)
  show "msia_destination (msi_address d x l h) = d" unfolding msia_destination_def msi_address_def
    by (rule bit_word_eqI) (auto simp: bit_unsigned_iff bit_get_field bit_put_bit bit_set_field dest: bit_imp_le_length)
  show "msia_extended_destination (msi_address d x l h) = x" unfolding msia_extended_destination_def msi_address_def
    by (rule bit_word_eqI) (auto simp: bit_unsigned_iff bit_get_field bit_put_bit bit_set_field dest: bit_imp_le_length)
  show "msid_vector (msi_data l m t v) = v" unfolding msid_vector_def msi_data_def
    by (rule bit_word_eqI) (auto simp: bit_unsigned_iff bit_get_field bit_put_bit bit_set_field dest: bit_imp_le_length)
  show "msid_trigger_mode_level (msi_data l m t v) = t"
    by (simp add: msid_trigger_mode_level_def msi_data_def bit_put_bit bit_set_field)
  show "msid_delivery_mode (msi_data l FIXED t v) = FIXED" unfolding msid_delivery_mode_def msi_data_def FIXED_def
    by (rule bit_word_eqI) (auto simp: bit_unsigned_iff bit_get_field bit_put_bit bit_set_field)
qed

text \<open>A level-triggered entry of the IO-APIC that sends vector \<open>v\<close> to the processor \<open>i\<close>.\<close>

definition sends :: "u64 \<Rightarrow> u32 \<Rightarrow> u8 \<Rightarrow> bool" where
  "sends r i v \<longleftrightarrow> \<not> re_masked r \<and> re_trigger_mode_level r \<and> re_delivery_mode r = FIXED \<and>
     \<not> re_destination_mode_logical r \<and> re_extended_destination r = 0 \<and> ucast (re_destination r) = i \<and> re_vector r = v"

lemma sends_remote_irr [simp]: "sends (re_set_remote_irr b r) i v = sends r i v"
proof -
  have "get_field lo n (re_set_remote_irr b r) = get_field lo n r" if "lo + n \<le> 14 \<or> 14 < lo" for lo n
    using that by (intro bit_word_eqI) (auto simp: bit_get_field re_set_remote_irr_def bit_put_bit)
  then show ?thesis
    by (simp add: sends_def re_delivery_mode_def re_extended_destination_def re_destination_def re_trigger_mode_level_def
        re_destination_mode_logical_def re_vector_def re_masked_def) (simp add: re_set_remote_irr_def bit_put_bit)
qed

lemma sends_request:
  assumes "sends r i v" "i < 0xff"
  obtains address data where "as_msi r = Some (address, data)"
    "\<And>g. request_interrupt g address data = request_at g (unat i) FIXED v True False"
proof -
  let ?a = "msi_address (re_destination r) 0 False False" and ?d = "msi_data False FIXED True v"
  have m: "as_msi r = Some (ucast ?a, ?d)" using assms(1) by (simp add: as_msi_def sends_def LOWEST_PRIORITY_def FIXED_def)
  have a: "(ucast (ucast ?a :: u64) :: u32) = ?a" by (rule bit_word_eqI) (auto simp: bit_unsigned_iff dest: bit_imp_le_length)
  have "(ucast (ucast (re_destination r) :: u16) :: u32) = ucast (re_destination r)"
    by (rule bit_word_eqI) (auto simp: bit_unsigned_iff dest: bit_imp_le_length)
  then have v: "(ucast (virt_destination ?a) :: u32) = i" using assms(1) by (simp add: virt_destination_def msi_fields sends_def)
  have "request_interrupt g (ucast ?a) ?d = request_at g (unat i) FIXED v True False" for g
    using assms(2) by (auto simp: request_interrupt_def a v msi_fields from_external_def global_request_interrupt_def)
  then show thesis using that m by blast
qed

subsection \<open>A request at an idle processor\<close>

lemma shared_request_level:
  assumes "shared_ok sh" "16 \<le> v"
  obtains sh' where "shared_request_interrupt sh True FIXED v True False = (sh', \<not> vec_in (sh_new_irr sh) v)"
    "shared_ok sh'" "\<And>w. vec_in (sh_new_irr sh') w \<longleftrightarrow> w = v \<or> vec_in (sh_new_irr sh) w"
    "vec_in (sh_tmr sh') v" "\<not> vec_in (sh_auto_eoi sh') v"
proof -
  obtain sh' wake where r: "shared_request_interrupt sh True FIXED v True False = (sh', wake)" by fastforce
  have bm: "bank_mask v = (unat v div 32, snd (bank_mask v))" by (simp add: bank_mask_def)
  have len: "length (sh_tmr sh) = 8" "length (sh_new_irr sh) = 8" "length (sh_auto_eoi sh) = 8" using assms(1) by (simp_all add: shared_ok_def)
  have v: "\<not> v < 16" using assms(2) by simp
  have z: "(b ! (unat v div 32) AND snd (bank_mask v) \<noteq> 0) = vec_in b v" for b by (simp add: vec_in_def bank_mask_zero)
  have sh': "sh' = sh\<lparr>sh_tmr := (if vec_in (sh_tmr sh) v then sh_tmr sh else (sh_tmr sh)[unat v div 32 := sh_tmr sh ! (unat v div 32) OR snd (bank_mask v)]),
      sh_auto_eoi := (if vec_in (sh_auto_eoi sh) v then (sh_auto_eoi sh)[unat v div 32 := sh_auto_eoi sh ! (unat v div 32) AND NOT (snd (bank_mask v))] else sh_auto_eoi sh),
      sh_new_irr := (sh_new_irr sh)[unat v div 32 := sh_new_irr sh ! (unat v div 32) OR snd (bank_mask v)]\<rparr> \<and>
      wake = (\<not> vec_in (sh_new_irr sh) v)"
    using r v by (subst (asm) shared_request_interrupt_def, subst (asm) bm) (auto simp: Let_def z simp flip: z)
  have "shared_ok sh'" using shared_request_ok[OF assms(1), of True FIXED v True False] r by simp
  then show thesis using that[of sh'] r sh' vec_in_update(1)[OF len(1), of v] vec_in_update(1)[OF len(2), of v] vec_in_update(2)[OF len(3), of v]
    by auto
qed

lemma request_ready:
  assumes r: "ready g0 i now (g, a)" and sh: "get_shared g a = Some sh" and v: "16 \<le> v"
  obtains g' sh' where "request_at g (unat i) FIXED v True False = (g', if vec_in (sh_new_irr sh) v then [] else [sh_vp_index sh])"
    "ready g0 i now (g', a)" "get_shared g' a = Some sh'" "deliverable sh' a = insert v (deliverable sh a)"
    "level sh' a v" "\<not> auto_ended sh' a v"
proof -
  have inv: "apic_inv g0 i now (g, a)" and en: "hardware_enabled a" "software_enabled a" using r by (auto simp: ready_def)
  have j: "unat i = la_shared a" "la_shared a < length (ga_by_apic_id g)"
    and mirror: "slot_mirrors a (ga_by_apic_id g ! la_shared a)"
    using inv by (auto simp: apic_inv_def apic_ok_def registers_ok_def)
  have slot: "asl_shared (ga_by_apic_id g ! la_shared a) = Some sh" using sh j(2) by (simp add: get_shared_def)
  have "shared_ok sh" using apic_inv_shared[OF inv] sh by auto
  from shared_request_level[OF this v] obtain sh' where s: "shared_request_interrupt sh True FIXED v True False = (sh', \<not> vec_in (sh_new_irr sh) v)"
    "\<And>w. vec_in (sh_new_irr sh') w \<longleftrightarrow> w = v \<or> vec_in (sh_new_irr sh) w" "vec_in (sh_tmr sh') v" "\<not> vec_in (sh_auto_eoi sh') v" by metis
  define g' where "g' = put_shared g a sh'"
  have req: "request_at g (unat i) FIXED v True False = (g', if vec_in (sh_new_irr sh) v then [] else [sh_vp_index sh])"
    using j mirror en slot s(1) by (simp add: request_at_def slot_request_interrupt_def slot_mirrors_def g'_def put_shared_def)
  have "apic_inv g0 i now (g', a)"
    using apic_inv_global[OF inv request_at_requested[of g "unat i" FIXED v True False]] req by simp
  then have "ready g0 i now (g', a)" using r by (simp add: ready_def)
  moreover have "get_shared g' a = Some sh'" using j(2) by (simp add: g'_def)
  moreover have "deliverable sh' a = insert v (deliverable sh a)" using s(2) v by (auto simp: deliverable_def pending_def)
  moreover have "level sh' a v" "\<not> auto_ended sh' a v" using s(2-4) by (simp_all add: level_def auto_ended_def)
  ultimately show thesis using that req by blast
qed

text \<open>An interrupt sent to an idle processor is the only one it services, and is reported as ended.\<close>

lemma request_service:
  assumes r: "ready g0 i now (g, a)" and sh: "get_shared g a = Some sh" "deliverable sh a = {}" and v: "16 \<le> v"
  obtains g1 g' a' c' sh' where "request_at g (unat i) FIXED v True False = (g1, [sh_vp_index sh])"
    "service (g1, a, c) = Some ((g', a', c'), [v])" "cl_calls c' = Eoi v # cl_calls c"
    "ready g0 i now (g', a')" "get_shared g' a' = Some sh'" "deliverable sh' a' = {}"
proof -
  obtain g1 sh1 where q: "request_at g (unat i) FIXED v True False = (g1, if vec_in (sh_new_irr sh) v then [] else [sh_vp_index sh])"
    "ready g0 i now (g1, a)" "get_shared g1 a = Some sh1" "deliverable sh1 a = insert v (deliverable sh a)"
    "level sh1 a v" "\<not> auto_ended sh1 a v" by (rule request_ready[OF r sh(1) v])
  have "\<not> vec_in (sh_new_irr sh) v" using sh(2) v by (auto simp: deliverable_def pending_def)
  moreover have d: "deliverable sh1 a = {v}" using q(4) sh(2) by simp
  ultimately show thesis using that service_ready[OF q(2,3), of c] q by (auto simp: d)
qed

subsection \<open>Lines of the platform\<close>

text \<open>The routes of the partition are those that the IO-APIC registered.\<close>

definition platform_ok :: "platform \<Rightarrow> bool" where
  "platform_ok p \<longleftrightarrow> ioapic_inv (pl_ioapic p) \<and> length (pl_routes p) = IRQ_LINES \<and>
     length (io_irqs (pl_ioapic p)) \<le> IRQ_LINES \<and>
     (\<forall>n<length (io_irqs (pl_ioapic p)). pl_routes p ! n = registered_request (io_irqs (pl_ioapic p) ! n))"

lemma run_ioapic_eq:
  "f (pl_ioapic p) = Some d \<Longrightarrow> io_routing d = calls @ io_routing (pl_ioapic p) \<Longrightarrow>
     run_ioapic f p = for_each perform_call (rev calls) (p\<lparr>pl_ioapic := d\<rparr>)"
  by (simp add: run_ioapic_def)

text \<open>The platform with line \<open>n\<close> in state \<open>e\<close>.\<close>

definition with_line :: "nat \<Rightarrow> irq_entry \<Rightarrow> platform \<Rightarrow> platform \<Rightarrow> bool" where
  "with_line n e p p' \<longleftrightarrow> platform_ok p' \<and> io_irqs (pl_ioapic p') = (io_irqs (pl_ioapic p))[n := e] \<and> pl_routes p' = pl_routes p"

lemma assert_call:
  assumes "platform_ok p" "n < length (io_irqs (pl_ioapic p))" "sends (redirection (io_irqs (pl_ioapic p) ! n)) i v" "i < 0xff"
  shows "perform_call (RouteAssert (of_nat n)) p =
    (let (g, wakes) = request_at (pl_apics p) (unat i) FIXED v True False in Some (p\<lparr>pl_apics := g, pl_wakes := pl_wakes p @ wakes\<rparr>))"
proof -
  let ?e = "io_irqs (pl_ioapic p) ! n"
  have "irq_ok ?e" using assms(1,2) by (simp add: platform_ok_def ioapic_inv_def list_all_length)
  then have "pl_routes p ! n = as_msi (redirection ?e)" using assms(1,2) by (simp add: platform_ok_def irq_ok_def)
  moreover obtain address data where "as_msi (redirection ?e) = Some (address, data)"
    "\<And>g. request_interrupt g address data = request_at g (unat i) FIXED v True False" by (rule sends_request[OF assms(3,4)]) blast
  moreover have "unat (of_nat n :: u8) = n" "n < length (pl_routes p)"
    using assms(1,2) by (auto simp: platform_ok_def IRQ_LINES_def intro: unat_of_nat_u8)
  ultimately show ?thesis
    by (simp add: partition_assert_irq_def routes_assert_irq_def partition_interrupt_def split: prod.split)
qed

lemma line_index: "platform_ok p \<Longrightarrow> n < length (io_irqs (pl_ioapic p)) \<Longrightarrow> unat (of_nat n :: u32) = n \<and> n < 256 \<and>
    unat (of_nat n :: u8) < length (ioapic_interrupts_per_irq (io_stats (pl_ioapic p)))"
  by (auto simp: platform_ok_def ioapic_inv_def IRQ_LINES_def unat_of_nat)

lemma platform_raise:
  assumes ok: "platform_ok p" and n: "n < length (io_irqs (pl_ioapic p))" and e: "e = io_irqs (pl_ioapic p) ! n"
    and s: "sends (redirection e) i v" "i < 0xff" "\<not> re_remote_irr (redirection e)"
    and q: "request_at (pl_apics p) (unat i) FIXED v True False = (g, wakes)"
  obtains p' where "platform_set_irq p (of_nat n) True = Some p'"
    "with_line n (e\<lparr>line_level := True, redirection := re_set_remote_irr True (redirection e)\<rparr>) p p'"
    "pl_apics p' = g" "pl_wakes p' = pl_wakes p @ wakes"
proof -
  let ?d = "pl_ioapic p" and ?e = "e\<lparr>line_level := True, redirection := re_set_remote_irr True (redirection e)\<rparr>"
  have level: "irq_is_level (redirection e)" "\<not> re_masked (redirection e)" using s(1) by (simp_all add: sends_def irq_is_level_def)
  note ix = line_index[OF ok n]
  obtain stats where st: "irq_assert e (io_routing ?d) (io_stats ?d) (of_nat n) = Some (?e, RouteAssert (of_nat n) # io_routing ?d, stats)"
    using level s(3) ix by (auto simp: irq_assert_def irq_evaluate_def Let_def)
  define d' where "d' = ?d\<lparr>io_irqs := (io_irqs ?d)[n := ?e], io_routing := RouteAssert (of_nat n) # io_routing ?d, io_stats := stats\<rparr>"
  have set: "ioapic_set_irq ?d (of_nat n) True = Some d'" using n ix st e by (simp add: ioapic_set_irq_def update_irq_def d'_def)
  then have inv: "ioapic_inv d'" using ioapic_set_irq_inv[of ?d "of_nat n" True] ok by (auto simp: platform_ok_def)
  have irqs: "io_irqs d' = (io_irqs ?d)[n := ?e]" by (simp add: d'_def)
  have ok': "platform_ok (p\<lparr>pl_ioapic := d'\<rparr>)" using ok inv n e by (auto simp: platform_ok_def irqs nth_list_update')
  have "platform_set_irq p (of_nat n) True = for_each perform_call [RouteAssert (of_nat n)] (p\<lparr>pl_ioapic := d'\<rparr>)"
    unfolding platform_set_irq_def using run_ioapic_eq[of "\<lambda>d. ioapic_set_irq d (of_nat n) True" p d' "[RouteAssert (of_nat n)]"] set by (simp add: d'_def)
  also have "\<dots> = Some (p\<lparr>pl_ioapic := d', pl_apics := g, pl_wakes := pl_wakes p @ wakes\<rparr>)"
    using assert_call[OF ok', of n i v] n s q irqs by simp
  finally show thesis using ok' by (intro that) (auto simp: with_line_def irqs platform_ok_def)
qed

lemma platform_lower:
  assumes ok: "platform_ok p" and n: "n < length (io_irqs (pl_ioapic p))"
  obtains p' where "platform_set_irq p (of_nat n) False = Some p'" "with_line n (irq_deassert (io_irqs (pl_ioapic p) ! n)) p p'"
    "pl_apics p' = pl_apics p" "pl_wakes p' = pl_wakes p"
proof -
  let ?d = "pl_ioapic p"
  define d' where "d' = ?d\<lparr>io_irqs := (io_irqs ?d)[n := irq_deassert (io_irqs ?d ! n)]\<rparr>"
  have set: "ioapic_set_irq ?d (of_nat n) False = Some d'" using n line_index[OF ok n] by (simp add: ioapic_set_irq_def update_irq_def d'_def)
  then have inv: "ioapic_inv d'" using ioapic_set_irq_inv[of ?d "of_nat n" False] ok by (auto simp: platform_ok_def)
  have "platform_set_irq p (of_nat n) False = Some (p\<lparr>pl_ioapic := d'\<rparr>)"
    unfolding platform_set_irq_def using run_ioapic_eq[of "\<lambda>d. ioapic_set_irq d (of_nat n) False" p d' "[]"] set by (simp add: d'_def)
  then show thesis
    by (rule that) (use ok inv n in \<open>auto simp: with_line_def platform_ok_def d'_def nth_list_update' irq_deassert_def\<close>)
qed

lemma filter_single: "n < m \<Longrightarrow> (\<And>i. i < m \<Longrightarrow> P i \<Longrightarrow> i = n) \<Longrightarrow> filter P [0..<m] = (if P n then [n] else [])"
proof (induction m)
  case (Suc m)
  show ?case
  proof (cases "n = m")
    case True
    have "\<not> P i" if "i < m" for i using Suc(3)[of i] that True by auto
    then have "filter P [0..<m] = []" by (simp add: filter_empty_conv)
    then show ?thesis using True by simp
  next
    case False
    then have "\<not> P m" "n < m" using Suc(2) Suc(3)[of m] by auto
    then show ?thesis using Suc(1) Suc(3) by simp
  qed
qed simp

text \<open>The end of an interrupt that only line \<open>n\<close> sends.\<close>

lemma platform_eoi:
  assumes ok: "platform_ok p" and n: "n < length (io_irqs (pl_ioapic p))" and e: "e = io_irqs (pl_ioapic p) ! n"
    and s: "sends (redirection e) i v" "i < 0xff"
    and u: "\<And>m. m < length (io_irqs (pl_ioapic p)) \<Longrightarrow> m \<noteq> n \<Longrightarrow> re_vector (redirection (io_irqs (pl_ioapic p) ! m)) \<noteq> v"
    and q: "(if line_level e then request_at (pl_apics p) (unat i) FIXED v True False else (pl_apics p, [])) = (g, wakes)"
  obtains p' where "chipset_handle_eoi p v = Some p'"
    "with_line n (e\<lparr>redirection := re_set_remote_irr (line_level e) (redirection e)\<rparr>) p p'"
    "pl_apics p' = g" "pl_wakes p' = pl_wakes p @ wakes"
proof -
  let ?d = "pl_ioapic p" and ?v = "ucast v :: u32" and ?e = "e\<lparr>redirection := re_set_remote_irr (line_level e) (redirection e)\<rparr>"
  have uv: "(ucast x :: u32) = ucast y \<longleftrightarrow> x = y" for x y :: u8 by (simp add: word_unat_eq_iff unat_ucast_up)
  have red: "redelivers e = line_level e" and ve: "re_vector (redirection e) = v"
    using s(1) by (auto simp: redelivers_def sends_def irq_is_level_def)
  have fl: "filter (\<lambda>j. ends ?v (io_irqs ?d ! j)) [0..<length (io_irqs ?d)] = (if line_level e then [n] else [])"
  proof -
    have "j = n" if "j < length (io_irqs ?d)" "ends ?v (io_irqs ?d ! j)" for j
      using u[OF that(1)] that(2) by (auto simp: ends_def uv)
    moreover have "ends ?v (io_irqs ?d ! n) = line_level e" using red ve e by (simp add: ends_def)
    ultimately show ?thesis using filter_single[OF n, of "\<lambda>j. ends ?v (io_irqs ?d ! j)"] by simp
  qed
  have irqs: "map (ended ?v) (io_irqs ?d) = (io_irqs ?d)[n := ?e]"
    by (rule nth_equalityI) (use n u uv red ve e in \<open>auto simp: ended_def nth_list_update'\<close>)
  have "length (io_irqs ?d) < 256" "length (ioapic_interrupts_per_irq (io_stats ?d)) = length (io_irqs ?d)"
    using ok by (auto simp: platform_ok_def ioapic_inv_def)
  from eoi_loop_eq[OF this order_refl, of ?v, unfolded fl] obtain d' where eoi: "ioapic_handle_eoi ?d ?v = Some d'" "io_irqs d' = (io_irqs ?d)[n := ?e]"
    "io_routing d' = (if line_level e then [RouteAssert (of_nat n)] else []) @ io_routing ?d"
    unfolding ioapic_handle_eoi_def by (auto simp: irqs)
  have inv: "ioapic_inv d'" using ioapic_handle_eoi_inv[of ?d ?v] ok eoi(1) by (auto simp: platform_ok_def)
  have ok': "platform_ok (p\<lparr>pl_ioapic := d'\<rparr>)" using ok inv n e by (auto simp: platform_ok_def eoi(2) nth_list_update')
  have "chipset_handle_eoi p v = for_each perform_call (if line_level e then [RouteAssert (of_nat n)] else []) (p\<lparr>pl_ioapic := d'\<rparr>)"
    unfolding chipset_handle_eoi_def using run_ioapic_eq[of "\<lambda>d. ioapic_handle_eoi d ?v" p d' "if line_level e then [RouteAssert (of_nat n)] else []"] eoi by simp
  also have "\<dots> = Some (p\<lparr>pl_ioapic := d', pl_apics := g, pl_wakes := pl_wakes p @ wakes\<rparr>)"
    using assert_call[OF ok', of n i v] n s q eoi(2) by auto
  finally show thesis using ok' by (intro that) (auto simp: with_line_def eoi(2) platform_ok_def)
qed

text \<open>A processor that is enabled and has nothing requested or in service.\<close>

definition idle :: "apic_set \<Rightarrow> nat \<Rightarrow> local_apic \<Rightarrow> shared_state \<Rightarrow> bool" where
  "idle g now a sh \<longleftrightarrow> set_ok g \<and> apic_ok g now a \<and> hardware_enabled a \<and> software_enabled a \<and> \<not> la_is_offloaded a \<and>
     la_isr a = [] \<and> tm_next_timeout (la_timer a) = None \<and> get_shared g a = Some sh \<and> (\<forall>v. pending sh a v \<longrightarrow> v < 16)"

lemma idle_ready: "idle g now a sh \<Longrightarrow> ready g (la_id a) now (g, a) \<and> get_shared g a = Some sh \<and> deliverable sh a = {}"
  by (auto simp: idle_def ready_def apic_inv_def deliverable_def not_less)

lemma with_line_ok:
  assumes "with_line n e p p'" "n < length (io_irqs (pl_ioapic p))"
  shows "platform_ok (p'\<lparr>pl_apics := g\<rparr>)" "n < length (io_irqs (pl_ioapic (p'\<lparr>pl_apics := g\<rparr>)))"
    "io_irqs (pl_ioapic (p'\<lparr>pl_apics := g\<rparr>)) ! n = e"
    "(\<And>m. m < length (io_irqs (pl_ioapic p)) \<Longrightarrow> m \<noteq> n \<Longrightarrow> re_vector (redirection (io_irqs (pl_ioapic p) ! m)) \<noteq> v) \<Longrightarrow>
       m < length (io_irqs (pl_ioapic (p'\<lparr>pl_apics := g\<rparr>))) \<Longrightarrow> m \<noteq> n \<Longrightarrow>
       re_vector (redirection (io_irqs (pl_ioapic (p'\<lparr>pl_apics := g\<rparr>)) ! m)) \<noteq> v"
  using assms by (auto simp: with_line_def platform_ok_def)

lemma eoi_redelivers:
  assumes ok: "platform_ok p" "n < length (io_irqs (pl_ioapic p))" "sends (redirection (io_irqs (pl_ioapic p) ! n)) i v" "i < 0xff"
    "line_level (io_irqs (pl_ioapic p) ! n)"
    and u: "\<And>m. m < length (io_irqs (pl_ioapic p)) \<Longrightarrow> m \<noteq> n \<Longrightarrow> re_vector (redirection (io_irqs (pl_ioapic p) ! m)) \<noteq> v"
    and r: "ready g0 i now (pl_apics p, a)" "get_shared (pl_apics p) a = Some sh" "deliverable sh a = {}" "16 \<le> v"
  shows "\<exists>p' s. chipset_handle_eoi p v = Some p' \<and> service (pl_apics p', a, c) = Some (s, [v])"
proof -
  obtain g1 s where q: "request_at (pl_apics p) (unat i) FIXED v True False = (g1, [sh_vp_index sh])" "service (g1, a, c) = Some (s, [v])"
    by (rule request_service[OF r, of c]) blast
  then have "(if line_level (io_irqs (pl_ioapic p) ! n) then request_at (pl_apics p) (unat i) FIXED v True False else (pl_apics p, [])) =
      (g1, [sh_vp_index sh])" using ok(5) by simp
  from platform_eoi[OF ok(1,2) refl ok(3,4) u this] show ?thesis using q(2) by metis
qed

lemma eoi_after_lower:
  assumes ok: "platform_ok p" "n < length (io_irqs (pl_ioapic p))" "sends (redirection (io_irqs (pl_ioapic p) ! n)) i v" "i < 0xff"
    and u: "\<And>m. m < length (io_irqs (pl_ioapic p)) \<Longrightarrow> m \<noteq> n \<Longrightarrow> re_vector (redirection (io_irqs (pl_ioapic p) ! m)) \<noteq> v"
    and r: "ready g0 i now (pl_apics p, a)" "get_shared (pl_apics p) a = Some sh" "deliverable sh a = {}"
  shows "\<exists>p1 p' s. platform_set_irq p (of_nat n) False = Some p1 \<and> chipset_handle_eoi p1 v = Some p' \<and>
    \<not> re_remote_irr (redirection (io_irqs (pl_ioapic p') ! n)) \<and> service (pl_apics p', a, c) = Some (s, [])"
proof -
  let ?e = "irq_deassert (io_irqs (pl_ioapic p) ! n)"
  obtain p1 where p1: "platform_set_irq p (of_nat n) False = Some p1" "with_line n ?e p p1" "pl_apics p1 = pl_apics p"
    by (rule platform_lower[OF ok(1,2)]) blast
  note w = with_line_ok[OF p1(2) ok(2), where g = "pl_apics p1", simplified]
  have s1: "sends (redirection (io_irqs (pl_ioapic p1) ! n)) i v" "\<not> line_level (io_irqs (pl_ioapic p1) ! n)"
    using ok(3) w(3) by (simp_all add: irq_deassert_def)
  have q: "(if line_level (io_irqs (pl_ioapic p1) ! n) then request_at (pl_apics p1) (unat i) FIXED v True False else (pl_apics p1, [])) =
      (pl_apics p1, [])" using s1(2) by simp
  obtain p' where p': "chipset_handle_eoi p1 v = Some p'"
    "with_line n ((io_irqs (pl_ioapic p1) ! n)\<lparr>redirection := re_set_remote_irr False (redirection (io_irqs (pl_ioapic p1) ! n))\<rparr>) p1 p'"
    "pl_apics p' = pl_apics p1"
    using platform_eoi[OF w(1,2) refl s1(1) ok(4) w(4)[OF u] q] s1(2) by auto
  have "\<not> re_remote_irr (redirection (io_irqs (pl_ioapic p') ! n))" using with_line_ok(3)[OF p'(2) w(2), where g = "pl_apics p'"] by simp
  moreover have "\<exists>s. service (pl_apics p', a, c) = Some (s, [])" using service_ready[OF r(1,2), of c] r(3) p1(3) p'(3) by auto
  ultimately show ?thesis using p1(1) p'(1) by blast
qed

subsection \<open>Properties\<close>

text \<open>C2. Raising a line whose entry sends a level-triggered interrupt to an idle processor wakes that processor
  once, which is then given exactly the entry's vector, and whose end of interrupt is reported to the interrupt
  controllers. If the line is still high when the IO-APIC handles that end, the processor is given the vector again;
  if the line was lowered before, the entry's remote IRR bit is clear and the processor is given nothing more.\<close>

theorem level_interrupt_path:
  assumes ok: "platform_ok p" "n < length (io_irqs (pl_ioapic p))"
    "sends (redirection (io_irqs (pl_ioapic p) ! n)) (la_id a) v" "la_id a < 0xff" "16 \<le> v"
    "\<not> re_remote_irr (redirection (io_irqs (pl_ioapic p) ! n))"
    and u: "\<And>m. m < length (io_irqs (pl_ioapic p)) \<Longrightarrow> m \<noteq> n \<Longrightarrow> re_vector (redirection (io_irqs (pl_ioapic p) ! m)) \<noteq> v"
    and idle: "idle (pl_apics p) now a sh"
  shows "\<exists>p1 g a' c'. platform_set_irq p (of_nat n) True = Some p1 \<and> pl_wakes p1 = pl_wakes p @ [sh_vp_index sh] \<and>
    service (pl_apics p1, a, c) = Some ((g, a', c'), [v]) \<and> cl_calls c' = Eoi v # cl_calls c \<and>
    (\<exists>p2 s. chipset_handle_eoi (p1\<lparr>pl_apics := g\<rparr>) v = Some p2 \<and> service (pl_apics p2, a', c') = Some (s, [v])) \<and>
    (\<exists>p2 p3 s. platform_set_irq (p1\<lparr>pl_apics := g\<rparr>) (of_nat n) False = Some p2 \<and> chipset_handle_eoi p2 v = Some p3 \<and>
       \<not> re_remote_irr (redirection (io_irqs (pl_ioapic p3) ! n)) \<and> service (pl_apics p3, a', c') = Some (s, []))"
proof -
  note r = idle_ready[OF idle]
  obtain g1 g a' c' sh' where q: "request_at (pl_apics p) (unat (la_id a)) FIXED v True False = (g1, [sh_vp_index sh])"
    "service (g1, a, c) = Some ((g, a', c'), [v])" "cl_calls c' = Eoi v # cl_calls c"
    "ready (pl_apics p) (la_id a) now (g, a')" "get_shared g a' = Some sh'" "deliverable sh' a' = {}"
    by (rule request_service[OF conjunct1[OF r] conjunct1[OF conjunct2[OF r]] conjunct2[OF conjunct2[OF r]] ok(5), of c]) blast
  let ?e = "(io_irqs (pl_ioapic p) ! n)\<lparr>line_level := True,
    redirection := re_set_remote_irr True (redirection (io_irqs (pl_ioapic p) ! n))\<rparr>"
  obtain p1 where p1: "platform_set_irq p (of_nat n) True = Some p1" "with_line n ?e p p1" "pl_apics p1 = g1" "pl_wakes p1 = pl_wakes p @ [sh_vp_index sh]"
    by (rule platform_raise[OF ok(1,2) refl ok(3,4,6) q(1)]) blast
  define p' where "p' = p1\<lparr>pl_apics := g\<rparr>"
  note w = with_line_ok[OF p1(2) ok(2), where g = g, folded p'_def]
  have s: "sends (redirection (io_irqs (pl_ioapic p') ! n)) (la_id a) v" "line_level (io_irqs (pl_ioapic p') ! n)"
    using ok(3) w(3) by (simp_all add: sends_remote_irr)
  have g: "pl_apics p' = g" by (simp add: p'_def)
  have up: "re_vector (redirection (io_irqs (pl_ioapic p') ! m)) \<noteq> v" if "m < length (io_irqs (pl_ioapic p'))" "m \<noteq> n" for m
    using w(4)[OF u] that by blast
  note q' = q(4-6)[folded g]
  note ends = eoi_redelivers[OF w(1,2) s(1) ok(4) s(2) up q' ok(5), of c'] eoi_after_lower[OF w(1,2) s(1) ok(4) up q', of c']
  show ?thesis using p1(1,4) q(2,3) ends[unfolded p'_def] unfolding p1(3)[symmetric] by blast
qed

theorem level_interrupt_path_witness:
  "let sh = shared_state_new 0 True;
       slot = apic_slot_empty\<lparr>asl_hardware_enabled := True, asl_software_enabled := True, asl_shared := Some sh\<rparr>;
       a = (local_apic_new 0)\<lparr>la_apic_base := 0xfee00900, la_base_address := Some 0xfee00000, la_svr := 0x1ff\<rparr>;
       e = \<lparr>redirection = 0x8031, line_level = False, registered_request = as_msi 0x8031\<rparr>;
       p = \<lparr>pl_ioapic = \<lparr>io_valid_lines = [(0, 0)], io_routing = [SetRoute 0 (as_msi 0x8031)],
              io_stats = \<lparr>ioapic_interrupts_per_irq = [0], ioapic_interrupts = 0\<rparr>, io_irqs = [e], io_id = 0, io_index = 0\<rparr>,
            pl_routes = irq_routes_new[0 := as_msi 0x8031],
            pl_apics = (apic_set_build True True)\<lparr>ga_by_apic_id := [slot], ga_by_index := [0]\<rparr>, pl_wakes = []\<rparr>;
       c = \<lparr>cl_cr8 = 0, cl_now = 0, cl_offload = (replicate 8 0, replicate 8 0), cl_calls = []\<rparr>
   in \<exists>p1 s. platform_set_irq p 0 True = Some p1 \<and> pl_wakes p1 = [0] \<and> service (pl_apics p1, a, c) = Some (s, [0x31])"
proof -
  define sh where "sh = shared_state_new 0 True"
  define slot where "slot = apic_slot_empty\<lparr>asl_hardware_enabled := True, asl_software_enabled := True, asl_shared := Some sh\<rparr>"
  define g where "g = (apic_set_build True True)\<lparr>ga_by_apic_id := [slot], ga_by_index := [0]\<rparr>"
  define a where "a = (local_apic_new 0)\<lparr>la_apic_base := 0xfee00900, la_base_address := Some 0xfee00000, la_svr := 0x1ff\<rparr>"
  define e where "e = \<lparr>redirection = 0x8031, line_level = False, registered_request = as_msi 0x8031\<rparr>"
  define p where "p = \<lparr>pl_ioapic = \<lparr>io_valid_lines = [(0, 0)], io_routing = [SetRoute 0 (as_msi 0x8031)],
    io_stats = \<lparr>ioapic_interrupts_per_irq = [0], ioapic_interrupts = 0\<rparr>, io_irqs = [e], io_id = 0, io_index = 0\<rparr>,
    pl_routes = irq_routes_new[0 := as_msi 0x8031], pl_apics = g, pl_wakes = []\<rparr>"
  have en: "hardware_enabled a" "software_enabled a" "\<not> x2apic_enabled a" "xapic_enabled a"
    by (simp_all add: a_def hardware_enabled_def software_enabled_def x2apic_enabled_def xapic_enabled_def base_enable_def base_x2apic_def svr_enable_def)
  have base: "base_ok True 0xfee00900" "(0x1ff :: u32) AND NOT SVR_MASK = 0" "push_bit 12 (ucast (base_page 0xfee00900)) = (0xfee00000 :: u64)"
    by (simp_all add: base_ok_def) (code_simp+)
  have "set_ok g"
    by (simp add: set_ok_def g_def slot_def slot_ok_def shared_ok_def sh_def shared_state_new_def apic_slot_empty_def apic_set_build_def)
  moreover have "apic_ok g 0 a"
    using en base by (simp add: apic_ok_def registers_ok_def slot_mirrors_def)
      (simp add: a_def g_def slot_def local_apic_new_def apic_set_build_def apic_slot_empty_def lvts_ok_def timer_ok_def vectors_ok_def)
  moreover have "get_shared g a = Some sh" by (simp add: get_shared_def g_def a_def local_apic_new_def slot_def)
  moreover have "\<not> pending sh a v" for v by (auto simp: pending_def a_def local_apic_new_def sh_def shared_state_new_def)
  ultimately have idle: "idle (pl_apics p) 0 a sh" using en by (simp add: idle_def p_def) (simp add: a_def local_apic_new_def)
  have s: "sends 0x8031 0 0x31" "\<not> re_remote_irr 0x8031" "as_msi 0x8031 \<noteq> None" by code_simp+
  then have ok: "platform_ok p"
    by (simp add: platform_ok_def p_def ioapic_inv_def e_def irq_ok_def settled_def irq_routes_new_def IRQ_LINES_def)
  have "io_irqs (pl_ioapic p) = [e]" "la_id a = 0" "redirection e = 0x8031" "pl_wakes p = []" "sh_vp_index sh = 0"
    by (simp_all add: p_def e_def a_def local_apic_new_def sh_def shared_state_new_def)
  then show ?thesis using level_interrupt_path[OF ok, of 0 a "0x31" 0 sh
      "\<lparr>cl_cr8 = 0, cl_now = 0, cl_offload = (replicate 8 0, replicate 8 0), cl_calls = []\<rparr>"] idle s
    unfolding Let_def sh_def[symmetric] slot_def[symmetric] g_def[symmetric] a_def[symmetric] e_def[symmetric] p_def[symmetric]
    by auto
qed

end
