(* ===== verification/Spec2Isabelle.thy ===== *)
theory Spec2Isabelle
  imports Prelude MemoryRange Pic IoApic PagePool GuestRanges RingMem VmbusRing RingRefinement LocalApicMachine LocalApicDelivery InterruptPath
begin

text \<open>
  A verification library for OpenVMM, a virtual machine monitor written in Rust.

  \<^bold>\<open>What is modelled.\<close> The library covers the parts of the monitor that are pure state
  transformations: the guest address ranges and the page allocator that memory is managed with, the
  interrupt controllers of the chipset and of the processors with the path of an interrupt between
  them, and the ring buffers that a guest and the host exchange packets through, down to the guest
  pages that hold them. File names are under \<open>src/\<close>.

  \<^item> \<open>Prelude\<close>: Rust integers as words, panics as \<open>None\<close>, checked arithmetic, bit helpers,
    little-endian bytes, slices; the interfaces \<open>invariant_machine\<close> (operations that keep an
    invariant never panic), \<open>save_restore\<close> (migration) and \<open>forward_simulation\<close> (refinement).
  \<^item> \<open>MemoryRange\<close>: \<open>vm/vmcore/memory_range/src/lib.rs\<close>. \<open>memory_range\<close> is the struct of that name;
    the iterators \<open>walk_ranges\<close>, \<open>subtract_ranges\<close>, \<open>overlapping_ranges\<close>, \<open>flatten_ranges\<close>,
    \<open>merge_adjacent_ranges\<close> and \<open>AlignedSubranges\<close> are step functions on iterator states together
    with the lists they produce.
  \<^item> \<open>PagePool\<close>: \<open>vm/page_pool_alloc/src/lib.rs\<close>. \<open>page_pool\<close> is the state behind the pool's lock:
    slots and device ids; allocators and handles of clients are tracked explicitly, so that dropping
    and restoring them are operations of the model.
  \<^item> \<open>ChipsetDevice\<close>, \<open>Pic\<close>, \<open>IoApic\<close>: \<open>vm/devices/chipset/src/pic/mod.rs\<close> and
    \<open>vm/devices/chipset/src/ioapic/mod.rs\<close>. One record per struct, one definition per method,
    port and MMIO handlers, reset, save and restore included. Calls on the routing object of the
    IO-APIC, which is an interface, are recorded in the state in order.
  \<^item> \<open>LocalApic\<close>: \<open>vmm_core/virt_support_apic/src/lib.rs\<close>. \<open>apic_set\<close> is the state behind the lock
    that all APICs share, its slots with the \<open>SharedState\<close> of each processor included, and
    \<open>local_apic\<close> the state of one processor; an operation takes and returns both. The client of an
    APIC is the record of the values it gives and of the calls made on it. \<open>LocalApicLemmas\<close> has the
    facts on vectors, banks of vectors and the in-service stack, \<open>LocalApicSafety\<close> the invariant of
    the set and of an APIC, kept by every operation, \<open>LocalApicMachine\<close> the machine of several
    processors, devices and a clock, \<open>LocalApicDelivery\<close> what a processor is given.
  \<^item> \<open>InterruptPath\<close>: \<open>IrqRoutes\<close> of \<open>vmm_core/virt/src/irqcon.rs\<close>, the routing of
    \<open>vmm_core/virt_whp/src/lib.rs\<close> with the emulated APIC of \<open>vmm_core/virt_whp/src/apic.rs\<close>, and
    \<open>handle_eoi\<close> of \<open>vmm_core/vmotherboard/src/chipset/mod.rs\<close>. The record \<open>platform\<close> joins an
    IO-APIC, the routes and the local APICs; the calls of one component on another are carried out
    in order when its operation returns.
  \<^item> \<open>GuestRanges\<close>: \<open>vm/vmcore/guestmem_core/src/ranges.rs\<close> (\<open>PagedRange\<close>, \<open>PagedRanges\<close>) and
    \<open>vm/devices/vmbus/vmbus_ring/src/gparange.rs\<close> (\<open>MultiPagedRangeBuf\<close>), the ranges that guests
    describe to the host, with their validation.
  \<^item> \<open>RingMem\<close>: the trait \<open>RingMem\<close> of \<open>vm/devices/vmbus/vmbus_ring/src/lib.rs\<close> as a record of
    operations, its implementations (flat, single mapping, paged) and the page views of
    \<open>vm/devices/vmbus/vmbus_channel/src/gpadl_ring.rs\<close>. The locale \<open>ring_mem\<close> states what ring memory
    promises; it is interpreted for all three implementations.
  \<^item> \<open>VmbusRing\<close>: the rest of \<open>vmbus_ring/src/lib.rs\<close>: packet layouts, \<open>IncomingRing\<close>, \<open>OutgoingRing\<close>,
    \<open>InnerRing\<close>, range readers and writers. The operations are parameterised by the ring memory, as
    the generic parameter of the code is.
  \<^item> \<open>RingRefinement\<close>: the specification \<open>chan\<close> of a ring as a queue of packets, and the refinement.

  \<^bold>\<open>What is proved.\<close> \<open>MemoryRange\<close>: the set operations on range lists compute the set operations
  on addresses, without overlap and in order, and aligned subranges tile a range. \<open>PagePool\<close>: the
  pages of live allocations are disjoint and inside the pool over every sequence of client
  operations, allocation is first fit, and saved allocations can be restored. \<open>Pic\<close> and \<open>IoApic\<close>:
  no sequence of guest accesses and device inputs panics outside the cases stated, the interrupt
  acknowledged is the one of highest priority, a level-triggered interrupt whose line stays high is
  delivered again after its end of interrupt, and save followed by restore gives a device that
  behaves as before. \<open>LocalApicMachine\<close>: no sequence of operations of any number of processors and
  devices panics, undefined destination formats apart, and the counters, registers, in-service
  stacks and slots stay well formed. \<open>LocalApicDelivery\<close>: serving interrupts ends, and gives exactly
  the pending vectors in order of priority. \<open>InterruptPath\<close>: a level-triggered line of the IO-APIC
  interrupts the processor it is routed to, and again after the end of interrupt exactly if the line
  is still high. \<open>GuestRanges\<close>: iterating over ranges visits exactly the bytes they cover, the
  skipping and truncating views refine the sequence of pages and bytes, encoding and validation of
  range buffers are inverse, and a hostile buffer cannot cause a panic. \<open>RingMem\<close>: paged ring memory
  is equivalent to a contiguous mapping. \<open>VmbusRing\<close>: whatever the guest writes to the ring, no
  sequence of host operations panics. \<open>RingRefinement\<close>: two well-behaved ends implement a queue of
  packets, deliver in order, and lose no wake-up of either end. The properties of kind error and
  bounds prove deviations: inputs on which the code panics, truncates or contradicts its
  documentation.

  \<^bold>\<open>Bounds and recursion.\<close> There is no fuel: every loop of the code is structural recursion or a
  \<open>function\<close> with a proved measure, so each definition returns, and \<open>None\<close> only stands for a panic.
  The loop of a processor that serves interrupts (\<open>service\<close> in \<open>LocalApicDelivery\<close>), which is the
  guest's, is a \<open>partial_function\<close>, and \<open>service_finishes\<close> shows that it returns when no timer is
  armed. The clock of the APIC machine stays below \<open>2 ^ 63\<close> units of 100ns, which is the range in
  which the comparisons of \<open>VmTime\<close> are an order. Integers
  have the width of the code where overflow can be observed; \<open>usize\<close> quantities that are lengths of
  objects in memory are natural numbers with the checks of the code written out. Arithmetic is that
  of a build with overflow checks. An operation is one atomic step: the interleavings
  considered are those of whole operations, and memory orderings are not modelled.

  \<^bold>\<open>Not modelled.\<close> Hypervisor backends, the paravisor and everything that drives ioctls or
  hypercalls (their behaviour is defined outside the sources), among them the APIC that a hypervisor
  offers in place of the emulated one; asynchronous device workers and disk,
  network and terminal I/O; file formats over block devices with external cryptography; the
  instruction emulators (their decoder is a third-party package); guest memory mapping and
  faults; tracing, \<open>Inspect\<close> and \<open>Debug\<close> implementations.
\<close>

end
